(* ===== verification/Flexiq_Prelude.thy ===== *)
theory Flexiq_Prelude
  imports
    Main
    "HOL-Library.Word"
    "HOL-Library.Char_ord"
    "HOL-Library.List_Lexorder"
    "HOL-Library.Product_Lexorder"
    "HOL-Library.Option_ord"
begin

text \<open>
  Shared vocabulary of the development.
  \<^item> Rust's fixed-width signed arithmetic on unbounded \<open>int\<close>: the saturating
    operations clamp, the plain operators of a release build wrap.
  \<^item> Rust's \<open>Result\<close> as a sum (\<open>Inl\<close> is the error) and the \<open>?\<close> operator as \<open>and_then\<close>.
  \<^item> SQL statements on tables. A table is the list of its rows. A query without an
    \<open>ORDER BY\<close> returns rows in list order and an \<open>ORDER BY\<close> is stable on ties; since
    theorems quantify over every table content, they hold for every order the engine
    may choose.
\<close>

named_theorems tbl_simps "how the SQL statements act on the rows of a table"
named_theorems res_simps "the result type and its sequencing"

type_synonym bytes = "8 word list"
type_synonym millis = int

text \<open>A finite \<open>f64\<close>: its signed significand and its binary exponent.\<close>

datatype f64 = F64 (significand: int) (exponent: int)

section \<open>Fixed-width integers\<close>

definition i64_max :: int where "i64_max = 9223372036854775807"
definition i64_min :: int where "i64_min = - 9223372036854775808"
definition i32_max :: int where "i32_max = 2147483647"
definition i32_min :: int where "i32_min = - 2147483648"
definition u32_max :: int where "u32_max = 4294967295"

definition in_i64 :: "int \<Rightarrow> bool" where
  "in_i64 x \<longleftrightarrow> i64_min \<le> x \<and> x \<le> i64_max"

definition in_i32 :: "int \<Rightarrow> bool" where
  "in_i32 x \<longleftrightarrow> i32_min \<le> x \<and> x \<le> i32_max"

definition sat_i64 :: "int \<Rightarrow> int" where
  "sat_i64 x = max i64_min (min i64_max x)"

definition saturating_add :: "int \<Rightarrow> int \<Rightarrow> int" where
  "saturating_add a b = sat_i64 (a + b)"

definition saturating_sub :: "int \<Rightarrow> int \<Rightarrow> int" where
  "saturating_sub a b = sat_i64 (a - b)"

definition saturating_mul :: "int \<Rightarrow> int \<Rightarrow> int" where
  "saturating_mul a b = sat_i64 (a * b)"

definition saturating_add_i32 :: "int \<Rightarrow> int \<Rightarrow> int" where
  "saturating_add_i32 a b = max i32_min (min i32_max (a + b))"

definition saturating_add_u32 :: "int \<Rightarrow> int \<Rightarrow> int" where
  "saturating_add_u32 a b = min u32_max (a + b)"

text \<open>Two's complement wrap-around of a plain \<open>i64\<close> operator in a release build.\<close>

definition wrap_i64 :: "int \<Rightarrow> int" where
  "wrap_i64 x = (x + 2 ^ 63) mod 2 ^ 64 - 2 ^ 63"

definition wrap_i32 :: "int \<Rightarrow> int" where
  "wrap_i32 x = (x + 2 ^ 31) mod 2 ^ 32 - 2 ^ 31"

lemma wrap_i32_id [simp]: "in_i32 x \<Longrightarrow> wrap_i32 x = x"
  by (simp add: wrap_i32_def in_i32_def i32_min_def i32_max_def)

lemma in_i32_wrap [simp]: "in_i32 (wrap_i32 x)"
  using pos_mod_bound [of "2 ^ 32" "x + 2 ^ 31"] pos_mod_sign [of "2 ^ 32" "x + 2 ^ 31"]
  by (simp add: wrap_i32_def in_i32_def i32_min_def i32_max_def)

lemmas i64_defs = i64_max_def i64_min_def in_i64_def sat_i64_def
lemmas sat_defs = saturating_add_def saturating_sub_def saturating_mul_def sat_i64_def

lemma wrap_i64_id [simp]: "in_i64 x \<Longrightarrow> wrap_i64 x = x"
  by (simp add: wrap_i64_def i64_defs)

lemma sat_i64_id [simp]: "in_i64 x \<Longrightarrow> sat_i64 x = x"
  by (simp add: i64_defs)

lemma in_i64_sat [simp]: "in_i64 (sat_i64 x)"
  by (simp add: i64_defs)

lemma sat_i64_mono: "x \<le> y \<Longrightarrow> sat_i64 x \<le> sat_i64 y"
  by (auto simp: sat_i64_def)

lemma saturating_add_mono: "a \<le> a' \<Longrightarrow> b \<le> b' \<Longrightarrow> saturating_add a b \<le> saturating_add a' b'"
  by (simp add: saturating_add_def sat_i64_mono)

section \<open>Results\<close>

text \<open>The \<open>?\<close> operator: leave with the error, or go on with the value.\<close>

fun and_then :: "'e + 'a \<Rightarrow> ('a \<Rightarrow> 'e + 'b) \<Rightarrow> 'e + 'b" where
  "and_then (Inl e) f = Inl e"
| "and_then (Inr a) f = f a"

lemma and_then_eq_Inr [res_simps]:
  "and_then m f = Inr b \<longleftrightarrow> (\<exists>a. m = Inr a \<and> f a = Inr b)"
  by (cases m) auto

lemma and_then_eq_Inl [res_simps]:
  "and_then m f = Inl e \<longleftrightarrow> m = Inl e \<or> (\<exists>a. m = Inr a \<and> f a = Inl e)"
  by (cases m) auto

lemma and_then_assoc: "and_then (and_then m f) g = and_then m (\<lambda>a. and_then (f a) g)"
  by (cases m) auto

lemma and_then_cong [fundef_cong]:
  "m = m' \<Longrightarrow> (\<And>a. m' = Inr a \<Longrightarrow> f a = f' a) \<Longrightarrow> and_then m f = and_then m' f'"
  by (cases m') auto

section \<open>SQL statements on tables\<close>

definition count_where :: "('r \<Rightarrow> bool) \<Rightarrow> 'r list \<Rightarrow> int" where
  "count_where p t = int (length (filter p t))"

definition update_where :: "('r \<Rightarrow> bool) \<Rightarrow> ('r \<Rightarrow> 'r) \<Rightarrow> 'r list \<Rightarrow> 'r list" where
  "update_where p f t = map (\<lambda>r. if p r then f r else r) t"

definition delete_where :: "('r \<Rightarrow> bool) \<Rightarrow> 'r list \<Rightarrow> 'r list" where
  "delete_where p t = filter (\<lambda>r. \<not> p r) t"

text \<open>SQLite reads a negative \<open>LIMIT\<close> as unbounded and a negative \<open>OFFSET\<close> as zero.\<close>

definition sql_limit :: "int \<Rightarrow> 'r list \<Rightarrow> 'r list" where
  "sql_limit n t = (if n < 0 then t else take (nat n) t)"

definition sql_offset :: "int \<Rightarrow> 'r list \<Rightarrow> 'r list" where
  "sql_offset n t = drop (nat n) t"

definition order_desc :: "('r \<Rightarrow> 'k::linorder) \<Rightarrow> 'r list \<Rightarrow> 'r list" where
  "order_desc k t = rev (sort_key k (rev t))"

lemma set_update_where [tbl_simps]:
  "set (update_where p f t) = {r. \<exists>x\<in>set t. r = (if p x then f x else x)}"
  by (auto simp: update_where_def)

lemma update_where_cong:
  "(\<And>r. r \<in> set t \<Longrightarrow> p r = q r) \<Longrightarrow> update_where p f t = update_where q f t"
  by (simp add: update_where_def)

lemma in_update_where: "x \<in> set t \<Longrightarrow> \<not> p x \<Longrightarrow> x \<in> set (update_where p f t)"
  by (force simp: update_where_def)

lemma set_delete_where [tbl_simps]: "set (delete_where p t) = {r \<in> set t. \<not> p r}"
  by (auto simp: delete_where_def)

lemma map_update_where [tbl_simps]:
  "(\<And>r. r \<in> set t \<Longrightarrow> p r \<Longrightarrow> k (f r) = k r) \<Longrightarrow> map k (update_where p f t) = map k t"
  by (auto simp: update_where_def)

lemma filter_update_where:
  "(\<And>r. r \<in> set t \<Longrightarrow> p r \<Longrightarrow> \<not> q r \<and> \<not> q (f r)) \<Longrightarrow> filter q (update_where p f t) = filter q t"
  by (induction t) (auto simp: update_where_def)

lemma find_update_where:
  "(\<And>x. q (f x) = q x) \<Longrightarrow> find q (update_where p f t) = map_option (\<lambda>x. if p x then f x else x) (find q t)"
  by (induction t) (auto simp: update_where_def)

lemma distinct_map_delete_where [tbl_simps]:
  "distinct (map k t) \<Longrightarrow> distinct (map k (delete_where p t))"
  by (simp add: delete_where_def distinct_map_filter)

lemma update_where_cong_id: "(\<And>r. r \<in> set t \<Longrightarrow> \<not> p r) \<Longrightarrow> update_where p f t = t"
  by (auto simp: update_where_def map_idI)

lemma delete_where_id: "(\<And>r. r \<in> set t \<Longrightarrow> \<not> p r) \<Longrightarrow> delete_where p t = t"
  by (simp add: delete_where_def)

lemma delete_where_fresh: "v \<notin> k ` set t \<Longrightarrow> delete_where (\<lambda>x. k x = v) t = t"
  by (rule delete_where_id) (metis imageI)

lemma delete_where_Nil [simp]: "delete_where p [] = []"
  by (simp add: delete_where_def)

lemma update_where_Nil [simp]: "update_where p f [] = []"
  by (simp add: update_where_def)

lemma count_where_0 [tbl_simps]: "count_where p t = 0 \<longleftrightarrow> (\<forall>r\<in>set t. \<not> p r)"
  by (auto simp: count_where_def filter_empty_conv)

lemma count_where_nonneg [simp]: "0 \<le> count_where p t"
  by (simp add: count_where_def)

lemma count_where_add_0 [tbl_simps]:
  "count_where p t + count_where q u = 0 \<longleftrightarrow> (\<forall>r\<in>set t. \<not> p r) \<and> (\<forall>r\<in>set u. \<not> q r)"
  using count_where_nonneg [of p t] count_where_nonneg [of q u]
  by (auto simp: count_where_0 [symmetric] simp del: count_where_nonneg)

lemma delete_update_where:
  "(\<And>r. r \<in> set t \<Longrightarrow> d (f r) = d r) \<Longrightarrow>
     delete_where d (update_where p f t) = update_where p f (delete_where d t)"
  by (induction t) (auto simp: delete_where_def update_where_def)

lemma distinct_sql_limit: "distinct (map k t) \<Longrightarrow> distinct (map k (sql_limit n t))"
  by (simp add: sql_limit_def take_map [symmetric])

lemma set_sql_limit: "set (sql_limit n t) \<subseteq> set t"
  by (auto simp: sql_limit_def dest: in_set_takeD)

lemma distinct_map_key:
  "distinct (map k t) \<Longrightarrow> x \<in> set t \<Longrightarrow> y \<in> set t \<Longrightarrow> k x = k y \<Longrightarrow> x = y"
  by (auto simp: distinct_map inj_on_def)

lemma bex_key: "(\<exists>x\<in>set t. k x = v) \<longleftrightarrow> v \<in> k ` set t"
  by auto

lemma filter_key_single:
  "distinct (map k t) \<Longrightarrow> x \<in> set t \<Longrightarrow> filter (\<lambda>r. k r = k x) t = [x]"
proof (induction t)
  case (Cons a t)
  show ?case
  proof (cases "a = x")
    case True
    then have "\<forall>r\<in>set t. k r \<noteq> k x" using Cons.prems(1) by (auto simp del: image_iff) (metis imageI)
    then show ?thesis using True by (auto simp: filter_empty_conv)
  next
    case False
    then have "x \<in> set t" using Cons.prems(2) by auto
    moreover from this have "k a \<noteq> k x" using Cons.prems(1) by force
    ultimately show ?thesis using Cons by simp
  qed
qed simp

text \<open>A primary-key lookup: \<open>table.find(k).first().optional()\<close>.\<close>

lemma find_key_Some [tbl_simps]:
  "distinct (map k t) \<Longrightarrow> find (\<lambda>r. k r = v) t = Some x \<longleftrightarrow> x \<in> set t \<and> k x = v"
  by (induction t) (auto split: if_splits)

lemma find_snoc: "(\<And>x. x \<in> set xs \<Longrightarrow> \<not> p x) \<Longrightarrow> p y \<Longrightarrow> find p (xs @ [y]) = Some y"
  by (induction xs) auto

lemma find_key_conj:
  "distinct (map k t) \<Longrightarrow> x \<in> set t \<Longrightarrow> k x = v \<Longrightarrow> q x \<Longrightarrow> find (\<lambda>r. k r = v \<and> q r) t = Some x"
  by (induction t) auto

lemma find_filter: "find p (filter q t) = find (\<lambda>x. p x \<and> q x) t"
  by (induction t) auto

lemma find_none: "(\<And>r. r \<in> set t \<Longrightarrow> \<not> p r) \<Longrightarrow> find p t = None"
  by (auto simp: find_None_iff)

text \<open>A lookup by primary key followed by a check is a lookup of the row that passes it.\<close>

lemma find_key_check:
  "distinct (map k t) \<Longrightarrow> find (\<lambda>r. k r = v \<and> q r) t =
     (case find (\<lambda>r. k r = v) t of Some x \<Rightarrow> if q x then Some x else None | None \<Rightarrow> None)"
proof (induction t)
  case (Cons a t)
  have "find (\<lambda>r. k r = v \<and> q r) t = None" if "k a = v"
  proof (rule find_none)
    fix r
    assume "r \<in> set t"
    moreover have "v \<notin> k ` set t" using that Cons.prems by auto
    ultimately show "\<not> (k r = v \<and> q r)" by (metis imageI)
  qed
  then show ?case using Cons by simp
qed simp

lemma find_key_SomeD: "find (\<lambda>r. k r = v) t = Some x \<Longrightarrow> x \<in> set t \<and> k x = v"
  by (auto simp: find_Some_iff)

lemma find_SomeD: "find p t = Some x \<Longrightarrow> x \<in> set t \<and> p x"
  by (auto simp: find_Some_iff)

text \<open>Deleting the first \<open>n\<close> rows of a selection by their primary key.\<close>

lemma key_in_take:
  assumes "distinct (map k t)" and "x \<in> set t"
  shows "k x \<in> k ` set (take n (filter p t)) \<longleftrightarrow> x \<in> set (take n (filter p t))"
proof
  assume "k x \<in> k ` set (take n (filter p t))"
  then obtain y where y: "y \<in> set (take n (filter p t))" "k x = k y" by blast
  then have "y \<in> set t" by (auto dest: in_set_takeD)
  then have "x = y" using distinct_map_key [OF assms] y(2) by blast
  then show "x \<in> set (take n (filter p t))" using y(1) by simp
qed (rule imageI)

lemma filter_notin_take: "distinct xs \<Longrightarrow> filter (\<lambda>x. x \<notin> set (take n xs)) xs = drop n xs"
proof -
  assume "distinct xs"
  then have "distinct (take n xs @ drop n xs)" by simp
  then have "set (take n xs) \<inter> set (drop n xs) = {}" by (simp only: distinct_append)
  then have "filter (\<lambda>x. x \<notin> set (take n xs)) (take n xs @ drop n xs) = drop n xs"
    by (simp only: filter_append) (auto simp: filter_empty_conv filter_id_conv)
  then show ?thesis by simp
qed

lemma filter_in_take: "distinct xs \<Longrightarrow> filter (\<lambda>x. x \<in> set (take n xs)) xs = take n xs"
proof -
  assume "distinct xs"
  then have "distinct (take n xs @ drop n xs)" by simp
  then have "set (take n xs) \<inter> set (drop n xs) = {}" by (simp only: distinct_append)
  then have "filter (\<lambda>x. x \<in> set (take n xs)) (take n xs @ drop n xs) = take n xs"
    by (simp only: filter_append) (auto simp: filter_empty_conv filter_id_conv)
  then show ?thesis by simp
qed

lemma key_in_subset:
  assumes "distinct (map k t)" and "set xs \<subseteq> set t" and "x \<in> set t"
  shows "k x \<in> k ` set xs \<longleftrightarrow> x \<in> set xs"
  using distinct_map_key [OF assms(1,3)] assms(2) by blast

lemma delete_where_key:
  assumes "distinct (map k t)" and "set xs \<subseteq> set t"
  shows "delete_where (\<lambda>r. k r \<in> k ` set xs) t = filter (\<lambda>r. r \<notin> set xs) t"
    and "filter (\<lambda>r. k r \<in> k ` set xs) t = filter (\<lambda>r. r \<in> set xs) t"
  unfolding delete_where_def using key_in_subset [OF assms] by (auto intro!: filter_cong)

lemma filter_Nil_partition: "filter p t = [] \<Longrightarrow> filter (\<lambda>x. \<not> p x) t = t"
  by (auto simp: filter_empty_conv filter_id_conv)

lemma delete_first_selected:
  assumes "distinct (map k t)" and ids_def: "ids = k ` set (take n (filter p t))"
  shows "filter p (delete_where (\<lambda>r. k r \<in> ids) t) = drop n (filter p t)"
    and "filter (\<lambda>r. \<not> p r) (delete_where (\<lambda>r. k r \<in> ids) t) = filter (\<lambda>r. \<not> p r) t"
    and "length (filter (\<lambda>r. k r \<in> ids) t) = min n (length (filter p t))"
proof -
  have d: "distinct (filter p t)" using assms(1) by (simp add: distinct_map)
  have mem: "k x \<in> ids \<longleftrightarrow> x \<in> set (take n (filter p t))" if "x \<in> set t" for x
    unfolding ids_def by (rule key_in_take [OF assms(1) that])
  have del: "delete_where (\<lambda>r. k r \<in> ids) t = filter (\<lambda>x. x \<notin> set (take n (filter p t))) t"
    unfolding delete_where_def by (rule filter_cong) (simp_all add: mem)
  have "filter p (delete_where (\<lambda>r. k r \<in> ids) t)
      = filter (\<lambda>x. x \<notin> set (take n (filter p t))) (filter p t)"
    unfolding del by (simp add: conj_commute)
  then show "filter p (delete_where (\<lambda>r. k r \<in> ids) t) = drop n (filter p t)"
    using filter_notin_take [OF d] by simp
  show "filter (\<lambda>r. \<not> p r) (delete_where (\<lambda>r. k r \<in> ids) t) = filter (\<lambda>r. \<not> p r) t"
    unfolding del by (auto intro!: filter_cong dest: in_set_takeD)
  have "filter (\<lambda>r. k r \<in> ids) t = filter (\<lambda>x. x \<in> set (take n (filter p t))) t"
    by (rule filter_cong) (simp_all add: mem)
  also have "\<dots> = filter (\<lambda>x. x \<in> set (take n (filter p t))) (filter p t)"
    by (auto intro!: filter_cong dest: in_set_takeD)
  finally show "length (filter (\<lambda>r. k r \<in> ids) t) = min n (length (filter p t))"
    using filter_in_take [OF d, of n] by simp
qed

subsection \<open>Descending order\<close>

lemma set_order_desc [simp]: "set (order_desc k t) = set t"
  by (simp add: order_desc_def)

lemma length_order_desc [simp]: "length (order_desc k t) = length t"
  by (simp add: order_desc_def)

lemma distinct_order_desc [simp]: "distinct (order_desc k t) = distinct t"
  by (simp add: order_desc_def)

lemma sorted_wrt_order_desc:
  assumes "distinct (map k t)"
  shows "sorted_wrt (\<lambda>a b. k b < k a) (order_desc k t)"
proof -
  let ?s = "sort_key k (rev t)"
  have "distinct (map k ?s)" using assms by (simp add: distinct_map)
  moreover have "sorted (map k ?s)" by simp
  ultimately have "sorted_wrt (<) (map k ?s)" by (simp add: strict_sorted_iff)
  then show ?thesis by (simp add: order_desc_def sorted_wrt_rev sorted_wrt_map)
qed

lemma sorted_wrt_set_unique:
  assumes "transp R" and "asymp R"
  shows "sorted_wrt R xs \<Longrightarrow> sorted_wrt R ys \<Longrightarrow> set xs = set ys \<Longrightarrow> xs = ys"
proof (induction xs arbitrary: ys)
  case Nil
  then show ?case by simp
next
  case (Cons x xs)
  have irr: "\<not> R a a" for a using assms(2) by (meson asympD)
  from Cons.prems(3) obtain y ys' where ys: "ys = y # ys'" by (cases ys) auto
  have xy: "x = y"
  proof (rule ccontr)
    assume "x \<noteq> y"
    then have "x \<in> set ys'" "y \<in> set xs" using Cons.prems(3) ys by auto
    then have "R y x" "R x y" using Cons.prems(1,2) ys by auto
    then show False using assms(2) by (meson asympD)
  qed
  have "x \<notin> set xs" "x \<notin> set ys'" using Cons.prems(1,2) ys xy irr by auto
  then have "set xs = set ys'" using Cons.prems(3) ys xy by auto
  then have "xs = ys'" using Cons.IH Cons.prems(1,2) ys by auto
  with xy ys show ?case by simp
qed

lemma transp_key_gt: "transp (\<lambda>a b. (k b::'k::linorder) < k a)"
  by (auto intro: transpI)

lemma asymp_key_gt: "asymp (\<lambda>a b. (k b::'k::linorder) < k a)"
  by (auto intro: asympI)

lemma order_desc_unique:
  assumes "distinct (map k t)" and "sorted_wrt (\<lambda>a b. k b < k a) xs" and "set xs = set t"
  shows "order_desc k t = xs"
  using sorted_wrt_set_unique [OF transp_key_gt asymp_key_gt
      sorted_wrt_order_desc [OF assms(1)] assms(2)] assms(3)
  by simp

lemma insort_key_map: "insort_key k (f x) (map f xs) = map f (insort_key (\<lambda>y. k (f y)) x xs)"
  by (induction xs) auto

lemma sort_key_map: "sort_key k (map f xs) = map f (sort_key (\<lambda>y. k (f y)) xs)"
  by (induction xs) (auto simp: insort_key_map)

lemma order_desc_map: "order_desc k (map f t) = map f (order_desc (\<lambda>x. k (f x)) t)"
  by (simp add: order_desc_def rev_map sort_key_map)

subsection \<open>The top of a union\<close>

fun merge_desc :: "('r \<Rightarrow> 'k::linorder) \<Rightarrow> 'r list \<Rightarrow> 'r list \<Rightarrow> 'r list" where
  "merge_desc k [] ys = ys"
| "merge_desc k xs [] = xs"
| "merge_desc k (x # xs) (y # ys) =
     (if k y < k x then x # merge_desc k xs (y # ys) else y # merge_desc k (x # xs) ys)"

lemma set_merge_desc [simp]: "set (merge_desc k xs ys) = set xs \<union> set ys"
  by (induction k xs ys rule: merge_desc.induct) auto

lemma merge_desc_Nil2 [simp]: "merge_desc k xs [] = xs"
  by (cases xs) auto

lemma sorted_wrt_merge_desc:
  assumes "sorted_wrt (\<lambda>a b. k b < k a) xs" and "sorted_wrt (\<lambda>a b. k b < k a) ys"
    and "\<And>x y. x \<in> set xs \<Longrightarrow> y \<in> set ys \<Longrightarrow> k x \<noteq> k y"
  shows "sorted_wrt (\<lambda>a b. k b < k a) (merge_desc k xs ys)"
  using assms
proof (induction k xs ys rule: merge_desc.induct)
  case (3 k x xs y ys)
  show ?case
  proof (cases "k y < k x")
    case True
    with 3 show ?thesis by (auto dest: order.strict_trans)
  next
    case False
    moreover have "k x \<noteq> k y" using "3.prems"(3) by simp
    ultimately have "k x < k y" by simp
    with 3 False show ?thesis by (auto dest: order.strict_trans)
  qed
qed simp_all

lemma take_merge_desc:
  "n \<le> m \<Longrightarrow> n \<le> l \<Longrightarrow> take n (merge_desc k xs ys) = take n (merge_desc k (take m xs) (take l ys))"
proof (induction k xs ys arbitrary: n m l rule: merge_desc.induct)
  case (1 k ys)
  then show ?case by (simp add: min_def)
next
  case (2 k x xs)
  then show ?case by (simp add: min_def)
next
  case (3 k x xs y ys)
  show ?case
  proof (cases n)
    case 0
    then show ?thesis by simp
  next
    case (Suc n')
    with "3.prems" obtain m' l' where ml: "m = Suc m'" "l = Suc l'" "n' \<le> m'" "n' \<le> l'"
      by (metis Suc_le_D Suc_le_mono)
    show ?thesis
    proof (cases "k y < k x")
      case True
      have "take n' (merge_desc k xs (y # ys))
          = take n' (merge_desc k (take m' xs) (take l (y # ys)))"
        using "3.IH"(1) [OF True, of n' m' l] ml by simp
      with True Suc ml show ?thesis by simp
    next
      case False
      have "take n' (merge_desc k (x # xs) ys)
          = take n' (merge_desc k (take m (x # xs)) (take l' ys))"
        using "3.IH"(2) [OF False, of n' m l'] ml by simp
      with False Suc ml show ?thesis by simp
    qed
  qed
qed

lemma order_desc_append:
  assumes "distinct (map k (xs @ ys))"
  shows "order_desc k (xs @ ys) = merge_desc k (order_desc k xs) (order_desc k ys)"
proof (rule order_desc_unique [OF assms])
  show "sorted_wrt (\<lambda>a b. k b < k a) (merge_desc k (order_desc k xs) (order_desc k ys))"
    using assms by (intro sorted_wrt_merge_desc sorted_wrt_order_desc) auto
qed auto

lemma order_desc_order_desc_take:
  assumes "distinct (map k xs)"
  shows "order_desc k (take n (order_desc k xs)) = take n (order_desc k xs)"
proof (rule order_desc_unique)
  have s: "sorted_wrt (\<lambda>a b. k b < k a) (order_desc k xs)"
    by (rule sorted_wrt_order_desc [OF assms])
  then show "sorted_wrt (\<lambda>a b. k b < k a) (take n (order_desc k xs))"
    by (rule sorted_wrt_take)
  have "distinct (map k (order_desc k xs))" using assms by (simp add: distinct_map)
  then show "distinct (map k (take n (order_desc k xs)))"
    by (metis distinct_take take_map)
qed simp

text \<open>
  The rows a page needs from a union of two tables are among the first rows of each:
  sorting the two truncated answers and truncating again gives the page of the union.
\<close>

lemma take_order_desc_append:
  assumes d: "distinct (map k (xs @ ys))"
  shows "take n (order_desc k (take n (order_desc k xs) @ take n (order_desc k ys)))
       = take n (order_desc k (xs @ ys))"
proof -
  have dx: "distinct (map k xs)" and dy: "distinct (map k ys)" using d by auto
  have inj: "inj_on k (set xs \<union> set ys)" and disj: "set (map k xs) \<inter> set (map k ys) = {}"
    using d by (auto simp: distinct_map inj_on_Un)
  have "distinct (map k (take n (order_desc k xs) @ take n (order_desc k ys)))"
  proof -
    have "distinct (take n (order_desc k xs))" "distinct (take n (order_desc k ys))"
      using dx dy by (auto simp: distinct_map intro: distinct_take)
    moreover have "set (take n (order_desc k xs)) \<subseteq> set xs"
      "set (take n (order_desc k ys)) \<subseteq> set ys"
      by (auto dest: in_set_takeD)
    ultimately show ?thesis using inj disj
      by (auto simp: distinct_map intro: inj_on_subset)
  qed
  then have "order_desc k (take n (order_desc k xs) @ take n (order_desc k ys))
      = merge_desc k (take n (order_desc k xs)) (take n (order_desc k ys))"
    by (simp add: order_desc_append order_desc_order_desc_take dx dy)
  also have "take n \<dots> = take n (merge_desc k (order_desc k xs) (order_desc k ys))"
    by (rule take_merge_desc [symmetric]) auto
  finally show ?thesis by (simp add: order_desc_append [OF d])
qed

text \<open>
  \<open>INSERT ... ON CONFLICT (key) DO UPDATE\<close>, and \<open>GROUP BY\<close> with a count: one row for each key
  that occurs.
\<close>

definition upsert :: "('r \<Rightarrow> 'k) \<Rightarrow> 'r \<Rightarrow> ('r \<Rightarrow> 'r) \<Rightarrow> 'r list \<Rightarrow> 'r list" where
  "upsert key row upd t =
     (if \<exists>x\<in>set t. key x = key row then update_where (\<lambda>x. key x = key row) upd t else t @ [row])"

definition group_count :: "('r \<Rightarrow> 'k) \<Rightarrow> 'r list \<Rightarrow> ('k \<times> int) list" where
  "group_count key t = map (\<lambda>k. (k, count_where (\<lambda>r. key r = k) t)) (remdups (map key t))"

lemma map_key_update_where: "(\<And>x. key (f x) = key x) \<Longrightarrow> map key (update_where p f t) = map key t"
  by (simp add: update_where_def)

lemma distinct_upsert:
  assumes "distinct (map key t)" and "\<And>x. key (upd x) = key x"
  shows "distinct (map key (upsert key row upd t))"
proof (cases "\<exists>x\<in>set t. key x = key row")
  case True
  then show ?thesis using assms by (simp add: upsert_def map_key_update_where)
next
  case False
  then have "key row \<notin> key ` set t" by auto
  then show ?thesis using assms(1) False by (simp add: upsert_def)
qed

lemma find_upsert_other:
  assumes "\<And>x. key (upd x) = key x" and "k \<noteq> key row"
  shows "find (\<lambda>x. key x = k) (upsert key row upd t) = find (\<lambda>x. key x = k) t"
proof -
  have "find (\<lambda>x. key x = k) (update_where (\<lambda>x. key x = key row) upd t) = find (\<lambda>x. key x = k) t"
    using assms by (induction t) (auto simp: update_where_def)
  moreover have "find (\<lambda>x. key x = k) (t @ [row]) = find (\<lambda>x. key x = k) t"
    using assms(2) by (induction t) auto
  ultimately show ?thesis by (simp add: upsert_def)
qed

lemma find_upsert:
  assumes "\<And>x. key (upd x) = key x"
  shows "find (\<lambda>x. key x = key row) (upsert key row upd t)
    = Some (case find (\<lambda>x. key x = key row) t of None \<Rightarrow> row | Some x \<Rightarrow> upd x)"
proof (cases "\<exists>x\<in>set t. key x = key row")
  case True
  then have "find (\<lambda>x. key x = key row) (update_where (\<lambda>x. key x = key row) upd t)
      = Some (case find (\<lambda>x. key x = key row) t of None \<Rightarrow> row | Some x \<Rightarrow> upd x)"
    using assms by (induction t) (auto simp: update_where_def)
  then show ?thesis using True by (simp add: upsert_def)
next
  case False
  then have n: "find (\<lambda>x. key x = key row) t = None" by (auto simp: find_None_iff)
  then have "find (\<lambda>x. key x = key row) (t @ [row]) = Some row" using False by (intro find_snoc) auto
  then show ?thesis using False n by (simp add: upsert_def)
qed

lemma map_of_group_count:
  "map_of (group_count key t) k = (if k \<in> key ` set t then Some (count_where (\<lambda>r. key r = k) t) else None)"
proof -
  have "map_of (map (\<lambda>k. (k, f k)) ks) k = (if k \<in> set ks then Some (f k) else None)" for ks and f :: "'a \<Rightarrow> int"
    by (induction ks) auto
  then show ?thesis by (simp add: group_count_def)
qed

section \<open>Decimal text\<close>

text \<open>\<open>Display\<close> of integers and \<open>str::parse::<i64>\<close>: an optional sign and digits, in range.\<close>

definition digit_char :: "nat \<Rightarrow> char" where
  "digit_char d = char_of (48 + d)"

definition is_digit :: "char \<Rightarrow> bool" where
  "is_digit c \<longleftrightarrow> 48 \<le> (of_char c :: nat) \<and> (of_char c :: nat) \<le> 57"

definition digit_value :: "char \<Rightarrow> nat" where
  "digit_value c = of_char c - 48"

fun show_nat :: "nat \<Rightarrow> string" where
  "show_nat n = (if n < 10 then [digit_char n] else show_nat (n div 10) @ [digit_char (n mod 10)])"

declare show_nat.simps [simp del]

definition show_int :: "int \<Rightarrow> string" where
  "show_int x = (if x < 0 then CHR ''-'' # show_nat (nat (- x)) else show_nat (nat x))"

definition parse_nat :: "string \<Rightarrow> nat option" where
  "parse_nat s =
     (if s \<noteq> [] \<and> list_all is_digit s then Some (foldl (\<lambda>a c. 10 * a + digit_value c) 0 s) else None)"

definition parse_i64 :: "string \<Rightarrow> int option" where
  "parse_i64 s =
     (let v = (case s of
                 [] \<Rightarrow> None
               | c # cs \<Rightarrow>
                   if c = CHR ''-'' then map_option (\<lambda>n. - int n) (parse_nat cs)
                   else if c = CHR ''+'' then map_option int (parse_nat cs)
                   else map_option int (parse_nat s))
      in case v of Some x \<Rightarrow> if in_i64 x then Some x else None | None \<Rightarrow> None)"

lemma digit_char_facts: "d < 10 \<Longrightarrow> is_digit (digit_char d) \<and> digit_value (digit_char d) = d"
  by (simp add: digit_char_def is_digit_def digit_value_def)

lemma show_nat_nonempty [simp]: "show_nat n \<noteq> []"
  by (subst show_nat.simps) simp

lemma show_nat_digits: "c \<in> set (show_nat n) \<Longrightarrow> is_digit c"
proof (induction n rule: show_nat.induct)
  case (1 n)
  then show ?case by (subst (asm) (2) show_nat.simps) (auto simp: digit_char_facts split: if_splits)
qed

lemma show_nat_value: "foldl (\<lambda>a c. 10 * a + digit_value c) 0 (show_nat n) = n"
proof (induction n rule: show_nat.induct)
  case (1 n)
  then show ?case by (subst show_nat.simps) (simp add: digit_char_facts)
qed

lemma parse_show_nat [simp]: "parse_nat (show_nat n) = Some n"
  using show_nat_digits by (auto simp: parse_nat_def show_nat_value list_all_iff)

lemma show_nat_inj: "show_nat m = show_nat n \<longleftrightarrow> m = n"
  by (metis parse_show_nat option.inject)

lemma show_nat_no_sign: "\<not> is_digit c \<Longrightarrow> c \<notin> set (show_nat n)"
  using show_nat_digits by blast

lemma parse_show_int [simp]: "in_i64 x \<Longrightarrow> parse_i64 (show_int x) = Some x"
proof -
  assume x: "in_i64 x"
  obtain c cs where s: "show_nat (nat x) = c # cs" by (cases "show_nat (nat x)") auto
  then have "is_digit c" using show_nat_digits by (metis list.set_intros(1))
  then have "c \<noteq> CHR ''-''" "c \<noteq> CHR ''+''" by (auto simp: is_digit_def)
  moreover have "parse_nat (c # cs) = Some (nat x)" using parse_show_nat [of "nat x"] unfolding s .
  ultimately show ?thesis using x by (auto simp: show_int_def s parse_i64_def)
qed

end
