(* ===== verification/Contracts.thy ===== *)
theory Contracts
  imports Flexiq_Prelude
begin

text \<open>
  The interfaces the components rely on, as locales: a transition system with an
  inductive invariant, the text codec of an enum, a keyset-paginated listing, and a
  purge that deletes in bounded batches. Each is interpreted on the model's own
  definitions in the theory of the component that provides them.
\<close>

section \<open>Invariants of transition systems\<close>

locale invariant_system =
  fixes init :: "'s \<Rightarrow> bool"
    and step :: "'s \<Rightarrow> 's \<Rightarrow> bool"
    and inv :: "'s \<Rightarrow> bool"
  assumes inv_init: "init s \<Longrightarrow> inv s"
    and inv_step: "inv s \<Longrightarrow> step s t \<Longrightarrow> inv t"
begin

lemma inv_run: "step\<^sup>*\<^sup>* s t \<Longrightarrow> inv s \<Longrightarrow> inv t"
  by (induction rule: rtranclp_induct) (auto intro: inv_step)

lemma inv_reachable: "init s \<Longrightarrow> step\<^sup>*\<^sup>* s t \<Longrightarrow> inv t"
  by (blast intro: inv_run inv_init)

end

section \<open>Codecs of enums\<close>

locale enum_codec =
  fixes enc :: "'a \<Rightarrow> 'b"
    and dec :: "'b \<Rightarrow> 'a option"
  assumes dec_enc: "dec (enc x) = Some x"
    and dec_image: "dec y = Some x \<Longrightarrow> enc x = y"
begin

lemma enc_inj: "enc x = enc y \<longleftrightarrow> x = y"
  by (metis dec_enc option.inject)

lemma dec_eq_Some: "dec y = Some x \<longleftrightarrow> enc x = y"
  using dec_enc dec_image by blast

lemma dec_eq_None: "dec y = None \<longleftrightarrow> y \<notin> range enc"
  by (metis dec_eq_Some not_None_eq rangeE rangeI)

end

section \<open>Keyset pagination\<close>

text \<open>Rows strictly after a cursor in descending key order; no cursor is the first page.\<close>

fun after_cursor :: "'k::linorder option \<Rightarrow> 'k \<Rightarrow> bool" where
  "after_cursor None k \<longleftrightarrow> True"
| "after_cursor (Some c) k \<longleftrightarrow> k < c"

text \<open>
  The client of a keyset listing: ask for a page, go on from the key of its last row,
  stop at a short page. \<open>fuel\<close> bounds the number of pages.
\<close>

fun all_pages :: "nat \<Rightarrow> ('k option \<Rightarrow> 'r list) \<Rightarrow> ('r \<Rightarrow> 'k) \<Rightarrow> nat \<Rightarrow> 'k option \<Rightarrow> 'r list option" where
  "all_pages 0 page key n c = None"
| "all_pages (Suc fuel) page key n c =
     (let p = page c
      in if length p < n then Some p
         else map_option ((@) p) (all_pages fuel page key n (Some (key (last p)))))"

locale keyset_listing =
  fixes ok :: "'s \<Rightarrow> bool"
    and rows :: "'s \<Rightarrow> 'r list"
    and key :: "'r \<Rightarrow> 'k::linorder"
    and page :: "'s \<Rightarrow> int \<Rightarrow> 'k option \<Rightarrow> 'r list"
  assumes page_law: "ok s \<Longrightarrow> 0 < n \<Longrightarrow>
      page s n c = take (nat n) (order_desc key (filter (\<lambda>r. after_cursor c (key r)) (rows s)))"
    and distinct_keys: "ok s \<Longrightarrow> distinct (map key (rows s))"
begin

lemma filter_after_last:
  assumes "ok s" and "0 < n"
    and c: "c' = Some (key (last p))" and p: "p = page s n c" and full: "length p = nat n"
  shows "order_desc key (filter (\<lambda>r. after_cursor c (key r)) (rows s))
       = p @ order_desc key (filter (\<lambda>r. after_cursor c' (key r)) (rows s))"
proof -
  let ?F = "filter (\<lambda>r. after_cursor c (key r)) (rows s)"
  let ?L = "order_desc key ?F"
  have dF: "distinct (map key ?F)"
    using distinct_keys [OF assms(1)] by (rule distinct_map_filter)
  have sL: "sorted_wrt (\<lambda>a b. key b < key a) ?L"
    by (rule sorted_wrt_order_desc [OF dF])
  have pL: "p = take (nat n) ?L" using page_law [OF assms(1,2)] p by simp
  let ?R = "drop (nat n) ?L"
  have split: "?L = p @ ?R" using pL by simp
  have ne: "p \<noteq> []" using full assms(2) by auto
  have "sorted_wrt (\<lambda>a b. key b < key a) (p @ ?R)" using sL split by metis
  then have ps: "sorted_wrt (\<lambda>a b. key b < key a) p" and Rs: "sorted_wrt (\<lambda>a b. key b < key a) ?R"
    and cross: "\<And>x y. x \<in> set p \<Longrightarrow> y \<in> set ?R \<Longrightarrow> key y < key x"
    by (auto simp: sorted_wrt_append)
  have last_le: "key (last p) \<le> key x" if "x \<in> set p" for x
    using ps ne that by (induction p) (auto split: if_splits dest: last_in_set order.strict_implies_order)
  have "order_desc key (filter (\<lambda>r. after_cursor c' (key r)) (rows s)) = ?R"
  proof (rule order_desc_unique [OF _ Rs])
    show "distinct (map key (filter (\<lambda>r. after_cursor c' (key r)) (rows s)))"
      using distinct_keys [OF assms(1)] by (rule distinct_map_filter)
    have lastF: "last p \<in> set ?F" using ne split
      by (metis Un_iff last_in_set set_append set_order_desc)
    have setF: "set ?F = set p \<union> set ?R"
      by (metis set_append set_order_desc split)
    have mem: "x \<in> set (rows s) \<and> key x < key (last p) \<longleftrightarrow> x \<in> set ?R" for x
    proof
      assume x: "x \<in> set (rows s) \<and> key x < key (last p)"
      then have "x \<in> set ?F" using lastF by (cases c) auto
      moreover have "x \<notin> set p" using x last_le by fastforce
      ultimately show "x \<in> set ?R" using setF by blast
    next
      assume "x \<in> set ?R"
      moreover from this have "x \<in> set ?F" using setF by blast
      ultimately show "x \<in> set (rows s) \<and> key x < key (last p)"
        using cross [OF last_in_set [OF ne]] by simp
    qed
    then show "set ?R = set (filter (\<lambda>r. after_cursor c' (key r)) (rows s))"
      unfolding c by auto
  qed
  with split show ?thesis by simp
qed

lemma all_pages_from:
  assumes "ok s" and n: "0 < n"
  shows "length (filter (\<lambda>r. after_cursor c (key r)) (rows s)) < fuel * nat n \<Longrightarrow>
     all_pages fuel (page s n) key (nat n) c
       = Some (order_desc key (filter (\<lambda>r. after_cursor c (key r)) (rows s)))"
proof (induction fuel arbitrary: c)
  case 0
  then show ?case by simp
next
  case (Suc fuel)
  let ?F = "\<lambda>c. filter (\<lambda>r. after_cursor c (key r)) (rows s)"
  let ?p = "page s n c"
  have pL: "?p = take (nat n) (order_desc key (?F c))" by (rule page_law [OF assms])
  show ?case
  proof (cases "length ?p < nat n")
    case True
    then have "?p = order_desc key (?F c)" using pL by auto
    with True show ?thesis by simp
  next
    case False
    then have full: "length ?p = nat n" using pL by simp
    let ?c = "Some (key (last ?p))"
    have eq: "order_desc key (?F c) = ?p @ order_desc key (?F ?c)"
      by (rule filter_after_last [OF assms refl refl full])
    have "length (?F c) = nat n + length (?F ?c)"
      using arg_cong [OF eq, of length] full by simp
    then have "length (?F ?c) < fuel * nat n" using Suc.prems by simp
    from Suc.IH [OF this] eq False show ?thesis by (simp add: Let_def)
  qed
qed

text \<open>Walking the pages returns every row exactly once, in descending key order.\<close>

lemma all_pages_complete:
  assumes "ok s" and "0 < n" and "length (rows s) < fuel * nat n"
  shows "all_pages fuel (page s n) key (nat n) None = Some (order_desc key (rows s))"
  using all_pages_from [OF assms(1,2), of None fuel] assms(3) by simp

end

end
