(* ===== verification/Job_Model.thy ===== *)
theory Job_Model
  imports Contracts
begin

text \<open>
  The data of the queue: \<open>JobStatus\<close>, \<open>Job\<close>, \<open>NewJob\<close> and its \<open>into_job\<close>
  (\<open>flexiq-core/src/job.rs\<close>), the error type (\<open>error.rs\<close>), the rows of the tables
  (\<open>storage/schema.rs\<close>, \<open>storage/models.rs\<close>) and the database they make up.
  \<open>i32\<close> and \<open>i64\<close> columns are \<open>int\<close>, nullable columns are options, text is \<open>string\<close>.
  The clock reading \<open>now_millis()\<close> and the ids \<open>Uuid::now_v7()\<close> hands out are arguments.
\<close>

section \<open>Job status\<close>

datatype job_status = Pending | Running | Complete | Failed | Dead | Cancelled

fun status_i32 :: "job_status \<Rightarrow> int" where
  "status_i32 Pending = 0"
| "status_i32 Running = 1"
| "status_i32 Complete = 2"
| "status_i32 Failed = 3"
| "status_i32 Dead = 4"
| "status_i32 Cancelled = 5"

definition from_i32 :: "int \<Rightarrow> job_status option" where
  "from_i32 v =
     (if v = 0 then Some Pending
      else if v = 1 then Some Running
      else if v = 2 then Some Complete
      else if v = 3 then Some Failed
      else if v = 4 then Some Dead
      else if v = 5 then Some Cancelled
      else None)"

fun status_as_str :: "job_status \<Rightarrow> string" where
  "status_as_str Pending = ''pending''"
| "status_as_str Running = ''running''"
| "status_as_str Complete = ''complete''"
| "status_as_str Failed = ''failed''"
| "status_as_str Dead = ''dead''"
| "status_as_str Cancelled = ''cancelled''"

fun wire_name :: "job_status \<Rightarrow> string" where
  "wire_name Pending = ''Pending''"
| "wire_name Running = ''Running''"
| "wire_name Complete = ''Complete''"
| "wire_name Failed = ''Failed''"
| "wire_name Dead = ''Dead''"
| "wire_name Cancelled = ''Cancelled''"

text \<open>\<open>is_terminal_status\<close>: the statuses whose rows live in \<open>archived_jobs\<close>.\<close>

definition is_terminal_status :: "int \<Rightarrow> bool" where
  "is_terminal_status s \<longleftrightarrow>
     (case from_i32 s of
        Some Complete \<Rightarrow> True
      | Some Failed \<Rightarrow> True
      | Some Dead \<Rightarrow> True
      | Some Cancelled \<Rightarrow> True
      | _ \<Rightarrow> False)"

section \<open>Errors\<close>

text \<open>
  The errors Diesel reports, as far as the code tells them apart: the four constraint
  violations, and everything else a database can say (\<open>OtherDiesel\<close>).
\<close>

datatype diesel_error =
    RollbackTransaction
  | UniqueViolation
  | ForeignKeyViolation
  | NotNullViolation
  | CheckViolation
  | NotFound
  | OtherDiesel string

text \<open>\<open>StepDivergence\<close>: why the step sequence of an attempt no longer matches the recorded one.\<close>

record step_divergence =
  sd_job_id :: string
  sd_position :: nat
  sd_recorded :: string
  sd_running :: string
  sd_expected :: string
  sd_found :: string

text \<open>\<open>QueueError\<close>. The errors of the pool, of Redis and of serde are kept as their text.\<close>

datatype queue_error =
    Storage diesel_error
  | Pool string
  | Redis string
  | Json string
  | JobNotFound string
  | TaskNotRegistered string
  | Serialization string
  | WorkerError string
  | SchedulerError string
  | RateLimitExceeded string
  | QueueFull string int int
  | Timeout string
  | Config string
  | DependencyNotFound string
  | LockNotAcquired string
  | SettingConflict string
  | ContractTooOld int int
  | ClaimLost string
  | StepDiverged string int string string
  | StepSequenceDiverged step_divergence
  | StepLimitExceeded string string int int
  | StepRefused string
  | Other string

section \<open>Jobs and rows\<close>

text \<open>The columns \<open>Job\<close>, \<open>JobRow\<close> and \<open>ArchivedJobRow\<close> have in common.\<close>

record job_cols =
  jid :: string
  queue :: string
  task_name :: string
  payload :: bytes
  priority :: int
  created_at :: millis
  scheduled_at :: millis
  started_at :: "millis option"
  completed_at :: "millis option"
  retry_count :: int
  max_retries :: int
  job_result :: "bytes option"
  job_error :: "string option"
  timeout_ms :: millis
  unique_key :: "string option"
  progress :: "int option"
  metadata :: "string option"
  job_notes :: "string option"
  expires_at :: "millis option"
  result_ttl_ms :: "millis option"
  namespace :: "string option"
  enqueued_by :: "string option"

record job = job_cols +
  status :: job_status
  cancel_requested :: bool
  has_deps :: bool
  debounce_key :: "string option"

record job_row = job_cols +
  row_status :: int
  row_cancel_requested :: int
  row_has_deps :: bool
  row_debounce_key :: "string option"
  row_topic :: "string option"
  row_subscription_name :: "string option"

record archived_job_row = job_cols +
  arch_status :: int
  arch_cancel_requested :: int

record new_job =
  nj_queue :: string
  nj_task_name :: string
  nj_payload :: bytes
  nj_priority :: int
  nj_scheduled_at :: millis
  nj_max_retries :: int
  nj_timeout_ms :: millis
  nj_unique_key :: "string option"
  nj_metadata :: "string option"
  nj_notes :: "string option"
  nj_depends_on :: "string list"
  nj_expires_at :: "millis option"
  nj_result_ttl_ms :: "millis option"
  nj_namespace :: "string option"
  nj_debounce_key :: "string option"
  nj_enqueued_by :: "string option"

text \<open>\<open>NewJob::into_job\<close>, with the fresh id and the clock reading as arguments.\<close>

definition into_job :: "string \<Rightarrow> millis \<Rightarrow> new_job \<Rightarrow> job" where
  "into_job uuid now nj =
     \<lparr>jid = uuid, queue = nj_queue nj, task_name = nj_task_name nj, payload = nj_payload nj,
      priority = nj_priority nj, created_at = now, scheduled_at = nj_scheduled_at nj,
      started_at = None, completed_at = None, retry_count = 0,
      max_retries = nj_max_retries nj, job_result = None, job_error = None,
      timeout_ms = nj_timeout_ms nj, unique_key = nj_unique_key nj, progress = None,
      metadata = nj_metadata nj, job_notes = nj_notes nj, expires_at = nj_expires_at nj,
      result_ttl_ms = nj_result_ttl_ms nj, namespace = nj_namespace nj,
      enqueued_by = nj_enqueued_by nj,
      status = Pending, cancel_requested = False, has_deps = nj_depends_on nj \<noteq> [],
      debounce_key = nj_debounce_key nj\<rparr>"

text \<open>
  \<open>new_job_row\<close>: the columns of the insert. The columns the insert does not name
  (\<open>started_at\<close>, \<open>completed_at\<close>, \<open>result\<close>, \<open>error\<close>, \<open>progress\<close>) are \<open>NULL\<close>, and the
  cancel flag is written as 0 whatever the job says. \<open>attr\<close> is the job's pub/sub
  attribution.
\<close>

definition new_job_row :: "(string \<times> string) option \<Rightarrow> job \<Rightarrow> job_row" where
  "new_job_row attr j = job_cols.extend
     ((job_cols.truncate j)\<lparr>started_at := None, completed_at := None, job_result := None,
        job_error := None, progress := None\<rparr>)
     (job_row.fields (status_i32 (status j)) 0 (has_deps j) (debounce_key j)
        (map_option fst attr) (map_option snd attr))"

text \<open>\<open>From<JobRow> for Job\<close> and \<open>From<ArchivedJobRow> for Job\<close>.\<close>

definition status_of_i32 :: "int \<Rightarrow> job_status" where
  "status_of_i32 v = (case from_i32 v of Some s \<Rightarrow> s | None \<Rightarrow> Pending)"

definition job_of_row :: "job_row \<Rightarrow> job" where
  "job_of_row r = job_cols.extend (job_cols.truncate r)
     (job.fields (status_of_i32 (row_status r)) (row_cancel_requested r \<noteq> 0) (row_has_deps r)
        (row_debounce_key r))"

definition job_of_archived :: "archived_job_row \<Rightarrow> job" where
  "job_of_archived r = job_cols.extend (job_cols.truncate r)
     (job.fields (status_of_i32 (arch_status r)) (arch_cancel_requested r \<noteq> 0) False None)"

text \<open>
  \<open>Job::from_narrow\<close> and \<open>Job::from_narrow_archived\<close>: a narrow row is a row read
  without its two blobs, which the caller supplies.
\<close>

definition from_narrow :: "job_row \<Rightarrow> bytes \<Rightarrow> bytes option \<Rightarrow> job" where
  "from_narrow r p res = (job_of_row r)\<lparr>payload := p, job_result := res\<rparr>"

definition from_narrow_archived :: "archived_job_row \<Rightarrow> job" where
  "from_narrow_archived r = (job_of_archived r)\<lparr>payload := [], job_result := None\<rparr>"

section \<open>The other tables\<close>

record dependency_row =
  dep_id :: string
  dep_job_id :: string
  depends_on_job_id :: string

record claim_row =
  cl_job_id :: string
  cl_worker_id :: string
  cl_claimed_at :: millis
  cl_epoch :: "int option"
  cl_settle_deadline_ms :: "millis option"

record step_row =
  st_id :: string
  st_job_id :: string
  st_namespace :: "string option"
  st_step_key :: string
  st_seq :: int
  st_kind :: string
  st_result :: "bytes option"
  st_result_len :: int
  st_wake_at :: "millis option"
  st_created_at :: millis

record job_error_row =
  je_id :: string
  je_job_id :: string
  je_attempt :: int
  je_error :: string
  je_failed_at :: millis

record task_log_row =
  tl_id :: string
  tl_job_id :: string
  tl_task_name :: string
  tl_level :: string
  tl_message :: string
  tl_extra :: "string option"
  tl_logged_at :: millis
  tl_namespace :: "string option"

record task_metric_row =
  tm_id :: string
  tm_task_name :: string
  tm_job_id :: string
  tm_wall_time_ns :: int
  tm_memory_bytes :: int
  tm_succeeded :: bool
  tm_recorded_at :: millis
  tm_namespace :: "string option"

record replay_row =
  rh_id :: string
  rh_original_job_id :: string
  rh_replay_job_id :: string
  rh_replayed_at :: millis
  rh_original_result :: "bytes option"
  rh_replay_result :: "bytes option"
  rh_original_error :: "string option"
  rh_replay_error :: "string option"

record dead_letter_row =
  dl_id :: string
  dl_original_job_id :: string
  dl_queue :: string
  dl_task_name :: string
  dl_payload :: bytes
  dl_error :: "string option"
  dl_retry_count :: int
  dl_failed_at :: millis
  dl_metadata :: "string option"
  dl_notes :: "string option"
  dl_priority :: int
  dl_max_retries :: int
  dl_timeout_ms :: millis
  dl_result_ttl_ms :: "millis option"
  dl_namespace :: "string option"
  dl_dlq_retry_count :: int
  dl_topic :: "string option"
  dl_subscription_name :: "string option"
  dl_shed :: bool
  dl_origin_job_id :: "string option"
  dl_job_metadata :: "string option"
  dl_enqueued_by :: "string option"

record lock_row =
  lk_lock_name :: string
  lk_owner_id :: string
  lk_acquired_at :: millis
  lk_expires_at :: millis

record queue_state_row =
  qs_queue_name :: string
  qs_paused :: bool
  qs_paused_at :: "millis option"
  qs_namespace :: "string option"

record worker_row =
  wk_worker_id :: string
  wk_last_heartbeat :: millis
  wk_queues :: string
  wk_status :: string
  wk_tags :: "string option"
  wk_resources :: "string option"
  wk_resource_health :: "string option"
  wk_threads :: int
  wk_started_at :: "millis option"
  wk_hostname :: "string option"
  wk_pid :: "int option"
  wk_pool_type :: "string option"
  wk_sdk :: "string option"
  wk_sdk_version :: "string option"
  wk_registry_fingerprint :: "string option"
  wk_namespace :: "string option"

record periodic_row =
  pt_name :: string
  pt_task_name :: string
  pt_cron_expr :: string
  pt_args :: "bytes option"
  pt_kwargs :: "bytes option"
  pt_queue :: string
  pt_enabled :: bool
  pt_last_run :: "millis option"
  pt_next_run :: millis
  pt_timezone :: "string option"
  pt_namespace :: "string option"

record subscription_row =
  sb_topic :: string
  sb_subscription_name :: string
  sb_task_name :: string
  sb_queue :: string
  sb_active :: bool
  sb_durable :: bool
  sb_owner_worker_id :: "string option"
  sb_created_at :: millis
  sb_priority :: "int option"
  sb_max_retries :: "int option"
  sb_timeout_ms :: "millis option"
  sb_mode :: string
  sb_cursor :: "string option"

record topic_message_row =
  mg_id :: string
  mg_topic :: string
  mg_payload :: bytes
  mg_metadata :: "string option"
  mg_notes :: "string option"
  mg_created_at :: millis
  mg_expires_at :: "millis option"

record topic_row =
  tp_name :: string
  tp_mode :: string
  tp_retention_ms :: "millis option"
  tp_created_at :: millis

record delivery_row =
  dv_topic :: string
  dv_subscription_name :: string
  dv_message_id :: string
  dv_acked :: bool
  dv_attempts :: int
  dv_lease_expires_at :: millis
  dv_delivered_at :: millis

record setting_row =
  se_key :: string
  se_value :: string
  se_updated_at :: millis

record audit_row =
  au_id :: string
  au_namespace :: string
  au_at_ms :: millis
  au_token_id :: string
  au_principal :: string
  au_operation :: string
  au_target_kind :: "string option"
  au_target :: "string option"
  au_outcome :: string
  au_principal_kind :: string
  au_access :: string

record breaker_row =
  cb_task_name :: string
  cb_state :: int
  cb_failure_count :: int
  cb_last_failure_at :: "millis option"
  cb_opened_at :: "millis option"
  cb_half_open_at :: "millis option"
  cb_threshold :: int
  cb_window_ms :: millis
  cb_cooldown_ms :: millis
  cb_half_open_max_probes :: int
  cb_half_open_success_rate :: f64
  cb_half_open_probe_count :: int
  cb_half_open_success_count :: int
  cb_half_open_failure_count :: int

record rate_limit_row =
  rl_key :: string
  rl_tokens :: f64
  rl_max_tokens :: f64
  rl_refill_rate :: f64
  rl_last_refill :: millis

record db =
  jobs :: "job_row list"
  archived_jobs :: "archived_job_row list"
  job_dependencies :: "dependency_row list"
  execution_claims :: "claim_row list"
  job_steps :: "step_row list"
  job_errors :: "job_error_row list"
  task_logs :: "task_log_row list"
  task_metrics :: "task_metric_row list"
  replay_history :: "replay_row list"
  dead_letter :: "dead_letter_row list"
  distributed_locks :: "lock_row list"
  queue_state :: "queue_state_row list"
  workers :: "worker_row list"
  periodic_tasks :: "periodic_row list"
  topics :: "topic_row list"
  topic_subscriptions :: "subscription_row list"
  topic_messages :: "topic_message_row list"
  topic_deliveries :: "delivery_row list"
  dashboard_settings :: "setting_row list"
  audit_log :: "audit_row list"
  circuit_breakers :: "breaker_row list"
  rate_limits :: "rate_limit_row list"

definition empty_db :: db where
  "empty_db = \<lparr>jobs = [], archived_jobs = [], job_dependencies = [], execution_claims = [],
     job_steps = [], job_errors = [], task_logs = [], task_metrics = [], replay_history = [],
     dead_letter = [], distributed_locks = [], queue_state = [], workers = [],
     periodic_tasks = [], topics = [], topic_subscriptions = [], topic_messages = [],
     topic_deliveries = [], dashboard_settings = [], audit_log = [], circuit_breakers = [],
     rate_limits = []\<rparr>"

section \<open>Transactions\<close>

text \<open>
  The body of a transaction either returns the new database and a value or fails, and a
  failed body is rolled back: \<open>write_transaction\<close> commits the new database or keeps the
  old one. An operation of several transactions keeps what the earlier ones committed.
\<close>

type_synonym 'a tx = "db \<Rightarrow> queue_error + (db \<times> 'a)"
type_synonym 'a op = "db \<Rightarrow> db \<times> (queue_error + 'a)"

definition write_transaction :: "'a tx \<Rightarrow> 'a op" where
  "write_transaction f s = (case f s of Inl e \<Rightarrow> (s, Inl e) | Inr (s', a) \<Rightarrow> (s', Inr a))"

lemma write_transaction_Inl [res_simps]: "f s = Inl e \<Longrightarrow> write_transaction f s = (s, Inl e)"
  by (simp add: write_transaction_def)

lemma write_transaction_Inr [res_simps]: "f s = Inr (s', a) \<Longrightarrow> write_transaction f s = (s', Inr a)"
  by (simp add: write_transaction_def)

lemma write_transaction_cases:
  "write_transaction f s = (s', r) \<longleftrightarrow>
     (\<exists>e. f s = Inl e \<and> s' = s \<and> r = Inl e) \<or> (\<exists>a. f s = Inr (s', a) \<and> r = Inr a)"
  by (cases "f s") (auto simp: write_transaction_def)

section \<open>Simplification rules of the model\<close>

lemma from_i32_status_i32 [simp]: "from_i32 (status_i32 s) = Some s"
  by (cases s) (simp_all add: from_i32_def)

lemma status_of_i32_status_i32 [simp]: "status_of_i32 (status_i32 s) = s"
  by (simp add: status_of_i32_def)

lemma status_i32_inj [simp]: "status_i32 s = status_i32 t \<longleftrightarrow> s = t"
  by (cases s; cases t) auto

lemma is_terminal_status_i32 [simp]:
  "is_terminal_status (status_i32 s) \<longleftrightarrow> s \<noteq> Pending \<and> s \<noteq> Running"
  by (cases s) (simp_all add: is_terminal_status_def from_i32_def)

interpretation status_codec: enum_codec status_i32 from_i32
proof
  show "from_i32 (status_i32 x) = Some x" for x by simp
  show "status_i32 x = y" if "from_i32 y = Some x" for x y
    using that by (auto simp: from_i32_def split: if_splits)
qed

text \<open>The discriminants stay symbolic; a witness adds \<open>status_i32.simps\<close> to evaluate.\<close>

declare status_i32.simps [simp del]

lemmas row_defs = job_cols.defs job_row.defs job.defs archived_job_row.defs

lemma new_job_row_sel [simp]:
  "jid (new_job_row a j) = jid j" "queue (new_job_row a j) = queue j"
  "task_name (new_job_row a j) = task_name j" "payload (new_job_row a j) = payload j"
  "priority (new_job_row a j) = priority j" "created_at (new_job_row a j) = created_at j"
  "scheduled_at (new_job_row a j) = scheduled_at j" "started_at (new_job_row a j) = None"
  "completed_at (new_job_row a j) = None" "retry_count (new_job_row a j) = retry_count j"
  "max_retries (new_job_row a j) = max_retries j" "job_result (new_job_row a j) = None"
  "job_error (new_job_row a j) = None" "timeout_ms (new_job_row a j) = timeout_ms j"
  "unique_key (new_job_row a j) = unique_key j" "progress (new_job_row a j) = None"
  "metadata (new_job_row a j) = metadata j" "job_notes (new_job_row a j) = job_notes j"
  "expires_at (new_job_row a j) = expires_at j"
  "result_ttl_ms (new_job_row a j) = result_ttl_ms j"
  "namespace (new_job_row a j) = namespace j" "enqueued_by (new_job_row a j) = enqueued_by j"
  "row_status (new_job_row a j) = status_i32 (status j)"
  "row_cancel_requested (new_job_row a j) = 0" "row_has_deps (new_job_row a j) = has_deps j"
  "row_debounce_key (new_job_row a j) = debounce_key j"
  by (simp_all add: new_job_row_def row_defs)

lemma job_of_row_sel [simp]:
  "jid (job_of_row r) = jid r" "queue (job_of_row r) = queue r"
  "task_name (job_of_row r) = task_name r" "payload (job_of_row r) = payload r"
  "priority (job_of_row r) = priority r" "created_at (job_of_row r) = created_at r"
  "scheduled_at (job_of_row r) = scheduled_at r" "started_at (job_of_row r) = started_at r"
  "completed_at (job_of_row r) = completed_at r" "retry_count (job_of_row r) = retry_count r"
  "max_retries (job_of_row r) = max_retries r" "metadata (job_of_row r) = metadata r"
  "job_notes (job_of_row r) = job_notes r" "namespace (job_of_row r) = namespace r"
  "unique_key (job_of_row r) = unique_key r" "expires_at (job_of_row r) = expires_at r"
  "timeout_ms (job_of_row r) = timeout_ms r" "result_ttl_ms (job_of_row r) = result_ttl_ms r"
  "job_error (job_of_row r) = job_error r" "job_result (job_of_row r) = job_result r"
  "enqueued_by (job_of_row r) = enqueued_by r" "progress (job_of_row r) = progress r"
  "status (job_of_row r) = status_of_i32 (row_status r)"
  "cancel_requested (job_of_row r) = (row_cancel_requested r \<noteq> 0)"
  "has_deps (job_of_row r) = row_has_deps r" "debounce_key (job_of_row r) = row_debounce_key r"
  by (simp_all add: job_of_row_def row_defs)

lemma job_of_archived_sel [simp]:
  "jid (job_of_archived r) = jid r" "queue (job_of_archived r) = queue r"
  "created_at (job_of_archived r) = created_at r" "namespace (job_of_archived r) = namespace r"
  "completed_at (job_of_archived r) = completed_at r"
  "task_name (job_of_archived r) = task_name r"
  "status (job_of_archived r) = status_of_i32 (arch_status r)"
  "job_error (job_of_archived r) = job_error r" "job_result (job_of_archived r) = job_result r"
  "metadata (job_of_archived r) = metadata r" "payload (job_of_archived r) = payload r"
  by (simp_all add: job_of_archived_def row_defs)

lemma from_narrow_sel [simp]:
  "jid (from_narrow r p x) = jid r" "created_at (from_narrow r p x) = created_at r"
  "namespace (from_narrow r p x) = namespace r"
  "jid (from_narrow_archived a) = jid a" "created_at (from_narrow_archived a) = created_at a"
  "namespace (from_narrow_archived a) = namespace a"
  "completed_at (from_narrow_archived a) = completed_at a"
  by (simp_all add: from_narrow_def from_narrow_archived_def)

lemma into_job_sel [simp]:
  "jid (into_job u n nj) = u" "namespace (into_job u n nj) = nj_namespace nj"
  "queue (into_job u n nj) = nj_queue nj" "status (into_job u n nj) = Pending"
  "unique_key (into_job u n nj) = nj_unique_key nj" "created_at (into_job u n nj) = n"
  "scheduled_at (into_job u n nj) = nj_scheduled_at nj"
  "has_deps (into_job u n nj) = (nj_depends_on nj \<noteq> [])" "retry_count (into_job u n nj) = 0"
  "debounce_key (into_job u n nj) = nj_debounce_key nj"
  "metadata (into_job u n nj) = nj_metadata nj" "payload (into_job u n nj) = nj_payload nj"
  by (simp_all add: into_job_def)

end
