(* ===== verification/Json_Model.thy ===== *)
theory Json_Model
  imports Job_Model "HOL-Library.Countable" "HOL-Library.AList"
begin

text \<open>
  The JSON values the queue reads out of a job's \<open>metadata\<close> and \<open>notes\<close>, and the call
  environment. \<open>serde_json\<close> and \<open>uuid\<close> are third-party crates: the parser, the printer
  and the ids handed out are fields of the environment, and what the code relies on of
  them is stated as hypotheses where it is used. An object is an association list in
  which the code never stores a key twice.
\<close>

datatype json =
    JNull
  | JBool bool
  | JInt int
  | JFloat string
  | JStr string
  | JArr "json list"
  | JObj "(string \<times> json) list"

text \<open>\<open>Value::get\<close> (on anything but an object it is \<open>None\<close>), \<open>as_str\<close>, \<open>as_i64\<close>.\<close>

fun json_get :: "json \<Rightarrow> string \<Rightarrow> json option" where
  "json_get (JObj m) k = map_of m k"
| "json_get _ k = None"

fun json_as_str :: "json \<Rightarrow> string option" where
  "json_as_str (JStr s) = Some s"
| "json_as_str _ = None"

fun json_as_i64 :: "json \<Rightarrow> int option" where
  "json_as_i64 (JInt n) = (if in_i64 n then Some n else None)"
| "json_as_i64 _ = None"

text \<open>Deserialising as \<open>Map<String, Value>\<close>: only an object is accepted.\<close>

fun json_as_map :: "json \<Rightarrow> (string \<times> json) list option" where
  "json_as_map (JObj m) = Some m"
| "json_as_map _ = None"

text \<open>
  One call into the storage layer: the clock it reads, the ids \<open>Uuid::now_v7\<close> hands out
  in call order, the random words it draws, and \<open>serde_json\<close>.
\<close>

record env =
  now_millis :: millis
  uuid :: "nat \<Rightarrow> string"
  rand_u64 :: "nat \<Rightarrow> 64 word"
  parse_json :: "string \<Rightarrow> json option"
  print_json :: "json \<Rightarrow> string"

text \<open>The documented behaviour of \<open>serde_json\<close> the round trips rely on.\<close>

definition serde_roundtrip :: "env \<Rightarrow> bool" where
  "serde_roundtrip e \<longleftrightarrow> (\<forall>v. parse_json e (print_json e v) = Some v)"

text \<open>\<open>pubsub::extract_topic_subscription\<close>: both fields or nothing.\<close>

definition extract_topic_subscription :: "env \<Rightarrow> string option \<Rightarrow> (string \<times> string) option" where
  "extract_topic_subscription e ns =
     (case ns of
        None \<Rightarrow> None
      | Some raw \<Rightarrow>
          (case Option.bind (parse_json e raw) json_as_map of
             None \<Rightarrow> None
           | Some m \<Rightarrow>
               (case Option.bind (map_of m ''topic'') json_as_str of
                  None \<Rightarrow> None
                | Some t \<Rightarrow>
                    (case Option.bind (map_of m ''subscription'') json_as_str of
                       None \<Rightarrow> None
                     | Some s \<Rightarrow> Some (t, s)))))"

section \<open>Run keys\<close>

text \<open>\<open>step/idempotency.rs\<close>: the id a durable run began under.\<close>

definition ORIGIN_JOB_ID_KEY :: string where
  "ORIGIN_JOB_ID_KEY = ''__origin_job_id''"

definition DLQ_RETRY_COUNT_KEY :: string where
  "DLQ_RETRY_COUNT_KEY = ''__dlq_retry_count''"

definition origin_job_id :: "env \<Rightarrow> string option \<Rightarrow> string option" where
  "origin_job_id e md =
     (case md of
        None \<Rightarrow> None
      | Some raw \<Rightarrow>
          (case parse_json e raw of
             None \<Rightarrow> None
           | Some v \<Rightarrow>
               (case Option.bind (json_get v ORIGIN_JOB_ID_KEY) json_as_str of
                  None \<Rightarrow> None
                | Some origin \<Rightarrow> if origin = '''' then None else Some origin)))"

definition run_key :: "env \<Rightarrow> 'a job_cols_scheme \<Rightarrow> string" where
  "run_key e j = (case origin_job_id e (metadata j) of Some o' \<Rightarrow> o' | None \<Rightarrow> jid j)"

definition idempotency_key :: "string \<Rightarrow> string \<Rightarrow> string" where
  "idempotency_key rk sk = rk @ '':'' @ sk"

definition nonempty :: "string option \<Rightarrow> string option" where
  "nonempty x = (case x of Some v \<Rightarrow> if v = '''' then None else Some v | None \<Rightarrow> None)"

definition stamp_origin_job_id ::
  "(string \<times> json) list \<Rightarrow> string option \<Rightarrow> string \<Rightarrow> (string \<times> json) list" where
  "stamp_origin_job_id md origin_column original =
     (let carried = nonempty (Option.bind (map_of md ORIGIN_JOB_ID_KEY) json_as_str);
          origin = (case nonempty origin_column of
                      Some c \<Rightarrow> c
                    | None \<Rightarrow> (case carried of Some c \<Rightarrow> c | None \<Rightarrow> original))
      in AList.update ORIGIN_JOB_ID_KEY (JStr origin) md)"

text \<open>An environment with distinct ids and a parser that accepts nothing.\<close>

definition plain_env :: "millis \<Rightarrow> env" where
  "plain_env now = \<lparr>now_millis = now, uuid = (\<lambda>n. ''u'' @ replicate n CHR ''x''),
     rand_u64 = of_nat, parse_json = (\<lambda>_. None), print_json = (\<lambda>_. '''')\<rparr>"

lemma plain_env_sel [simp]:
  "now_millis (plain_env now) = now" "uuid (plain_env now) n = ''u'' @ replicate n CHR ''x''"
  "parse_json (plain_env now) t = None" "rand_u64 (plain_env now) n = of_nat n"
  by (simp_all add: plain_env_def)

lemma inj_plain_env: "inj (uuid (plain_env now))"
  by (simp add: inj_def plain_env_def)

text \<open>
  An environment whose \<open>serde_json\<close> satisfies the round trip: a value is printed as the
  unary form of its index in an enumeration of all values.
\<close>

instance json :: countable
  by countable_datatype

definition coded_env :: "millis \<Rightarrow> env" where
  "coded_env now = (plain_env now)\<lparr>
     parse_json := (\<lambda>t. if t = replicate (length t) CHR ''j'' then Some (from_nat (length t)) else None),
     print_json := (\<lambda>v. replicate (to_nat v) CHR ''j'')\<rparr>"

lemma coded_env_sel [simp]:
  "now_millis (coded_env now) = now" "uuid (coded_env now) n = ''u'' @ replicate n CHR ''x''"
  by (simp_all add: coded_env_def plain_env_def)

lemma coded_env_parse: "parse_json (coded_env now) = parse_json (coded_env now')"
  by (simp add: coded_env_def)

lemma serde_coded_env [simp]: "serde_roundtrip (coded_env now)"
  by (simp add: serde_roundtrip_def coded_env_def)

end
