(* ===== verification/Job_Table.thy ===== *)
theory Job_Table
  imports Json_Model
begin

text \<open>
  The \<open>jobs\<close> table and its archive: the insert with its unique index, \<open>archive_job_row\<close>,
  the invariant of the database and how the three ways of writing a job (insert, update
  in place, archive) keep it.
\<close>

section \<open>Inserting and archiving a row\<close>

text \<open>
  The partial unique index of \<open>m0017_unique_key_namespace\<close>: among the pending and running
  rows carrying a \<open>unique_key\<close>, \<open>(namespace IS NULL, COALESCE(namespace, ''), unique_key)\<close>
  is unique.
\<close>

definition unique_indexed :: "job_row \<Rightarrow> bool" where
  "unique_indexed r \<longleftrightarrow> unique_key r \<noteq> None
     \<and> row_status r \<in> {status_i32 Pending, status_i32 Running}"

definition unique_index_key :: "job_row \<Rightarrow> bool \<times> string \<times> string option" where
  "unique_index_key r =
     (namespace r = None, case namespace r of Some n \<Rightarrow> n | None \<Rightarrow> '''', unique_key r)"

definition insert_job_row :: "job_row \<Rightarrow> db \<Rightarrow> queue_error + db" where
  "insert_job_row r s =
     (if \<exists>x\<in>set (jobs s). jid x = jid r then Inl (Storage UniqueViolation)
      else if unique_indexed r
           \<and> (\<exists>x\<in>set (jobs s). unique_indexed x \<and> unique_index_key x = unique_index_key r)
      then Inl (Storage UniqueViolation)
      else Inr (s\<lparr>jobs := jobs s @ [r]\<rparr>))"

text \<open>
  \<open>archive_job_row\<close>: copy the row into \<open>archived_jobs\<close> (whose primary key refuses an id
  already archived), delete it from \<open>jobs\<close>, drop its step memo and revoke its claim.
\<close>

definition archived_of_row :: "job_row \<Rightarrow> archived_job_row" where
  "archived_of_row r = job_cols.extend (job_cols.truncate r)
     (archived_job_row.fields (row_status r) (row_cancel_requested r))"

definition archive_job_row :: "job_row \<Rightarrow> db \<Rightarrow> queue_error + db" where
  "archive_job_row r s =
     (if \<exists>a\<in>set (archived_jobs s). jid a = jid r then Inl (Storage UniqueViolation)
      else Inr (s\<lparr>archived_jobs := archived_jobs s @ [archived_of_row r],
                  jobs := delete_where (\<lambda>x. jid x = jid r) (jobs s),
                  job_steps := delete_where (\<lambda>x. st_job_id x = jid r) (job_steps s),
                  execution_claims :=
                    delete_where (\<lambda>c. cl_job_id c = jid r) (execution_claims s)\<rparr>))"

lemma archived_of_row_sel [simp]:
  "jid (archived_of_row r) = jid r" "queue (archived_of_row r) = queue r"
  "namespace (archived_of_row r) = namespace r" "created_at (archived_of_row r) = created_at r"
  "completed_at (archived_of_row r) = completed_at r" "job_error (archived_of_row r) = job_error r"
  "job_result (archived_of_row r) = job_result r" "arch_status (archived_of_row r) = row_status r"
  "task_name (archived_of_row r) = task_name r" "payload (archived_of_row r) = payload r"
  "result_ttl_ms (archived_of_row r) = result_ttl_ms r"
  "arch_cancel_requested (archived_of_row r) = row_cancel_requested r"
  "retry_count (archived_of_row r) = retry_count r" "metadata (archived_of_row r) = metadata r"
  by (simp_all add: archived_of_row_def row_defs)

text \<open>How stale a heartbeat makes its worker dead, the one constant every backend shares.\<close>

definition DEAD_WORKER_THRESHOLD_MS :: millis where
  "DEAD_WORKER_THRESHOLD_MS = 30000"

section \<open>The invariant of the database\<close>

abbreviation live_ids :: "db \<Rightarrow> string set" where
  "live_ids s \<equiv> jid ` set (jobs s)"

abbreviation archived_ids :: "db \<Rightarrow> string set" where
  "archived_ids s \<equiv> jid ` set (archived_jobs s)"

text \<open>
  A live row is pending and not started, or running since some time; it has no terminal
  data. The last conjuncts bound the progress and the cancel flag.
\<close>

definition row_ok :: "job_row \<Rightarrow> bool" where
  "row_ok r \<longleftrightarrow>
     (row_status r = status_i32 Pending \<and> started_at r = None
      \<or> row_status r = status_i32 Running \<and> started_at r \<noteq> None)
     \<and> completed_at r = None \<and> job_result r = None \<and> job_error r = None
     \<and> (\<forall>p. progress r = Some p \<longrightarrow> 0 \<le> p \<and> p \<le> 100)
     \<and> row_cancel_requested r \<in> {0, 1}"

definition archived_ok :: "archived_job_row \<Rightarrow> bool" where
  "archived_ok a \<longleftrightarrow> is_terminal_status (arch_status a) \<and> completed_at a \<noteq> None"

definition unique_ok :: "job_row list \<Rightarrow> bool" where
  "unique_ok js \<longleftrightarrow> distinct (map unique_index_key (filter unique_indexed js))"

definition jobs_ok :: "db \<Rightarrow> bool" where
  "jobs_ok s \<longleftrightarrow> distinct (map jid (jobs s)) \<and> distinct (map jid (archived_jobs s))
     \<and> live_ids s \<inter> archived_ids s = {}
     \<and> (\<forall>r\<in>set (jobs s). row_ok r) \<and> (\<forall>a\<in>set (archived_jobs s). archived_ok a)
     \<and> unique_ok (jobs s)"

definition claims_ok :: "db \<Rightarrow> bool" where
  "claims_ok s \<longleftrightarrow> distinct (map cl_job_id (execution_claims s))"

text \<open>
  The memo of a job: its steps in commit order. Positions are \<open>0, 1, 2, \<dots>\<close> without a
  gap, no step key occurs twice, and a memo only exists for a live job, whose namespace
  its rows carry.
\<close>

definition steps_of :: "db \<Rightarrow> string \<Rightarrow> step_row list" where
  "steps_of s i = filter (\<lambda>x. st_job_id x = i) (job_steps s)"

definition memo_ok :: "step_row list \<Rightarrow> bool" where
  "memo_ok xs \<longleftrightarrow> map st_seq xs = map int [0..<length xs] \<and> distinct (map st_step_key xs)"

definition steps_ok :: "db \<Rightarrow> bool" where
  "steps_ok s \<longleftrightarrow> (\<forall>i. memo_ok (steps_of s i))
     \<and> (\<forall>x\<in>set (job_steps s). \<exists>r\<in>set (jobs s). jid r = st_job_id x \<and> namespace r = st_namespace x)"

definition dlq_ok :: "db \<Rightarrow> bool" where
  "dlq_ok s \<longleftrightarrow> distinct (map dl_id (dead_letter s))"

definition locks_ok :: "db \<Rightarrow> bool" where
  "locks_ok s \<longleftrightarrow> distinct (map lk_lock_name (distributed_locks s))"

text \<open>The primary keys and identity indexes of the registries and logs beside the job tables.\<close>

definition registry_ok :: "db \<Rightarrow> bool" where
  "registry_ok s \<longleftrightarrow>
     distinct (map (\<lambda>q. (qs_namespace q, qs_queue_name q)) (queue_state s))
     \<and> distinct (map wk_worker_id (workers s))
     \<and> distinct (map (\<lambda>p. (pt_namespace p, pt_name p)) (periodic_tasks s))
     \<and> distinct (map tp_name (topics s))
     \<and> distinct (map (\<lambda>b. (sb_topic b, sb_subscription_name b)) (topic_subscriptions s))
     \<and> distinct (map mg_id (topic_messages s))
     \<and> distinct (map (\<lambda>d. (dv_topic d, dv_subscription_name d, dv_message_id d)) (topic_deliveries s))
     \<and> distinct (map se_key (dashboard_settings s))
     \<and> distinct (map au_id (audit_log s))
     \<and> distinct (map cb_task_name (circuit_breakers s))
     \<and> distinct (map rl_key (rate_limits s))"

lemma registry_ok_frame [simp]:
  "registry_ok (s\<lparr>jobs := j\<rparr>) = registry_ok s" "registry_ok (s\<lparr>archived_jobs := a\<rparr>) = registry_ok s"
  "registry_ok (s\<lparr>job_dependencies := d\<rparr>) = registry_ok s"
  "registry_ok (s\<lparr>execution_claims := c\<rparr>) = registry_ok s" "registry_ok (s\<lparr>job_steps := t\<rparr>) = registry_ok s"
  "registry_ok (s\<lparr>job_errors := e\<rparr>) = registry_ok s" "registry_ok (s\<lparr>task_logs := l\<rparr>) = registry_ok s"
  "registry_ok (s\<lparr>task_metrics := m\<rparr>) = registry_ok s" "registry_ok (s\<lparr>replay_history := h\<rparr>) = registry_ok s"
  "registry_ok (s\<lparr>dead_letter := x\<rparr>) = registry_ok s" "registry_ok (s\<lparr>distributed_locks := k\<rparr>) = registry_ok s"
  by (simp_all add: registry_ok_def)

definition db_ok :: "db \<Rightarrow> bool" where
  "db_ok s \<longleftrightarrow> jobs_ok s \<and> claims_ok s \<and> steps_ok s \<and> dlq_ok s \<and> locks_ok s \<and> registry_ok s"

lemmas ok_defs = db_ok_def jobs_ok_def claims_ok_def dlq_ok_def locks_ok_def

lemma unique_index_key_eq:
  "unique_index_key x = unique_index_key y \<longleftrightarrow> namespace x = namespace y \<and> unique_key x = unique_key y"
  by (cases "namespace x"; cases "namespace y") (auto simp: unique_index_key_def)

lemma db_ok_empty [simp]: "db_ok empty_db"
  by (simp add: ok_defs empty_db_def steps_ok_def steps_of_def memo_ok_def unique_ok_def registry_ok_def)

lemma db_ok_distinct:
  assumes "db_ok s"
  shows "distinct (map jid (jobs s))" and "distinct (map jid (archived_jobs s))"
    and "live_ids s \<inter> archived_ids s = {}" and "distinct (map cl_job_id (execution_claims s))"
  using assms by (simp_all add: ok_defs)

lemma db_ok_live: "db_ok s \<Longrightarrow> r \<in> set (jobs s) \<Longrightarrow> row_ok r"
  by (simp add: ok_defs)

lemma db_ok_archived: "db_ok s \<Longrightarrow> a \<in> set (archived_jobs s) \<Longrightarrow> archived_ok a"
  by (simp add: ok_defs)

lemma db_ok_find_live:
  "db_ok s \<Longrightarrow> find (\<lambda>r. jid r = i) (jobs s) = Some r \<longleftrightarrow> r \<in> set (jobs s) \<and> jid r = i"
  by (simp add: find_key_Some db_ok_distinct)

lemma row_ok_status: "row_ok r \<Longrightarrow> row_status r = status_i32 Pending \<or> row_status r = status_i32 Running"
  by (auto simp: row_ok_def)

lemma live_not_terminal: "db_ok s \<Longrightarrow> r \<in> set (jobs s) \<Longrightarrow> \<not> is_terminal_status (row_status r)"
  using row_ok_status [OF db_ok_live] by fastforce

lemma archived_terminal: "db_ok s \<Longrightarrow> a \<in> set (archived_jobs s) \<Longrightarrow> is_terminal_status (arch_status a)"
  using db_ok_archived by (auto simp: archived_ok_def)

text \<open>A pending job without optional data.\<close>

definition plain_row :: "string \<Rightarrow> string \<Rightarrow> int \<Rightarrow> millis \<Rightarrow> job_row" where
  "plain_row i q prio now =
     \<lparr>jid = i, queue = q, task_name = ''task'', payload = [], priority = prio, created_at = now,
      scheduled_at = now, started_at = None, completed_at = None, retry_count = 0,
      max_retries = 3, job_result = None, job_error = None, timeout_ms = 1000,
      unique_key = None, progress = None, metadata = None, job_notes = None, expires_at = None,
      result_ttl_ms = None, namespace = None, enqueued_by = None,
      row_status = status_i32 Pending, row_cancel_requested = 0, row_has_deps = False,
      row_debounce_key = None, row_topic = None, row_subscription_name = None\<rparr>"

lemma plain_row_sel [simp]:
  "jid (plain_row i q p n) = i" "queue (plain_row i q p n) = q" "priority (plain_row i q p n) = p"
  "created_at (plain_row i q p n) = n" "scheduled_at (plain_row i q p n) = n"
  "started_at (plain_row i q p n) = None" "row_status (plain_row i q p n) = status_i32 Pending"
  "namespace (plain_row i q p n) = None" "unique_key (plain_row i q p n) = None"
  "expires_at (plain_row i q p n) = None" "row_has_deps (plain_row i q p n) = False"
  "row_debounce_key (plain_row i q p n) = None" "metadata (plain_row i q p n) = None"
  "completed_at (plain_row i q p n) = None" "job_result (plain_row i q p n) = None"
  "job_error (plain_row i q p n) = None" "progress (plain_row i q p n) = None"
  "row_cancel_requested (plain_row i q p n) = 0" "task_name (plain_row i q p n) = ''task''"
  "retry_count (plain_row i q p n) = 0" "timeout_ms (plain_row i q p n) = 1000"
  "result_ttl_ms (plain_row i q p n) = None" "job_notes (plain_row i q p n) = None"
  "max_retries (plain_row i q p n) = 3" "payload (plain_row i q p n) = []"
  "row_ok (plain_row i q p n)" "unique_indexed (plain_row i q p n) = False"
  by (simp_all add: plain_row_def row_ok_def unique_indexed_def)

text \<open>A database that holds just the given live rows.\<close>

definition live_db :: "job_row list \<Rightarrow> db" where
  "live_db rs = empty_db\<lparr>jobs := rs\<rparr>"

lemma live_db_sel [simp]:
  "jobs (live_db rs) = rs" "archived_jobs (live_db rs) = []" "job_dependencies (live_db rs) = []"
  "execution_claims (live_db rs) = []" "job_steps (live_db rs) = []" "dead_letter (live_db rs) = []"
  "distributed_locks (live_db rs) = []"
  by (simp_all add: live_db_def empty_db_def)

lemma registry_ok_live_db [simp]: "registry_ok (live_db rs)"
  by (simp add: live_db_def registry_ok_def empty_db_def)

lemma db_ok_live_db:
  "db_ok (live_db rs) \<longleftrightarrow> distinct (map jid rs) \<and> (\<forall>r\<in>set rs. row_ok r) \<and> unique_ok rs"
  by (auto simp: ok_defs steps_ok_def steps_of_def memo_ok_def)

section \<open>The three ways of writing a job keep the invariant\<close>

lemma unique_ok_append: "unique_ok (js @ [r]) \<longleftrightarrow> unique_ok js
    \<and> \<not> (unique_indexed r \<and> (\<exists>x\<in>set js. unique_indexed x \<and> unique_index_key x = unique_index_key r))"
  by (auto simp: unique_ok_def) (metis (mono_tags, lifting) image_eqI mem_Collect_eq)

lemma insert_job_row_Inr:
  "insert_job_row r s = Inr s' \<longleftrightarrow>
     (\<forall>x\<in>set (jobs s). jid x \<noteq> jid r)
     \<and> \<not> (unique_indexed r
          \<and> (\<exists>x\<in>set (jobs s). unique_indexed x \<and> unique_index_key x = unique_index_key r))
     \<and> s' = s\<lparr>jobs := jobs s @ [r]\<rparr>"
  unfolding insert_job_row_def by (simp add: Bex_def Ball_def) metis

lemma insert_job_row_keeps:
  assumes "insert_job_row r s = Inr s'" and "db_ok s" and "row_ok r" and "jid r \<notin> archived_ids s"
  shows "db_ok s'"
proof -
  note ins = assms(1) [unfolded insert_job_row_Inr]
  then have s': "s' = s\<lparr>jobs := jobs s @ [r]\<rparr>" and new: "jid r \<notin> live_ids s" by auto
  have "unique_ok (jobs s @ [r])"
    using assms(2) ins by (simp add: unique_ok_append ok_defs)
  moreover have "steps_ok s'"
    using assms(2) unfolding s' db_ok_def steps_ok_def steps_of_def by simp
  ultimately show ?thesis using assms(2-4) new by (simp add: s' ok_defs)
qed

text \<open>What an in-place update may not touch, and what it has to establish.\<close>

definition row_update_ok :: "(job_row \<Rightarrow> job_row) \<Rightarrow> job_row \<Rightarrow> bool" where
  "row_update_ok f r \<longleftrightarrow> jid (f r) = jid r \<and> namespace (f r) = namespace r
     \<and> unique_key (f r) = unique_key r \<and> (row_ok r \<longrightarrow> row_ok (f r))"

lemma unique_ok_map:
  assumes "unique_ok js" and "\<And>r. r \<in> set js \<Longrightarrow> jid (g r) = jid r \<and> namespace (g r) = namespace r
      \<and> unique_key (g r) = unique_key r \<and> unique_indexed (g r) = unique_indexed r"
  shows "unique_ok (map g js)"
proof -
  have "map unique_index_key (filter unique_indexed (map g js))
      = map unique_index_key (filter unique_indexed js)"
    using assms(2) by (induction js) (auto simp: unique_index_key_def)
  with assms(1) show ?thesis by (simp only: unique_ok_def)
qed

lemma row_ok_unique_indexed: "row_ok r \<Longrightarrow> unique_indexed r = (unique_key r \<noteq> None)"
  by (auto simp: row_ok_def unique_indexed_def)

lemma map_jobs_keeps:
  assumes ok: "db_ok s" and g: "\<And>r. r \<in> set (jobs s) \<Longrightarrow> row_update_ok g r"
  shows "db_ok (s\<lparr>jobs := map g (jobs s)\<rparr>)"
proof -
  have g': "jid (g r) = jid r \<and> namespace (g r) = namespace r \<and> unique_key (g r) = unique_key r
      \<and> row_ok (g r) \<and> unique_indexed (g r) = unique_indexed r" if "r \<in> set (jobs s)" for r
    using g [OF that] db_ok_live [OF ok that]
    by (simp add: row_update_ok_def row_ok_unique_indexed)
  have "map jid (map g (jobs s)) = map jid (jobs s)" using g' by simp
  moreover from this have "jid ` set (map g (jobs s)) = live_ids s" by (metis set_map)
  moreover have "unique_ok (map g (jobs s))"
    using ok g' by (intro unique_ok_map) (simp_all add: ok_defs)
  moreover have "steps_ok (s\<lparr>jobs := map g (jobs s)\<rparr>)"
    using ok g' by (simp add: db_ok_def steps_ok_def steps_of_def)
  ultimately show ?thesis using ok g'
    by (simp add: ok_defs del: map_map)
qed

lemma update_jobs_keeps:
  assumes "db_ok s" and "\<And>r. r \<in> set (jobs s) \<Longrightarrow> p r \<Longrightarrow> row_update_ok f r"
  shows "db_ok (s\<lparr>jobs := update_where p f (jobs s)\<rparr>)"
  unfolding update_where_def
  using assms by (intro map_jobs_keeps) (auto simp: row_update_ok_def)

lemma filter_delete_job:
  "filter (\<lambda>x. st_job_id x = i) (delete_where (\<lambda>x. st_job_id x = j) xs)
     = (if i = j then [] else filter (\<lambda>x. st_job_id x = i) xs)"
  by (auto simp: delete_where_def filter_empty_conv intro!: filter_cong)

lemma memo_ok_Nil [simp]: "memo_ok []"
  by (simp add: memo_ok_def)

text \<open>
  What archiving the rows \<open>rs\<close> one after the other amounts to. Archiving a live job
  always succeeds: the archive has no row with its id.
\<close>

definition archive_rows :: "job_row list \<Rightarrow> db \<Rightarrow> db" where
  "archive_rows rs s = s\<lparr>archived_jobs := archived_jobs s @ map archived_of_row rs,
     jobs := delete_where (\<lambda>x. jid x \<in> jid ` set rs) (jobs s),
     job_steps := delete_where (\<lambda>x. st_job_id x \<in> jid ` set rs) (job_steps s),
     execution_claims := delete_where (\<lambda>c. cl_job_id c \<in> jid ` set rs) (execution_claims s)\<rparr>"

lemma archive_rows_Nil [simp]: "archive_rows [] s = s"
  by (simp add: archive_rows_def delete_where_def)

lemma archive_rows_append: "archive_rows (rs @ rs') s = archive_rows rs' (archive_rows rs s)"
  by (simp add: archive_rows_def delete_where_def image_Un)

lemma archive_rows_Cons: "archive_rows (r # rs) s = archive_rows rs (archive_rows [r] s)"
  using archive_rows_append [of "[r]" rs s] by simp

lemma archive_rows_sel [simp]:
  "jobs (archive_rows rs s) = delete_where (\<lambda>x. jid x \<in> jid ` set rs) (jobs s)"
  "archived_jobs (archive_rows rs s) = archived_jobs s @ map archived_of_row rs"
  "job_dependencies (archive_rows rs s) = job_dependencies s"
  "execution_claims (archive_rows rs s)
     = delete_where (\<lambda>c. cl_job_id c \<in> jid ` set rs) (execution_claims s)"
  "dead_letter (archive_rows rs s) = dead_letter s"
  "job_errors (archive_rows rs s) = job_errors s"
  "queue_state (archive_rows rs s) = queue_state s"
  by (simp_all add: archive_rows_def)

lemma archive_job_row_eq:
  "archive_job_row r s =
     (if jid r \<in> archived_ids s then Inl (Storage UniqueViolation) else Inr (archive_rows [r] s))"
proof -
  have "(\<exists>a\<in>set (archived_jobs s). jid a = jid r) \<longleftrightarrow> jid r \<in> archived_ids s" by force
  then show ?thesis unfolding archive_job_row_def by (simp add: archive_rows_def)
qed

lemma archive_job_row_Inr:
  assumes "db_ok s" and "jid r \<in> live_ids s"
  shows "archive_job_row r s = Inr (archive_rows [r] s)"
  using assms db_ok_distinct(3) by (auto simp: archive_job_row_eq)

lemma unique_ok_delete_where: "unique_ok js \<Longrightarrow> unique_ok (delete_where p js)"
  unfolding unique_ok_def delete_where_def
  by (subst filter_filter, subst conj_commute, subst filter_filter [symmetric])
     (rule distinct_map_filter)

text \<open>A row on its way to the archive.\<close>

definition finished :: "job_row \<Rightarrow> bool" where
  "finished r \<longleftrightarrow> is_terminal_status (row_status r) \<and> completed_at r \<noteq> None"

lemma archive_row_keeps:
  assumes ok: "db_ok s" and new: "jid r \<notin> archived_ids s" and fin: "finished r"
  shows "db_ok (archive_rows [r] s)"
proof -
  let ?s = "archive_rows [r] s"
  have "jobs_ok ?s"
  proof -
    have "archived_ok (archived_of_row r)" using fin by (simp add: archived_ok_def finished_def)
    moreover have "unique_ok (jobs ?s)"
      using ok by (simp add: ok_defs unique_ok_delete_where)
    moreover have "live_ids ?s \<inter> archived_ids ?s = {}"
      using db_ok_distinct(3) [OF ok] by (auto simp: set_delete_where)
    ultimately show ?thesis using ok new
      by (simp add: ok_defs distinct_map_delete_where set_delete_where)
  qed
  moreover have "steps_ok ?s"
    using ok unfolding db_ok_def steps_ok_def steps_of_def archive_rows_def
    by (simp add: filter_delete_job set_delete_where) metis
  moreover have "claims_ok ?s"
    using ok by (simp add: ok_defs distinct_map_delete_where)
  ultimately show ?thesis using ok
    by (simp add: archive_rows_def db_ok_def dlq_ok_def locks_ok_def)
qed

lemma archive_job_row_keeps:
  "db_ok s \<Longrightarrow> archive_job_row r s = Inr s' \<Longrightarrow> finished r \<Longrightarrow> db_ok s'"
  by (auto simp: archive_job_row_eq archive_row_keeps split: if_splits)

lemma archive_rows_keeps:
  "db_ok s \<Longrightarrow> distinct (map jid rs) \<Longrightarrow> jid ` set rs \<inter> archived_ids s = {} \<Longrightarrow>
     \<forall>r\<in>set rs. finished r \<Longrightarrow> db_ok (archive_rows rs s)"
proof (induction rs arbitrary: s)
  case (Cons r rs)
  have "db_ok (archive_rows [r] s)" using Cons.prems by (intro archive_row_keeps) auto
  moreover have "jid ` set rs \<inter> archived_ids (archive_rows [r] s) = {}" using Cons.prems by auto
  ultimately show ?case using Cons.IH Cons.prems by (subst archive_rows_Cons) auto
qed simp

text \<open>Tables outside the invariant may change freely.\<close>

lemma db_ok_frame [simp]:
  "db_ok (s\<lparr>job_dependencies := d\<rparr>) = db_ok s" "db_ok (s\<lparr>job_errors := e\<rparr>) = db_ok s"
  "db_ok (s\<lparr>task_metrics := m\<rparr>) = db_ok s" "db_ok (s\<lparr>task_logs := l\<rparr>) = db_ok s"
  "db_ok (s\<lparr>replay_history := h\<rparr>) = db_ok s"
  by (simp_all add: ok_defs steps_ok_def steps_of_def)

lemma db_ok_claims:
  "db_ok s \<Longrightarrow> distinct (map cl_job_id c) \<Longrightarrow> db_ok (s\<lparr>execution_claims := c\<rparr>)"
  by (simp add: ok_defs steps_ok_def steps_of_def)

lemma db_ok_delete_claims:
  "db_ok s \<Longrightarrow> db_ok (s\<lparr>execution_claims := delete_where p (execution_claims s)\<rparr>)"
  by (intro db_ok_claims) (simp_all add: db_ok_distinct distinct_map_delete_where)

lemma db_ok_update_claims:
  "db_ok s \<Longrightarrow> (\<And>c. cl_job_id (f c) = cl_job_id c) \<Longrightarrow>
     db_ok (s\<lparr>execution_claims := update_where p f (execution_claims s)\<rparr>)"
  by (intro db_ok_claims) (simp_all add: db_ok_distinct map_update_where)

lemma db_ok_delete_archived:
  "db_ok s \<Longrightarrow> db_ok (s\<lparr>archived_jobs := delete_where p (archived_jobs s)\<rparr>)"
  by (auto simp: ok_defs steps_ok_def steps_of_def set_delete_where distinct_map_delete_where)

lemma db_ok_dead_letter:
  "db_ok s \<Longrightarrow> distinct (map dl_id d) \<Longrightarrow> db_ok (s\<lparr>dead_letter := d\<rparr>)"
  by (simp add: ok_defs steps_ok_def steps_of_def)

lemma db_ok_locks:
  "db_ok s \<Longrightarrow> distinct (map lk_lock_name l) \<Longrightarrow> db_ok (s\<lparr>distributed_locks := l\<rparr>)"
  by (simp add: ok_defs steps_ok_def steps_of_def)

section \<open>Operations that keep the invariant\<close>

definition tx_keeps :: "'a tx \<Rightarrow> bool" where
  "tx_keeps f \<longleftrightarrow> (\<forall>s s' a. db_ok s \<longrightarrow> f s = Inr (s', a) \<longrightarrow> db_ok s')"

definition op_keeps :: "'a op \<Rightarrow> bool" where
  "op_keeps f \<longleftrightarrow> (\<forall>s. db_ok s \<longrightarrow> db_ok (fst (f s)))"

lemma tx_keepsI: "(\<And>s s' a. db_ok s \<Longrightarrow> f s = Inr (s', a) \<Longrightarrow> db_ok s') \<Longrightarrow> tx_keeps f"
  by (simp add: tx_keeps_def)

lemma tx_keepsD: "tx_keeps f \<Longrightarrow> db_ok s \<Longrightarrow> f s = Inr (s', a) \<Longrightarrow> db_ok s'"
  by (simp add: tx_keeps_def)

lemma op_keepsI: "(\<And>s. db_ok s \<Longrightarrow> db_ok (fst (f s))) \<Longrightarrow> op_keeps f"
  by (simp add: op_keeps_def)

lemma op_keepsD: "op_keeps f \<Longrightarrow> db_ok s \<Longrightarrow> db_ok (fst (f s))"
  by (simp add: op_keeps_def)

lemma op_keeps_write: "tx_keeps f \<Longrightarrow> op_keeps (write_transaction f)"
  by (auto simp: op_keeps_def write_transaction_def intro: tx_keepsD split: sum.splits)

section \<open>The registry tables\<close>

text \<open>An operation on one of them keeps the invariant when it keeps the table's key.\<close>

lemma db_ok_registryD:
  assumes "db_ok s"
  shows "distinct (map (\<lambda>q. (qs_namespace q, qs_queue_name q)) (queue_state s))"
    and "distinct (map wk_worker_id (workers s))"
    and "distinct (map (\<lambda>p. (pt_namespace p, pt_name p)) (periodic_tasks s))"
    and "distinct (map tp_name (topics s))"
    and "distinct (map (\<lambda>b. (sb_topic b, sb_subscription_name b)) (topic_subscriptions s))"
    and "distinct (map mg_id (topic_messages s))"
    and "distinct (map (\<lambda>d. (dv_topic d, dv_subscription_name d, dv_message_id d)) (topic_deliveries s))"
    and "distinct (map se_key (dashboard_settings s))"
    and "distinct (map au_id (audit_log s))"
    and "distinct (map cb_task_name (circuit_breakers s))"
    and "distinct (map rl_key (rate_limits s))"
  using assms by (simp_all add: db_ok_def registry_ok_def)

lemma db_ok_registryI:
  assumes "db_ok s"
  shows "distinct (map (\<lambda>q. (qs_namespace q, qs_queue_name q)) qs) \<Longrightarrow> db_ok (s\<lparr>queue_state := qs\<rparr>)"
    and "distinct (map wk_worker_id ws) \<Longrightarrow> db_ok (s\<lparr>workers := ws\<rparr>)"
    and "distinct (map (\<lambda>p. (pt_namespace p, pt_name p)) ps) \<Longrightarrow> db_ok (s\<lparr>periodic_tasks := ps\<rparr>)"
    and "distinct (map tp_name tps) \<Longrightarrow> db_ok (s\<lparr>topics := tps\<rparr>)"
    and "distinct (map (\<lambda>b. (sb_topic b, sb_subscription_name b)) bs) \<Longrightarrow> db_ok (s\<lparr>topic_subscriptions := bs\<rparr>)"
    and "distinct (map mg_id ms) \<Longrightarrow> db_ok (s\<lparr>topic_messages := ms\<rparr>)"
    and "distinct (map (\<lambda>d. (dv_topic d, dv_subscription_name d, dv_message_id d)) ds) \<Longrightarrow>
      db_ok (s\<lparr>topic_deliveries := ds\<rparr>)"
    and "distinct (map se_key ss) \<Longrightarrow> db_ok (s\<lparr>dashboard_settings := ss\<rparr>)"
    and "distinct (map au_id al) \<Longrightarrow> db_ok (s\<lparr>audit_log := al\<rparr>)"
    and "distinct (map cb_task_name cbs) \<Longrightarrow> db_ok (s\<lparr>circuit_breakers := cbs\<rparr>)"
    and "distinct (map rl_key rls) \<Longrightarrow> db_ok (s\<lparr>rate_limits := rls\<rparr>)"
  using assms by (simp_all add: db_ok_def registry_ok_def ok_defs steps_ok_def steps_of_def unique_ok_def)

end
