(* ===== verification/Job_Enqueue.thy ===== *)
theory Job_Enqueue
  imports Job_Table
begin

text \<open>
  Creating jobs (\<open>storage/diesel_common/jobs.rs\<close>): dependency validation, the insert with
  its unique index, and the five enqueue paths.
\<close>

section \<open>Inserting a job\<close>

text \<open>\<open>insert_job_dependencies\<close>: one edge per dependency, each under a fresh id.\<close>

fun insert_job_dependencies ::
  "env \<Rightarrow> nat \<Rightarrow> string \<Rightarrow> string list \<Rightarrow> db \<Rightarrow> queue_error + db" where
  "insert_job_dependencies e k i [] s = Inr s"
| "insert_job_dependencies e k i (d # ds) s =
     (if \<exists>x\<in>set (job_dependencies s). dep_id x = uuid e k then Inl (Storage UniqueViolation)
      else insert_job_dependencies e (Suc k) i ds
             (s\<lparr>job_dependencies := job_dependencies s
                 @ [\<lparr>dep_id = uuid e k, dep_job_id = i, depends_on_job_id = d\<rparr>]\<rparr>))"

definition insert_job_with_deps ::
  "env \<Rightarrow> nat \<Rightarrow> job \<Rightarrow> string list \<Rightarrow> db \<Rightarrow> queue_error + db" where
  "insert_job_with_deps e k j deps s =
     and_then (insert_job_row (new_job_row (extract_topic_subscription e (job_notes j)) j) s)
       (insert_job_dependencies e k (jid j) deps)"

section \<open>Dependencies\<close>

definition validate_dependency :: "string \<Rightarrow> string option \<Rightarrow> db \<Rightarrow> queue_error + unit" where
  "validate_dependency d ns s =
     (case find (\<lambda>r. jid r = d) (jobs s) of
        Some r \<Rightarrow>
          if row_status r = status_i32 Dead \<or> row_status r = status_i32 Cancelled
             \<or> namespace r \<noteq> ns
          then Inl (Storage RollbackTransaction) else Inr ()
      | None \<Rightarrow>
          (case find (\<lambda>r. jid r = d) (archived_jobs s) of
             Some a \<Rightarrow>
               if arch_status a = status_i32 Complete \<and> namespace a = ns then Inr ()
               else Inl (Storage RollbackTransaction)
           | None \<Rightarrow> Inl (Storage RollbackTransaction)))"

fun validate_dependencies ::
  "string list \<Rightarrow> string option \<Rightarrow> db \<Rightarrow> queue_error + unit" where
  "validate_dependencies [] ns s = Inr ()"
| "validate_dependencies (d # ds) ns s =
     and_then (validate_dependency d ns s) (\<lambda>_. validate_dependencies ds ns s)"

definition dep_job_ids :: "db \<Rightarrow> string \<Rightarrow> string list" where
  "dep_job_ids s i = map depends_on_job_id (filter (\<lambda>d. dep_job_id d = i) (job_dependencies s))"

definition deps_satisfied :: "db \<Rightarrow> string \<Rightarrow> bool" where
  "deps_satisfied s i =
     (let deps = dep_job_ids s i
      in if deps = [] then True
         else count_where (\<lambda>r. jid r \<in> set deps \<and> row_status r \<noteq> status_i32 Complete) (jobs s)
            + count_where (\<lambda>r. jid r \<in> set deps \<and> arch_status r \<noteq> status_i32 Complete)
                (archived_jobs s) = 0)"

definition dependency_not_found :: "queue_error \<Rightarrow> queue_error" where
  "dependency_not_found err =
     (if err = Storage RollbackTransaction
      then DependencyNotFound ''dependency not found or already dead/cancelled'' else err)"

fun map_err :: "('e \<Rightarrow> 'e) \<Rightarrow> 's \<times> ('e + 'a) \<Rightarrow> 's \<times> ('e + 'a)" where
  "map_err f (s, Inl e) = (s, Inl (f e))"
| "map_err f (s, Inr a) = (s, Inr a)"

section \<open>Plain and batched enqueue\<close>

definition enqueue :: "env \<Rightarrow> new_job \<Rightarrow> job op" where
  "enqueue e nj s =
     (let j = into_job (uuid e 0) (now_millis e) nj;
          deps = nj_depends_on nj
      in map_err dependency_not_found (write_transaction (\<lambda>s.
           and_then (validate_dependencies deps (namespace j) s) (\<lambda>_.
           and_then (insert_job_with_deps e 1 j deps s) (\<lambda>s'. Inr (s', j)))) s))"

text \<open>
  The dependency check of a batch: an edge onto another member of the batch is checked
  against the namespaces of the batch, any other against the tables.
\<close>

fun validate_batch_deps ::
  "(string \<rightharpoonup> string option) \<Rightarrow> string option \<Rightarrow> string list \<Rightarrow> db \<Rightarrow> queue_error + unit" where
  "validate_batch_deps bns ns [] s = Inr ()"
| "validate_batch_deps bns ns (d # ds) s =
     (case bns d of
        Some dns \<Rightarrow> if dns \<noteq> ns then Inl (Storage RollbackTransaction)
                    else validate_batch_deps bns ns ds s
      | None \<Rightarrow> and_then (validate_dependency d ns s) (\<lambda>_. validate_batch_deps bns ns ds s))"

fun validate_batch ::
  "(string \<rightharpoonup> string option) \<Rightarrow> (job \<times> string list) list \<Rightarrow> db \<Rightarrow> queue_error + unit" where
  "validate_batch bns [] s = Inr ()"
| "validate_batch bns ((j, ds) # rest) s =
     and_then (validate_batch_deps bns (namespace j) ds s) (\<lambda>_. validate_batch bns rest s)"

text \<open>The multi-row insert, row by row: a violation anywhere aborts the transaction.\<close>

fun insert_job_rows :: "job_row list \<Rightarrow> db \<Rightarrow> queue_error + db" where
  "insert_job_rows [] s = Inr s"
| "insert_job_rows (r # rs) s = and_then (insert_job_row r s) (insert_job_rows rs)"

fun insert_batch_deps ::
  "env \<Rightarrow> nat \<Rightarrow> (job \<times> string list) list \<Rightarrow> db \<Rightarrow> queue_error + db" where
  "insert_batch_deps e k [] s = Inr s"
| "insert_batch_deps e k ((j, ds) # rest) s =
     and_then (insert_job_dependencies e k (jid j) ds s)
       (insert_batch_deps e (k + length ds) rest)"

text \<open>\<open>into_job\<close> of the whole batch, the ids drawn in order.\<close>

fun into_jobs :: "env \<Rightarrow> nat \<Rightarrow> new_job list \<Rightarrow> (job \<times> string list) list" where
  "into_jobs e k [] = []"
| "into_jobs e k (nj # njs) =
     (into_job (uuid e k) (now_millis e) nj, nj_depends_on nj) # into_jobs e (Suc k) njs"

definition enqueue_batch :: "env \<Rightarrow> new_job list \<Rightarrow> job list op" where
  "enqueue_batch e njs s =
     (let prepared = into_jobs e 0 njs;
          js = map fst prepared;
          bns = map_of (rev (map (\<lambda>j. (jid j, namespace j)) js));
          rows = map (\<lambda>j. new_job_row (extract_topic_subscription e (job_notes j)) j) js
      in map_err dependency_not_found (write_transaction (\<lambda>s.
           and_then (validate_batch bns prepared s) (\<lambda>_.
           and_then (insert_job_rows rows s) (\<lambda>s1.
           and_then (insert_batch_deps e (length njs) prepared s1) (\<lambda>s2.
           Inr (s2, js))))) s))"

section \<open>Deduplicated enqueue\<close>

text \<open>
  \<open>find_active_by_unique_key\<close>. \<open>None\<close> is a namespace of its own: the filter is
  \<open>namespace = ns\<close> or \<open>namespace IS NULL\<close>, which is equality of options.
\<close>

definition find_active_by_unique_key :: "string \<Rightarrow> string option \<Rightarrow> db \<Rightarrow> job_row option" where
  "find_active_by_unique_key uk ns s =
     find (\<lambda>r. unique_key r = Some uk
             \<and> row_status r \<in> {status_i32 Pending, status_i32 Running} \<and> namespace r = ns)
       (jobs s)"

definition active_duplicate :: "job \<Rightarrow> db \<Rightarrow> job_row option" where
  "active_duplicate j s =
     (case unique_key j of None \<Rightarrow> None | Some uk \<Rightarrow> find_active_by_unique_key uk (namespace j) s)"

definition enqueue_unique_tx :: "env \<Rightarrow> job \<Rightarrow> string list \<Rightarrow> (job \<times> bool) tx" where
  "enqueue_unique_tx e j deps s =
     (case active_duplicate j s of
        Some r \<Rightarrow> Inr (s, job_of_row r, True)
      | None \<Rightarrow>
          and_then (validate_dependencies deps (namespace j) s) (\<lambda>_.
          and_then (insert_job_with_deps e 1 j deps s) (\<lambda>s'. Inr (s', j, False))))"

definition MAX_ENQUEUE_ATTEMPTS :: nat where
  "MAX_ENQUEUE_ATTEMPTS = 3"

fun enqueue_unique_loop :: "nat \<Rightarrow> env \<Rightarrow> job \<Rightarrow> string list \<Rightarrow> (job \<times> bool) op" where
  "enqueue_unique_loop 0 e j deps s =
     (s, Inl (Other ''enqueue_unique: unique key contended across retries''))"
| "enqueue_unique_loop (Suc n) e j deps s =
     (case write_transaction (enqueue_unique_tx e j deps) s of
        (s', Inr jb) \<Rightarrow> (s', Inr jb)
      | (s', Inl err) \<Rightarrow>
          if err = Storage UniqueViolation then
            (case active_duplicate j s' of
               Some r \<Rightarrow> (s', Inr (job_of_row r, True))
             | None \<Rightarrow> enqueue_unique_loop n e j deps s')
          else if err = Storage RollbackTransaction then
            (s', Inl (DependencyNotFound ''dependency not found or already dead/cancelled''))
          else (s', Inl err))"

definition enqueue_unique_reporting :: "env \<Rightarrow> new_job \<Rightarrow> (job \<times> bool) op" where
  "enqueue_unique_reporting e nj =
     enqueue_unique_loop MAX_ENQUEUE_ATTEMPTS e (into_job (uuid e 0) (now_millis e) nj)
       (nj_depends_on nj)"

fun enqueue_unique_all :: "env \<Rightarrow> nat \<Rightarrow> (job \<times> string list) list \<Rightarrow> (job \<times> bool) list tx" where
  "enqueue_unique_all e k [] s = Inr (s, [])"
| "enqueue_unique_all e k ((j, deps) # rest) s =
     (case active_duplicate j s of
        Some r \<Rightarrow>
          and_then (enqueue_unique_all e k rest s) (\<lambda>(s', out). Inr (s', (job_of_row r, True) # out))
      | None \<Rightarrow>
          and_then (validate_dependencies deps (namespace j) s) (\<lambda>_.
          and_then (insert_job_with_deps e k j deps s) (\<lambda>s1.
          and_then (enqueue_unique_all e (k + length deps) rest s1) (\<lambda>(s', out).
          Inr (s', (j, False) # out)))))"

fun enqueue_unique_batch_loop ::
  "nat \<Rightarrow> env \<Rightarrow> nat \<Rightarrow> (job \<times> string list) list \<Rightarrow> (job \<times> bool) list op" where
  "enqueue_unique_batch_loop 0 e k prepared s =
     (s, Inl (Other ''enqueue_unique_batch: unique key contended across retries''))"
| "enqueue_unique_batch_loop (Suc n) e k prepared s =
     (case write_transaction (enqueue_unique_all e k prepared) s of
        (s', Inr v) \<Rightarrow> (s', Inr v)
      | (s', Inl err) \<Rightarrow>
          if err = Storage UniqueViolation then enqueue_unique_batch_loop n e k prepared s'
          else if err = Storage RollbackTransaction then
            (s', Inl (DependencyNotFound ''dependency not found or already dead/cancelled''))
          else (s', Inl err))"

definition enqueue_unique_batch_reporting :: "env \<Rightarrow> new_job list \<Rightarrow> (job \<times> bool) list op" where
  "enqueue_unique_batch_reporting e njs =
     enqueue_unique_batch_loop MAX_ENQUEUE_ATTEMPTS e (length njs) (into_jobs e 0 njs)"

section \<open>Debounced enqueue\<close>

record debounce_options =
  window_ms :: millis
  max_wait_ms :: millis
  replace_payload :: bool
  max_pending :: "int option"

definition validated_debounce_key :: "new_job \<Rightarrow> debounce_options \<Rightarrow> queue_error + string" where
  "validated_debounce_key nj opt =
     (let key = (case nj_debounce_key nj of Some k \<Rightarrow> k | None \<Rightarrow> '''')
      in if key = '''' then
           Inl (Config ''enqueue_debounced requires a non-empty debounce_key'')
         else if window_ms opt \<le> 0 then Inl (Config ''debounce window_ms must be positive'')
         else if max_wait_ms opt < window_ms opt then
           Inl (Config ''debounce max_wait_ms must be at least window_ms'')
         else (case max_pending opt of
                 Some cap \<Rightarrow>
                   if cap < 0 then Inl (Config ''debounce max_pending must be non-negative'')
                   else Inr key
               | None \<Rightarrow> Inr key))"

definition DEBOUNCE_CANDIDATE_SCAN :: int where
  "DEBOUNCE_CANDIDATE_SCAN = 8"

definition lock_debounce_candidates :: "string option \<Rightarrow> string \<Rightarrow> db \<Rightarrow> job_row list" where
  "lock_debounce_candidates ns key s =
     sql_limit DEBOUNCE_CANDIDATE_SCAN
       (sort_key (\<lambda>r. (created_at r, jid r))
         (filter (\<lambda>r. row_debounce_key r = Some key \<and> row_status r = status_i32 Pending
                    \<and> namespace r = ns) (jobs s)))"

definition find_debounce_target :: "string option \<Rightarrow> string \<Rightarrow> db \<Rightarrow> job_row option" where
  "find_debounce_target ns key s =
     (let candidates = lock_debounce_candidates ns key s;
          claimed = map cl_job_id
            (filter (\<lambda>c. cl_job_id c \<in> jid ` set candidates) (execution_claims s))
      in find (\<lambda>r. jid r \<notin> set claimed) candidates)"

definition debounce_slide :: "debounce_options \<Rightarrow> job \<Rightarrow> job_row \<Rightarrow> job_row \<Rightarrow> job_row" where
  "debounce_slide opt j pending r =
     (let deadline = min (scheduled_at j) (saturating_add (created_at pending) (max_wait_ms opt))
      in if replace_payload opt then r\<lparr>scheduled_at := deadline, payload := payload j\<rparr>
         else r\<lparr>scheduled_at := deadline\<rparr>)"

definition pending_on_queue :: "string \<Rightarrow> db \<Rightarrow> int" where
  "pending_on_queue q s =
     count_where (\<lambda>r. queue r = q \<and> row_status r = status_i32 Pending) (jobs s)"

definition enqueue_debounced_tx ::
  "env \<Rightarrow> debounce_options \<Rightarrow> string \<Rightarrow> job \<Rightarrow> string list \<Rightarrow> job tx" where
  "enqueue_debounced_tx e opt key j deps s =
     (case find_debounce_target (namespace j) key s of
        Some pending \<Rightarrow>
          (let js' = update_where (\<lambda>r. jid r = jid pending) (debounce_slide opt j pending) (jobs s)
           in (case find (\<lambda>r. jid r = jid pending) js' of
                 Some r \<Rightarrow> Inr (s\<lparr>jobs := js'\<rparr>, job_of_row r)
               | None \<Rightarrow> Inl (Storage NotFound)))
      | None \<Rightarrow>
          and_then (validate_dependencies deps (namespace j) s) (\<lambda>_.
          and_then
            (case max_pending opt of
               Some cap \<Rightarrow>
                 if pending_on_queue (queue j) s + 1 > cap
                 then Inl (QueueFull (queue j) (pending_on_queue (queue j) s) cap) else Inr ()
             | None \<Rightarrow> Inr ()) (\<lambda>_.
          and_then (insert_job_with_deps e 1 j deps s) (\<lambda>s'. Inr (s', j)))))"

definition enqueue_debounced :: "env \<Rightarrow> new_job \<Rightarrow> debounce_options \<Rightarrow> job op" where
  "enqueue_debounced e nj opt s =
     (case validated_debounce_key nj opt of
        Inl err \<Rightarrow> (s, Inl err)
      | Inr key \<Rightarrow>
          (let now = now_millis e;
               j = (into_job (uuid e 0) now nj)
                     \<lparr>created_at := now, scheduled_at := saturating_add now (window_ms opt)\<rparr>
           in map_err dependency_not_found
                (write_transaction (enqueue_debounced_tx e opt key j (nj_depends_on nj)) s)))"

text \<open>\<open>enqueue_batch_dedup\<close> picks the deduplicating batch as soon as one entry has a key.\<close>

definition enqueue_batch_dedup :: "env \<Rightarrow> new_job list \<Rightarrow> job list op" where
  "enqueue_batch_dedup e njs s =
     (if \<exists>nj\<in>set njs. nj_unique_key nj \<noteq> None
      then (case enqueue_unique_batch_reporting e njs s of
              (s', Inl err) \<Rightarrow> (s', Inl err)
            | (s', Inr out) \<Rightarrow> (s', Inr (map fst out)))
      else enqueue_batch e njs s)"

section \<open>Enqueue keeps the invariant\<close>

text \<open>
  \<open>Uuid::now_v7\<close> never hands out an id twice. The primary keys reject a collision within a
  table; the one the tables do not see is a new job under the id of an archived one.
\<close>

definition fresh_ids :: "env \<Rightarrow> db \<Rightarrow> bool" where
  "fresh_ids e s \<longleftrightarrow> (\<forall>k. uuid e k \<notin> archived_ids s)"

lemma fresh_idsD [simp]: "fresh_ids e s \<Longrightarrow> uuid e k \<notin> archived_ids s"
  by (simp add: fresh_ids_def)

lemma fresh_ids_neq [simp]: "fresh_ids e s \<Longrightarrow> x \<in> set (archived_jobs s) \<Longrightarrow> uuid e k \<noteq> jid x"
  "fresh_ids e s \<Longrightarrow> x \<in> set (archived_jobs s) \<Longrightarrow> jid x \<noteq> uuid e k"
  unfolding fresh_ids_def by (metis image_eqI)+

lemma row_ok_new [simp]: "status j = Pending \<Longrightarrow> row_ok (new_job_row a j)"
  by (simp add: row_ok_def)

lemma insert_job_dependencies_frame:
  "insert_job_dependencies e k i ds s = Inr s' \<Longrightarrow> \<exists>d. s' = s\<lparr>job_dependencies := d\<rparr>"
proof (induction ds arbitrary: k s)
  case Nil
  then have "s' = s\<lparr>job_dependencies := job_dependencies s\<rparr>" by simp
  then show ?case by blast
next
  case (Cons d ds)
  from Cons.prems Cons.IH show ?case by (fastforce split: if_splits)
qed

lemma insert_job_dependencies_new:
  "insert_job_dependencies e k i ds s = Inr s' \<Longrightarrow>
     map (\<lambda>d. (dep_job_id d, depends_on_job_id d)) (job_dependencies s')
       = map (\<lambda>d. (dep_job_id d, depends_on_job_id d)) (job_dependencies s) @ map (Pair i) ds"
  by (induction ds arbitrary: k s) (auto split: if_splits)

lemma insert_job_with_deps_Inr:
  assumes "insert_job_with_deps e k j deps s = Inr s'"
  obtains r s1 d where "r = new_job_row (extract_topic_subscription e (job_notes j)) j"
    and "insert_job_row r s = Inr s1" and "s1 = s\<lparr>jobs := jobs s @ [r]\<rparr>"
    and "insert_job_dependencies e k (jid j) deps s1 = Inr s'"
    and "s' = s\<lparr>jobs := jobs s @ [r], job_dependencies := d\<rparr>"
proof -
  let ?r = "new_job_row (extract_topic_subscription e (job_notes j)) j"
  obtain s1 where s1: "insert_job_row ?r s = Inr s1"
    and s': "insert_job_dependencies e k (jid j) deps s1 = Inr s'"
    using assms by (auto simp: insert_job_with_deps_def res_simps)
  have eq: "s1 = s\<lparr>jobs := jobs s @ [?r]\<rparr>" using s1 by (simp add: insert_job_row_Inr)
  obtain d where d: "s' = s1\<lparr>job_dependencies := d\<rparr>"
    using insert_job_dependencies_frame [OF s'] by blast
  show ?thesis by (rule that [OF refl s1 eq s', of d]) (simp add: d eq)
qed

lemma insert_job_with_deps_keeps:
  assumes "insert_job_with_deps e k j deps s = Inr s'" and "db_ok s"
    and "status j = Pending" and "jid j \<notin> archived_ids s"
  shows "db_ok s'" and "archived_jobs s' = archived_jobs s"
proof -
  from assms(1) obtain r s1 d where *: "r = new_job_row (extract_topic_subscription e (job_notes j)) j"
    "insert_job_row r s = Inr s1" "insert_job_dependencies e k (jid j) deps s1 = Inr s'"
    "s' = s\<lparr>jobs := jobs s @ [r], job_dependencies := d\<rparr>" "s1 = s\<lparr>jobs := jobs s @ [r]\<rparr>"
    by (rule insert_job_with_deps_Inr)
  have "db_ok s1"
    by (rule insert_job_row_keeps [OF *(2) assms(2)]) (use assms *(1) in simp_all)
  moreover have "s' = s1\<lparr>job_dependencies := d\<rparr>" using * by simp
  ultimately show "db_ok s'" by simp
  show "archived_jobs s' = archived_jobs s" using *(4) by simp
qed

lemma fst_map_err [simp]: "fst (map_err f x) = fst x"
  by (cases x; cases "snd x") auto

lemma write_transaction_keeps:
  "db_ok s \<Longrightarrow> (\<And>s' a. f s = Inr (s', a) \<Longrightarrow> db_ok s') \<Longrightarrow> db_ok (fst (write_transaction f s))"
  by (auto simp: write_transaction_def split: sum.splits)

lemma enqueue_keeps:
  assumes "db_ok s" and "fresh_ids e s"
  shows "db_ok (fst (enqueue e nj s))"
  unfolding enqueue_def Let_def fst_map_err using assms
  by (intro write_transaction_keeps)
     (auto simp: res_simps elim!: insert_job_with_deps_keeps(1))

lemma insert_job_rows_keeps:
  "insert_job_rows rs s = Inr s' \<Longrightarrow> db_ok s \<Longrightarrow> \<forall>r\<in>set rs. row_ok r \<and> jid r \<notin> archived_ids s \<Longrightarrow>
     db_ok s'"
proof (induction rs arbitrary: s)
  case (Cons r rs)
  then obtain s1 where s1: "insert_job_row r s = Inr s1" "insert_job_rows rs s1 = Inr s'"
    by (auto simp: res_simps)
  have "db_ok s1" using insert_job_row_keeps [OF s1(1) Cons.prems(2)] Cons.prems(3) by simp
  moreover have "archived_jobs s1 = archived_jobs s" using s1(1) by (simp add: insert_job_row_Inr)
  ultimately show ?case using Cons.IH [OF s1(2)] Cons.prems(3) by simp
qed simp

lemma insert_batch_deps_frame:
  "insert_batch_deps e k ps s = Inr s' \<Longrightarrow> \<exists>d. s' = s\<lparr>job_dependencies := d\<rparr>"
proof (induction ps arbitrary: k s)
  case Nil
  then have "s' = s\<lparr>job_dependencies := job_dependencies s\<rparr>" by simp
  then show ?case by blast
next
  case (Cons p ps)
  obtain j ds where "p = (j, ds)" by (cases p)
  with Cons.prems obtain s1 where "insert_job_dependencies e k (jid j) ds s = Inr s1"
    and s1: "insert_batch_deps e (k + length ds) ps s1 = Inr s'"
    by (auto simp: res_simps)
  then obtain d where "s1 = s\<lparr>job_dependencies := d\<rparr>" by (blast dest: insert_job_dependencies_frame)
  with Cons.IH [OF s1] show ?case by auto
qed

lemma into_jobs_members:
  "(j, ds) \<in> set (into_jobs e k njs) \<Longrightarrow> status j = Pending \<and> (\<exists>n. jid j = uuid e n)"
  by (induction njs arbitrary: k) auto

lemma enqueue_batch_keeps:
  assumes "db_ok s" and "fresh_ids e s"
  shows "db_ok (fst (enqueue_batch e njs s))"
proof -
  define rows where "rows = map (\<lambda>j. new_job_row (extract_topic_subscription e (job_notes j)) j)
    (map fst (into_jobs e 0 njs))"
  have rows: "\<forall>r\<in>set rows. row_ok r \<and> jid r \<notin> archived_ids s"
    using assms(2) by (auto simp: rows_def dest!: into_jobs_members)
  have "db_ok s2" if "insert_job_rows rows s = Inr s1" "insert_batch_deps e k ps s1 = Inr s2"
    for s1 s2 k ps
    using insert_job_rows_keeps [OF that(1) assms(1) rows] insert_batch_deps_frame [OF that(2)]
    by auto
  then show ?thesis
    unfolding enqueue_batch_def Let_def fst_map_err rows_def [symmetric] using assms(1)
    by (intro write_transaction_keeps) (auto simp: res_simps)
qed

lemma enqueue_unique_tx_keeps:
  assumes "enqueue_unique_tx e j deps s = Inr (s', jb)" and "db_ok s"
    and "status j = Pending" and "jid j \<notin> archived_ids s"
  shows "db_ok s'"
  using assms by (auto simp: enqueue_unique_tx_def res_simps split: option.splits
      elim: insert_job_with_deps_keeps(1))

lemma enqueue_unique_loop_keeps:
  "db_ok s \<Longrightarrow> status j = Pending \<Longrightarrow> jid j \<notin> archived_ids s \<Longrightarrow>
     db_ok (fst (enqueue_unique_loop n e j deps s))"
proof (induction n)
  case (Suc n)
  then show ?case
    by (cases "enqueue_unique_tx e j deps s")
       (auto simp: res_simps enqueue_unique_tx_keeps split: option.splits)
qed simp

lemma enqueue_unique_reporting_keeps:
  "db_ok s \<Longrightarrow> fresh_ids e s \<Longrightarrow> db_ok (fst (enqueue_unique_reporting e nj s))"
  by (simp add: enqueue_unique_reporting_def enqueue_unique_loop_keeps)

lemma enqueue_unique_all_keeps:
  "enqueue_unique_all e k ps s = Inr (s', out) \<Longrightarrow> db_ok s \<Longrightarrow>
     \<forall>(j, ds)\<in>set ps. status j = Pending \<and> jid j \<notin> archived_ids s \<Longrightarrow> db_ok s'"
proof (induction e k ps s arbitrary: s' out rule: enqueue_unique_all.induct)
  case (2 e k j deps rest s)
  show ?case
  proof (cases "active_duplicate j s")
    case None
    with "2.prems"(1) obtain s1 out' where v: "validate_dependencies deps (namespace j) s = Inr ()"
      and s1: "insert_job_with_deps e k j deps s = Inr s1"
      and all: "enqueue_unique_all e (k + length deps) rest s1 = Inr (s', out')"
      by (auto simp: res_simps)
    have ok: "db_ok s1" "archived_jobs s1 = archived_jobs s"
      using insert_job_with_deps_keeps [OF s1 "2.prems"(2)] "2.prems"(3) by auto
    show ?thesis by (rule "2.IH"(1) [OF None v s1 all ok(1)]) (use "2.prems"(3) ok(2) in auto)
  next
    case (Some r)
    with "2.prems" "2.IH"(2) [OF Some] show ?thesis by (auto simp: res_simps)
  qed
qed simp

lemma enqueue_unique_batch_loop_keeps:
  "db_ok s \<Longrightarrow> \<forall>(j, ds)\<in>set ps. status j = Pending \<and> jid j \<notin> archived_ids s \<Longrightarrow>
     db_ok (fst (enqueue_unique_batch_loop n e k ps s))"
proof (induction n)
  case (Suc n)
  show ?case
  proof (cases "enqueue_unique_all e k ps s")
    case (Inl err)
    with Suc show ?thesis by (simp add: res_simps)
  next
    case (Inr p)
    obtain s' out where "p = (s', out)" by (cases p)
    with Inr Suc.prems show ?thesis by (auto simp: res_simps intro: enqueue_unique_all_keeps)
  qed
qed simp

lemma enqueue_unique_batch_reporting_keeps:
  "db_ok s \<Longrightarrow> fresh_ids e s \<Longrightarrow> db_ok (fst (enqueue_unique_batch_reporting e njs s))"
  unfolding enqueue_unique_batch_reporting_def
  by (rule enqueue_unique_batch_loop_keeps) (auto dest!: into_jobs_members)

lemma debounce_slide_update_ok: "row_update_ok (debounce_slide opt j p) r"
  by (simp add: row_update_ok_def debounce_slide_def Let_def row_ok_def)

lemma enqueue_debounced_keeps:
  assumes "db_ok s" and "fresh_ids e s"
  shows "db_ok (fst (enqueue_debounced e nj opt s))"
proof -
  have "db_ok s'" if "enqueue_debounced_tx e opt key j deps s = Inr (s', a)"
    and "status j = Pending" "jid j \<notin> archived_ids s" for key j deps s' a
    using that assms(1)
    by (auto simp: enqueue_debounced_tx_def Let_def res_simps debounce_slide_update_ok
        split: option.splits if_splits
        intro: update_jobs_keeps elim: insert_job_with_deps_keeps(1))
  then show ?thesis using assms unfolding enqueue_debounced_def Let_def
    by (auto split: sum.splits intro!: write_transaction_keeps)
qed

lemma enqueue_batch_dedup_keeps:
  assumes "db_ok s" and "fresh_ids e s"
  shows "db_ok (fst (enqueue_batch_dedup e njs s))"
  using enqueue_batch_keeps [OF assms, of njs] enqueue_unique_batch_reporting_keeps [OF assms, of njs]
  by (auto simp: enqueue_batch_dedup_def split: prod.splits sum.splits)

lemmas enqueue_all_keep = enqueue_keeps enqueue_batch_keeps enqueue_unique_reporting_keeps
  enqueue_unique_batch_reporting_keeps enqueue_debounced_keeps enqueue_batch_dedup_keeps

end
