(* ===== verification/Job_Dequeue.thy ===== *)
theory Job_Dequeue
  imports Job_Enqueue
begin

text \<open>
  Handing out jobs (\<open>storage/diesel_common/jobs.rs\<close>, the candidate scan in
  \<open>storage/sqlite/jobs.rs\<close>): single and batched dequeue, their exact effect on the
  database, and the dispatch order.
\<close>

section \<open>The candidate scan\<close>

datatype dispatch_order = Fifo | Lifo

definition order_for :: "(string \<rightharpoonup> dispatch_order) \<Rightarrow> string \<Rightarrow> dispatch_order" where
  "order_for orders q = (case orders q of Some d \<Rightarrow> d | None \<Rightarrow> Fifo)"

text \<open>
  \<open>ORDER BY priority DESC, scheduled_at ASC, id ASC\<close> for \<open>Fifo\<close>, and all three
  descending for \<open>Lifo\<close>.
\<close>

fun dispatch_sort :: "dispatch_order \<Rightarrow> job_row list \<Rightarrow> job_row list" where
  "dispatch_sort Fifo t = sort_key (\<lambda>r. (- priority r, scheduled_at r, jid r)) t"
| "dispatch_sort Lifo t = order_desc (\<lambda>r. (priority r, scheduled_at r, jid r)) t"

definition due :: "string \<Rightarrow> millis \<Rightarrow> string option \<Rightarrow> job_row \<Rightarrow> bool" where
  "due q now ns r \<longleftrightarrow> queue r = q \<and> row_status r = status_i32 Pending \<and> scheduled_at r \<le> now
     \<and> namespace r = ns"

definition scan_dequeue_candidates ::
  "string \<Rightarrow> millis \<Rightarrow> string option \<Rightarrow> int \<Rightarrow> dispatch_order \<Rightarrow> db \<Rightarrow> job_row list" where
  "scan_dequeue_candidates q now ns lim order s =
     sql_limit lim (dispatch_sort order (filter (due q now ns) (jobs s)))"

section \<open>Dequeue\<close>

definition EXPIRED_BEFORE_EXECUTION :: string where
  "EXPIRED_BEFORE_EXECUTION = ''expired before execution''"

definition expire_row :: "millis \<Rightarrow> job_row \<Rightarrow> job_row" where
  "expire_row now r = r\<lparr>row_status := status_i32 Cancelled, completed_at := Some now,
     job_error := Some EXPIRED_BEFORE_EXECUTION\<rparr>"

definition archive_expired_candidate :: "string \<Rightarrow> millis \<Rightarrow> job tx" where
  "archive_expired_candidate i now s =
     (case find (\<lambda>r. jid r = i) (jobs s) of
        None \<Rightarrow> Inl (Storage NotFound)
      | Some r \<Rightarrow>
          (let full = expire_row now r
           in and_then (archive_job_row full s) (\<lambda>s'. Inr (s', job_of_row full))))"

definition past_expiry :: "millis \<Rightarrow> job_row \<Rightarrow> bool" where
  "past_expiry now r = (case expires_at r of Some x \<Rightarrow> now > x | None \<Rightarrow> False)"

definition start_row :: "millis \<Rightarrow> job_row \<Rightarrow> job_row" where
  "start_row now r = r\<lparr>row_status := status_i32 Running, started_at := Some now\<rparr>"

text \<open>The guarded claim: the affected-row count and the updated table.\<close>

definition claim_pending :: "millis \<Rightarrow> string \<Rightarrow> db \<Rightarrow> int \<times> db" where
  "claim_pending now i s =
     (let p = (\<lambda>r. jid r = i \<and> row_status r = status_i32 Pending)
      in (count_where p (jobs s), s\<lparr>jobs := update_where p (start_row now) (jobs s)\<rparr>))"

record 'a dequeued =
  claimed :: 'a
  expired :: "job list"

fun dequeue_scan :: "millis \<Rightarrow> job_row list \<Rightarrow> job list \<Rightarrow> job option dequeued tx" where
  "dequeue_scan now [] ex s = Inr (s, \<lparr>claimed = None, expired = ex\<rparr>)"
| "dequeue_scan now (row # rows) ex s =
     (if past_expiry now row then
        and_then (archive_expired_candidate (jid row) now s)
          (\<lambda>(s', j). dequeue_scan now rows (ex @ [j]) s')
      else if row_has_deps row \<and> \<not> deps_satisfied s (jid row) then dequeue_scan now rows ex s
      else
        (let (n, s') = claim_pending now (jid row) s
         in if n = 0 then dequeue_scan now rows ex s'
            else (case find (\<lambda>r. jid r = jid row) (jobs s') of
                    Some r \<Rightarrow> Inr (s', \<lparr>claimed = Some (job_of_row r), expired = ex\<rparr>)
                  | None \<Rightarrow> Inl (Storage NotFound))))"

definition dequeue_ordered_reporting ::
  "string \<Rightarrow> millis \<Rightarrow> string option \<Rightarrow> dispatch_order \<Rightarrow> job option dequeued op" where
  "dequeue_ordered_reporting q now ns order =
     write_transaction (\<lambda>s. dequeue_scan now (scan_dequeue_candidates q now ns 100 order s) [] s)"

text \<open>\<open>dequeue_from_reporting\<close>: the queues in turn until one has a job, each in its own transaction.\<close>

fun dequeue_from_loop ::
  "millis \<Rightarrow> string option \<Rightarrow> (string \<rightharpoonup> dispatch_order) \<Rightarrow> string list \<Rightarrow> job list
     \<Rightarrow> job option dequeued op" where
  "dequeue_from_loop now ns orders [] ex s = (s, Inr \<lparr>claimed = None, expired = ex\<rparr>)"
| "dequeue_from_loop now ns orders (q # qs) ex s =
     (case dequeue_ordered_reporting q now ns (order_for orders q) s of
        (s', Inl err) \<Rightarrow> (s', Inl err)
      | (s', Inr d) \<Rightarrow>
          if claimed d \<noteq> None then (s', Inr \<lparr>claimed = claimed d, expired = ex @ expired d\<rparr>)
          else dequeue_from_loop now ns orders qs (ex @ expired d) s')"

definition dequeue_from_reporting ::
  "string list \<Rightarrow> millis \<Rightarrow> string option \<Rightarrow> (string \<rightharpoonup> dispatch_order) \<Rightarrow> job option dequeued op" where
  "dequeue_from_reporting qs now ns orders = dequeue_from_loop now ns orders qs []"

section \<open>Batched dequeue\<close>

fun dequeue_batch_scan ::
  "millis \<Rightarrow> nat \<Rightarrow> job_row list \<Rightarrow> job list \<Rightarrow> job list \<Rightarrow> job list dequeued tx" where
  "dequeue_batch_scan now mx [] cl ex s = Inr (s, \<lparr>claimed = cl, expired = ex\<rparr>)"
| "dequeue_batch_scan now mx (row # rows) cl ex s =
     (if length cl = mx then Inr (s, \<lparr>claimed = cl, expired = ex\<rparr>)
      else if past_expiry now row then
        and_then (archive_expired_candidate (jid row) now s)
          (\<lambda>(s', j). dequeue_batch_scan now mx rows cl (ex @ [j]) s')
      else if row_has_deps row \<and> \<not> deps_satisfied s (jid row) then
        dequeue_batch_scan now mx rows cl ex s
      else
        (let (n, s') = claim_pending now (jid row) s
         in if n = 0 then dequeue_batch_scan now mx rows cl ex s'
            else (case find (\<lambda>r. jid r = jid row) (jobs s') of
                    Some r \<Rightarrow> dequeue_batch_scan now mx rows (cl @ [job_of_row r]) ex s'
                  | None \<Rightarrow> Inl (Storage NotFound))))"

text \<open>The scan width: four times the budget, at most 400.\<close>

definition batch_scan_limit :: "nat \<Rightarrow> int" where
  "batch_scan_limit mx = int (min (mx * 4) 400)"

definition dequeue_batch_ordered_reporting ::
  "string \<Rightarrow> millis \<Rightarrow> string option \<Rightarrow> nat \<Rightarrow> dispatch_order \<Rightarrow> job list dequeued op" where
  "dequeue_batch_ordered_reporting q now ns mx order s =
     (if mx = 0 then (s, Inr \<lparr>claimed = [], expired = []\<rparr>)
      else write_transaction (\<lambda>s.
             dequeue_batch_scan now mx
               (scan_dequeue_candidates q now ns (batch_scan_limit mx) order s) [] [] s) s)"

fun dequeue_batch_from_loop ::
  "millis \<Rightarrow> string option \<Rightarrow> nat \<Rightarrow> (string \<rightharpoonup> dispatch_order) \<Rightarrow> string list \<Rightarrow> job list dequeued
     \<Rightarrow> job list dequeued op" where
  "dequeue_batch_from_loop now ns mx orders [] out s = (s, Inr out)"
| "dequeue_batch_from_loop now ns mx orders (q # qs) out s =
     (if mx \<le> length (claimed out) then (s, Inr out)
      else (case dequeue_batch_ordered_reporting q now ns (mx - length (claimed out))
                   (order_for orders q) s of
              (s', Inl err) \<Rightarrow> (s', Inl err)
            | (s', Inr b) \<Rightarrow>
                dequeue_batch_from_loop now ns mx orders qs
                  \<lparr>claimed = claimed out @ claimed b, expired = expired out @ expired b\<rparr> s'))"

definition dequeue_batch_from_reporting ::
  "string list \<Rightarrow> millis \<Rightarrow> string option \<Rightarrow> nat \<Rightarrow> (string \<rightharpoonup> dispatch_order)
     \<Rightarrow> job list dequeued op" where
  "dequeue_batch_from_reporting qs now ns mx orders =
     dequeue_batch_from_loop now ns mx orders qs \<lparr>claimed = [], expired = []\<rparr>"

section \<open>Dependencies while a scan runs\<close>

definition incomplete_ids :: "db \<Rightarrow> string set" where
  "incomplete_ids s = jid ` {r \<in> set (jobs s). row_status r \<noteq> status_i32 Complete}
     \<union> jid ` {a \<in> set (archived_jobs s). arch_status a \<noteq> status_i32 Complete}"

lemma deps_satisfied_iff: "deps_satisfied s i \<longleftrightarrow> set (dep_job_ids s i) \<inter> incomplete_ids s = {}"
  by (auto simp: deps_satisfied_def Let_def count_where_add_0 incomplete_ids_def)

lemma deps_satisfied_cong:
  "job_dependencies s' = job_dependencies s \<Longrightarrow> incomplete_ids s' = incomplete_ids s \<Longrightarrow>
     deps_satisfied s' = deps_satisfied s"
  by (simp add: deps_satisfied_iff dep_job_ids_def fun_eq_iff)

text \<open>
  Archiving an unfinished job under a status other than \<open>Complete\<close>, or changing a live
  row without completing it, moves no dependent in or out of readiness.
\<close>

lemma deps_satisfied_archive:
  assumes "r \<in> set (jobs s)" and "row_status r \<noteq> status_i32 Complete"
    and "jid r' = jid r" and "row_status r' \<noteq> status_i32 Complete"
  shows "deps_satisfied (archive_rows [r'] s) = deps_satisfied s"
proof (rule deps_satisfied_cong)
  let ?L = "jid ` {x \<in> set (jobs s). row_status x \<noteq> status_i32 Complete}"
  let ?A = "jid ` {a \<in> set (archived_jobs s). arch_status a \<noteq> status_i32 Complete}"
  have "jid ` {x \<in> set (jobs (archive_rows [r'] s)). row_status x \<noteq> status_i32 Complete} = ?L - {jid r'}"
    by (auto simp: set_delete_where)
  moreover have "jid ` {a \<in> set (archived_jobs (archive_rows [r'] s)). arch_status a \<noteq> status_i32 Complete}
      = insert (jid r') ?A"
  proof -
    have "{a \<in> set (archived_jobs (archive_rows [r'] s)). arch_status a \<noteq> status_i32 Complete}
        = insert (archived_of_row r') {a \<in> set (archived_jobs s). arch_status a \<noteq> status_i32 Complete}"
      using assms(4) by auto
    then show ?thesis by simp
  qed
  moreover have "jid r' \<in> ?L" using assms by auto
  ultimately show "incomplete_ids (archive_rows [r'] s) = incomplete_ids s"
    unfolding incomplete_ids_def by auto
qed simp

lemma deps_satisfied_update:
  assumes "\<And>r. r \<in> set (jobs s) \<Longrightarrow> p r \<Longrightarrow> jid (f r) = jid r
      \<and> row_status r \<noteq> status_i32 Complete \<and> row_status (f r) \<noteq> status_i32 Complete"
  shows "deps_satisfied (s\<lparr>jobs := update_where p f (jobs s)\<rparr>) = deps_satisfied s"
proof (rule deps_satisfied_cong)
  let ?inc = "\<lambda>r. row_status r \<noteq> status_i32 Complete"
  have "map jid (filter ?inc (update_where p f t)) = map jid (filter ?inc t)"
    if "set t \<subseteq> set (jobs s)" for t
    using that assms by (induction t) (auto simp: update_where_def)
  from arg_cong [OF this [OF subset_refl], of set]
  show "incomplete_ids (s\<lparr>jobs := update_where p f (jobs s)\<rparr>) = incomplete_ids s"
    by (simp add: incomplete_ids_def)
qed simp

section \<open>The exact effect of a scan\<close>

definition ready :: "db \<Rightarrow> millis \<Rightarrow> job_row \<Rightarrow> bool" where
  "ready s now r \<longleftrightarrow> \<not> past_expiry now r \<and> (row_has_deps r \<longrightarrow> deps_satisfied s (jid r))"

text \<open>Start the rows \<open>st\<close> and archive the rows \<open>ex\<close> as expired.\<close>

definition run_rows :: "millis \<Rightarrow> job_row list \<Rightarrow> job_row list \<Rightarrow> db \<Rightarrow> db" where
  "run_rows now st ex s =
     (let s1 = archive_rows (map (expire_row now) ex) s
      in s1\<lparr>jobs := update_where (\<lambda>x. jid x \<in> jid ` set st) (start_row now) (jobs s1)\<rparr>)"

text \<open>The part of a candidate list a scan with budget \<open>n\<close> visits.\<close>

fun scan_prefix :: "nat \<Rightarrow> ('r \<Rightarrow> bool) \<Rightarrow> 'r list \<Rightarrow> 'r list" where
  "scan_prefix n p [] = []"
| "scan_prefix n p (x # xs) =
     (if n = 0 then [] else x # scan_prefix (if p x then n - 1 else n) p xs)"

lemma scan_prefix_0 [simp]: "scan_prefix 0 p xs = []"
  by (cases xs) auto

lemma filter_scan_prefix: "filter p (scan_prefix n p xs) = take n (filter p xs)"
  by (induction n p xs rule: scan_prefix.induct) (auto simp: take_Cons')

lemma scan_prefix_subset: "set (scan_prefix n p xs) \<subseteq> set xs"
  by (induction n p xs rule: scan_prefix.induct) auto

lemma scan_prefix_1:
  "scan_prefix (Suc 0) p xs = takeWhile (\<lambda>x. \<not> p x) xs @ (case find p xs of None \<Rightarrow> [] | Some x \<Rightarrow> [x])"
  by (induction xs) (auto split: option.splits)

lemma scan_prefix_take: "\<exists>m. scan_prefix n p xs = take m xs"
proof (induction n p xs rule: scan_prefix.induct)
  case (2 n p x xs)
  show ?case
  proof (cases "n = 0")
    case False
    then obtain m where "scan_prefix (if p x then n - 1 else n) p xs = take m xs" using 2 by blast
    then have "scan_prefix n p (x # xs) = take (Suc m) (x # xs)" using False by simp
    then show ?thesis by blast
  qed (auto intro: exI [of _ 0])
qed simp

lemma distinct_scan_prefix: "distinct (map k xs) \<Longrightarrow> distinct (map k (scan_prefix n p xs))"
  using scan_prefix_take [of n p xs] by (metis distinct_take take_map)

lemma expire_start_sel [simp]:
  "jid (expire_row now r) = jid r" "jid (start_row now r) = jid r"
  "row_status (expire_row now r) = status_i32 Cancelled"
  "row_status (start_row now r) = status_i32 Running"
  "finished (expire_row now r)" "row_update_ok (start_row now) r"
  "started_at (start_row now r) = Some now" "queue (start_row now r) = queue r"
  "namespace (start_row now r) = namespace r"
  by (auto simp: expire_row_def start_row_def finished_def row_update_ok_def row_ok_def)

lemma run_rows_Nil [simp]: "run_rows now [] [] s = s"
  by (simp add: run_rows_def update_where_def)

lemma run_rows_expire:
  "run_rows now st (x # ex) s = run_rows now st ex (archive_rows [expire_row now x] s)"
  unfolding run_rows_def list.map by (subst archive_rows_Cons) (rule refl)

lemma run_rows_start:
  assumes "jid x \<notin> jid ` set st" and "jid x \<notin> jid ` set ex"
  shows "run_rows now (x # st) ex s
       = run_rows now st ex (s\<lparr>jobs := update_where (\<lambda>r. jid r = jid x) (start_row now) (jobs s)\<rparr>)"
proof -
  have "update_where (\<lambda>r. jid r \<in> insert (jid x) (jid ` set st)) (start_row now) t
      = update_where (\<lambda>r. jid r \<in> jid ` set st) (start_row now)
          (update_where (\<lambda>r. jid r = jid x) (start_row now) t)" for t
    using assms(1) by (auto simp: update_where_def)
  then show ?thesis
    by (simp add: run_rows_def Let_def archive_rows_def delete_update_where)
qed

lemma archive_expired_candidate_Inr:
  assumes "db_ok s" and "row \<in> set (jobs s)"
  shows "archive_expired_candidate (jid row) now s
       = Inr (archive_rows [expire_row now row] s, job_of_row (expire_row now row))"
proof -
  have "find (\<lambda>r. jid r = jid row) (jobs s) = Some row"
    using assms by (simp add: db_ok_find_live)
  then show ?thesis using assms
    by (simp add: archive_expired_candidate_def Let_def archive_job_row_Inr)
qed

lemma count_where_key:
  "distinct (map k t) \<Longrightarrow> x \<in> set t \<Longrightarrow> count_where (\<lambda>r. k r = k x \<and> q r) t = (if q x then 1 else 0)"
proof (induction t)
  case (Cons y t)
  have "\<not> (k r = k y \<and> q r)" if "r \<in> set t" for r using that Cons.prems(1) by (metis distinct.simps(2) image_eqI image_set list.simps(9))
  then have "count_where (\<lambda>r. k r = k y \<and> q r) t = 0" by (subst count_where_0) blast
  then show ?case using Cons by (auto simp: count_where_def)
qed simp

lemma update_where_key:
  assumes "distinct (map k t)" and "x \<in> set t" and "q x"
  shows "update_where (\<lambda>r. k r = k x \<and> q r) f t = update_where (\<lambda>r. k r = k x) f t"
  unfolding update_where_def using assms
  by (intro map_cong) (auto dest: distinct_map_key)

lemma claim_pending_eq:
  assumes "db_ok s" and "row \<in> set (jobs s)" and "row_status row = status_i32 Pending"
  shows "claim_pending now (jid row) s
       = (1, s\<lparr>jobs := update_where (\<lambda>r. jid r = jid row) (start_row now) (jobs s)\<rparr>)"
  unfolding claim_pending_def Let_def
  using count_where_key [OF db_ok_distinct(1) [OF assms(1)] assms(2),
      of "\<lambda>r. row_status r = status_i32 Pending"]
    update_where_key [OF db_ok_distinct(1) [OF assms(1)] assms(2),
      of "\<lambda>r. row_status r = status_i32 Pending" "start_row now"] assms(3)
  by simp

lemma claimed_row:
  assumes "db_ok s" and "row \<in> set (jobs s)"
  shows "find (\<lambda>r. jid r = jid row) (update_where (\<lambda>r. jid r = jid row) (start_row now) (jobs s))
       = Some (start_row now row)"
proof -
  have "distinct (map jid (update_where (\<lambda>r. jid r = jid row) (start_row now) (jobs s)))"
    using db_ok_distinct(1) [OF assms(1)] by (simp add: map_update_where)
  then show ?thesis using assms(2) by (auto simp: find_key_Some set_update_where)
qed

text \<open>A single dequeue scans like a batch with a budget of one.\<close>

lemma dequeue_scan_batch:
  "dequeue_scan now rows ex s =
     and_then (dequeue_batch_scan now 1 rows [] ex s) (\<lambda>(s', d).
       Inr (s', \<lparr>claimed = (case claimed d of [] \<Rightarrow> None | j # _ \<Rightarrow> Some j), expired = expired d\<rparr>))"
proof (induction now rows ex s rule: dequeue_scan.induct)
  case (2 now row rows ex s)
  have full: "dequeue_batch_scan now 1 rs [j] x t = Inr (t, \<lparr>claimed = [j], expired = x\<rparr>)" for rs j x t
    by (cases rs) auto
  show ?case
    using 2 full by (cases "archive_expired_candidate (jid row) now s")
      (auto simp: claim_pending_def Let_def split: option.splits)
qed simp

lemma dequeue_batch_scan_eq:
  assumes "db_ok s" and "distinct (map jid rows)" and "set rows \<subseteq> set (jobs s)"
    and "\<forall>r\<in>set rows. row_status r = status_i32 Pending" and "length cl \<le> mx"
  shows "dequeue_batch_scan now mx rows cl ex s =
    (let pre = scan_prefix (mx - length cl) (ready s now) rows;
         st = filter (ready s now) pre; xs = filter (past_expiry now) pre
     in Inr (run_rows now st xs s,
          \<lparr>claimed = cl @ map (\<lambda>r. job_of_row (start_row now r)) st,
           expired = ex @ map (\<lambda>r. job_of_row (expire_row now r)) xs\<rparr>))"
  using assms
proof (induction rows arbitrary: s cl ex)
  case Nil
  then show ?case by simp
next
  case (Cons row rows)
  have row: "row \<in> set (jobs s)" "row_status row = status_i32 Pending"
    and other: "\<And>r. r \<in> set rows \<Longrightarrow> jid r \<noteq> jid row"
    using Cons.prems by (auto simp: image_iff)
  show ?case
  proof (cases "length cl = mx")
    case False
    then have less: "mx - length cl \<noteq> 0" "length cl \<le> mx" using Cons.prems(5) by auto
    consider (exp) "past_expiry now row" | (wait) "\<not> past_expiry now row" "\<not> ready s now row"
      | (run) "\<not> past_expiry now row" "ready s now row" by blast
    then show ?thesis
    proof cases
      case exp
      let ?s = "archive_rows [expire_row now row] s"
      have "deps_satisfied ?s = deps_satisfied s"
        using row by (intro deps_satisfied_archive [of row]) auto
      then have rdy: "ready ?s now = ready s now" by (simp add: ready_def fun_eq_iff)
      have "db_ok ?s" using Cons.prems(1) row db_ok_distinct(3)
        by (intro archive_row_keeps) auto
      moreover have "set rows \<subseteq> set (jobs ?s)"
        using Cons.prems(3) other by (auto simp: set_delete_where)
      moreover have "\<not> ready s now row" using exp by (simp add: ready_def)
      ultimately show ?thesis
        using Cons.IH [of ?s cl "ex @ [job_of_row (expire_row now row)]"] Cons.prems exp False less
        by (simp add: archive_expired_candidate_Inr [OF Cons.prems(1) row(1)] rdy Let_def run_rows_expire)
    next
      case wait
      then show ?thesis using Cons.IH [of s cl ex] Cons.prems False less
        by (simp add: ready_def [of s now row] Let_def)
    next
      case run
      let ?s = "s\<lparr>jobs := update_where (\<lambda>r. jid r = jid row) (start_row now) (jobs s)\<rparr>"
      have "row_status r \<noteq> status_i32 Complete" if "r \<in> set (jobs s)" for r
        using row_ok_status [OF db_ok_live [OF Cons.prems(1) that]] by auto
      then have "deps_satisfied ?s = deps_satisfied s"
        by (intro deps_satisfied_update) auto
      then have rdy: "ready ?s now = ready s now" by (simp add: ready_def fun_eq_iff)
      have "db_ok ?s" using Cons.prems(1) by (intro update_jobs_keeps) auto
      moreover have "set rows \<subseteq> set (jobs ?s)"
        using Cons.prems(3) other by (force simp: set_update_where)
      moreover have "jid row \<notin> jid ` {r \<in> set (scan_prefix n p rows). q r}" for n p q
      proof
        assume "jid row \<in> jid ` {r \<in> set (scan_prefix n p rows). q r}"
        then obtain x where "x \<in> set rows" "jid row = jid x"
          using scan_prefix_subset [of n p rows] by auto
        then show False using other by metis
      qed
      moreover have "length (cl @ [job_of_row (start_row now row)]) \<le> mx" using less False by simp
      moreover have "(row_has_deps row \<and> \<not> deps_satisfied s (jid row)) = False"
        using run by (simp add: ready_def)
      ultimately show ?thesis
        using Cons.IH [of ?s "cl @ [job_of_row (start_row now row)]" ex] Cons.prems run False less
        by (simp add: claim_pending_eq [OF Cons.prems(1) row] claimed_row [OF Cons.prems(1) row(1)]
            rdy Let_def run_rows_start del: de_Morgan_conj)
    qed
  qed (simp add: Let_def)
qed

lemma set_dispatch_sort [simp]: "set (dispatch_sort d t) = set t"
  by (cases d) auto

lemma distinct_dispatch_sort: "distinct (map jid t) \<Longrightarrow> distinct (map jid (dispatch_sort d t))"
  by (cases d) (auto simp: distinct_map)

lemma scan_candidates:
  fixes q :: string and now :: millis and ns :: "string option" and lim :: int and order :: dispatch_order
  assumes "db_ok s"
  defines "rows \<equiv> scan_dequeue_candidates q now ns lim order s"
  shows "set rows \<subseteq> set (jobs s)" and "r \<in> set rows \<Longrightarrow> due q now ns r"
    and "distinct (map jid rows)"
  using assms set_sql_limit [of lim "dispatch_sort order (filter (due q now ns) (jobs s))"]
  by (auto simp: scan_dequeue_candidates_def db_ok_distinct
      intro!: distinct_sql_limit distinct_dispatch_sort distinct_map_filter)

lemma run_rows_keeps:
  assumes "db_ok s" and "distinct (map jid ex)" and "set ex \<subseteq> set (jobs s)"
  shows "db_ok (run_rows now st ex s)"
  unfolding run_rows_def Let_def
proof (intro update_jobs_keeps archive_rows_keeps)
  have "jid ` set ex \<subseteq> live_ids s" using assms(3) by blast
  then show "jid ` set (map (expire_row now) ex) \<inter> archived_ids s = {}"
    using db_ok_distinct(3) [OF assms(1)] by (auto simp: image_image)
qed (use assms in \<open>auto simp: comp_def\<close>)

lemma dequeue_batch_eq:
  assumes "db_ok s" and "mx \<noteq> 0"
  shows "dequeue_batch_ordered_reporting q now ns mx order s =
    (let pre = scan_prefix mx (ready s now)
                 (scan_dequeue_candidates q now ns (batch_scan_limit mx) order s);
         st = filter (ready s now) pre; ex = filter (past_expiry now) pre
     in (run_rows now st ex s,
         Inr \<lparr>claimed = map (\<lambda>r. job_of_row (start_row now r)) st,
              expired = map (\<lambda>r. job_of_row (expire_row now r)) ex\<rparr>))"
proof -
  have "\<forall>r\<in>set (scan_dequeue_candidates q now ns (batch_scan_limit mx) order s).
      row_status r = status_i32 Pending"
    using scan_candidates(2) [OF assms(1)] by (auto simp: due_def)
  then show ?thesis
    using assms(2) dequeue_batch_scan_eq [OF assms(1) scan_candidates(3) [OF assms(1)]
        scan_candidates(1) [OF assms(1)], of q now ns "batch_scan_limit mx" order "[]" mx now "[]"]
    by (simp add: dequeue_batch_ordered_reporting_def write_transaction_Inr Let_def)
qed

lemma scan_prefix_filters:
  fixes q :: string and now :: millis and ns :: "string option" and lim :: int and order :: dispatch_order
    and n :: nat and p :: "job_row \<Rightarrow> bool"
  assumes "db_ok s"
  defines "pre \<equiv> scan_prefix n p (scan_dequeue_candidates q now ns lim order s)"
  shows "set pre \<subseteq> set (jobs s)" and "distinct (map jid pre)" and "r \<in> set pre \<Longrightarrow> due q now ns r"
proof -
  show "distinct (map jid pre)"
    unfolding pre_def by (rule distinct_scan_prefix [OF scan_candidates(3) [OF assms(1)]])
  show "set pre \<subseteq> set (jobs s)" "r \<in> set pre \<Longrightarrow> due q now ns r"
    using scan_prefix_subset [of n p "scan_dequeue_candidates q now ns lim order s"]
      scan_candidates(1,2) [OF assms(1)] unfolding pre_def by blast+
qed

lemma dequeue_batch_keeps:
  assumes "db_ok s"
  shows "db_ok (fst (dequeue_batch_ordered_reporting q now ns mx order s))"
proof (cases "mx = 0")
  case False
  show ?thesis unfolding dequeue_batch_eq [OF assms False] Let_def fst_conv
    by (intro run_rows_keeps [OF assms] distinct_map_filter scan_prefix_filters(2) [OF assms]
        order_trans [OF filter_is_subset] scan_prefix_filters(1) [OF assms])
qed (simp add: assms dequeue_batch_ordered_reporting_def)

lemma dequeue_ordered_eq:
  assumes "db_ok s"
  shows "dequeue_ordered_reporting q now ns order s =
    (let rows = scan_dequeue_candidates q now ns 100 order s;
         w = find (ready s now) rows;
         ex = filter (past_expiry now) (takeWhile (\<lambda>r. \<not> ready s now r) rows)
     in (run_rows now (case w of None \<Rightarrow> [] | Some r \<Rightarrow> [r]) ex s,
         Inr \<lparr>claimed = map_option (\<lambda>r. job_of_row (start_row now r)) w,
              expired = map (\<lambda>r. job_of_row (expire_row now r)) ex\<rparr>))"
proof -
  let ?rows = "scan_dequeue_candidates q now ns 100 order s"
  let ?pre = "scan_prefix 1 (ready s now) ?rows"
  have "\<forall>r\<in>set ?rows. row_status r = status_i32 Pending"
    using scan_candidates(2) [OF assms] by (auto simp: due_def)
  then have scan: "dequeue_batch_scan now 1 ?rows [] [] s =
      Inr (run_rows now (filter (ready s now) ?pre) (filter (past_expiry now) ?pre) s,
        \<lparr>claimed = map (\<lambda>r. job_of_row (start_row now r)) (filter (ready s now) ?pre),
         expired = map (\<lambda>r. job_of_row (expire_row now r)) (filter (past_expiry now) ?pre)\<rparr>)"
    using dequeue_batch_scan_eq [OF assms scan_candidates(3) [OF assms] scan_candidates(1) [OF assms],
        of q now ns 100 order "[]" 1 now "[]"] by (simp add: Let_def)
  have w: "filter (ready s now) ?pre = (case find (ready s now) ?rows of None \<Rightarrow> [] | Some r \<Rightarrow> [r])"
  proof -
    have "filter p (takeWhile (\<lambda>x. \<not> p x) xs) = []" for p and xs :: "job_row list"
      by (auto simp: filter_empty_conv dest: set_takeWhileD)
    then show ?thesis
      by (auto simp: scan_prefix_1 split: option.splits dest: find_SomeD)
  qed
  have ex: "filter (past_expiry now) ?pre
      = filter (past_expiry now) (takeWhile (\<lambda>r. \<not> ready s now r) ?rows)"
    by (auto simp: scan_prefix_1 ready_def [of s now "_"] split: option.splits dest: find_SomeD)
  show ?thesis
    unfolding dequeue_ordered_reporting_def dequeue_scan_batch write_transaction_def scan w ex Let_def
    by (auto split: option.splits)
qed

lemma dequeue_ordered_keeps:
  assumes "db_ok s"
  shows "db_ok (fst (dequeue_ordered_reporting q now ns order s))"
proof -
  let ?rows = "scan_dequeue_candidates q now ns 100 order s"
  have "distinct (map jid (takeWhile p ?rows))" for p
    using scan_candidates(3) [OF assms]
    by (metis append_take_drop_id distinct_take takeWhile_eq_take take_map)
  moreover have "set (takeWhile p ?rows) \<subseteq> set (jobs s)" for p
    using scan_candidates(1) [OF assms] set_takeWhileD by fastforce
  ultimately show ?thesis unfolding dequeue_ordered_eq [OF assms] Let_def fst_conv
    by (intro run_rows_keeps [OF assms] distinct_map_filter order_trans [OF filter_is_subset])
qed

lemma dequeue_from_keeps:
  assumes "db_ok s"
  shows "db_ok (fst (dequeue_from_reporting qs now ns orders s))"
proof -
  have "db_ok (fst (dequeue_from_loop now ns orders qs ex s))" if "db_ok s" for ex
    using that
  proof (induction now ns orders qs ex s rule: dequeue_from_loop.induct)
    case (2 now ns orders q qs ex s)
    show ?case using "2.IH" dequeue_ordered_keeps [OF "2.prems", of q now ns "order_for orders q"]
      by (auto split: prod.splits sum.splits)
  qed simp
  then show ?thesis using assms by (simp add: dequeue_from_reporting_def)
qed

lemma dequeue_batch_from_keeps:
  assumes "db_ok s"
  shows "db_ok (fst (dequeue_batch_from_reporting qs now ns mx orders s))"
proof -
  have "db_ok (fst (dequeue_batch_from_loop now ns mx orders qs out s))" if "db_ok s" for out
    using that
  proof (induction now ns mx orders qs out s rule: dequeue_batch_from_loop.induct)
    case (2 now ns mx orders q qs out s)
    show ?case
      using "2.IH" "2.prems" dequeue_batch_keeps [OF "2.prems", of q now ns "mx - length (claimed out)"
          "order_for orders q"]
      by (auto split: prod.splits sum.splits)
  qed simp
  then show ?thesis using assms by (simp add: dequeue_batch_from_reporting_def)
qed

lemmas dequeue_all_keep = dequeue_ordered_keeps dequeue_from_keeps dequeue_batch_keeps
  dequeue_batch_from_keeps

section \<open>Nothing is handed out twice\<close>

lemma jobs_run_rows:
  "jobs (run_rows now st ex s) = update_where (\<lambda>x. jid x \<in> jid ` set st) (start_row now)
     (delete_where (\<lambda>x. jid x \<in> jid ` set ex) (jobs s))"
  by (simp add: run_rows_def image_image)

lemma in_jobs_run_rows:
  "x \<in> set (jobs (run_rows now st ex s)) \<longleftrightarrow>
     (\<exists>y\<in>set (jobs s). jid y \<notin> jid ` set ex \<and> x = (if jid y \<in> jid ` set st then start_row now y else y))"
  by (auto simp: jobs_run_rows set_update_where set_delete_where)

text \<open>
  A job handed out by a batch was pending and due, is running from then on, and the batch
  holds it once.
\<close>

lemma dequeue_batch_claimed:
  assumes ok: "db_ok s" and d: "dequeue_batch_ordered_reporting q now ns mx order s = (s', Inr d)"
    and nz: "mx \<noteq> 0"
  shows "distinct (map jid (claimed d))" and "length (claimed d) \<le> mx"
    and "j \<in> set (claimed d) \<Longrightarrow> \<exists>r\<in>set (jobs s). due q now ns r \<and> ready s now r
      \<and> j = job_of_row (start_row now r) \<and> start_row now r \<in> set (jobs s')"
    and "x \<in> set (jobs s) \<Longrightarrow> row_status x = status_i32 Running \<Longrightarrow> x \<in> set (jobs s')"
proof -
  let ?pre = "scan_prefix mx (ready s now)
    (scan_dequeue_candidates q now ns (batch_scan_limit mx) order s)"
  let ?st = "filter (ready s now) ?pre" and ?ex = "filter (past_expiry now) ?pre"
  have s': "s' = run_rows now ?st ?ex s" and cl: "claimed d = map (\<lambda>r. job_of_row (start_row now r)) ?st"
    using d unfolding dequeue_batch_eq [OF ok nz] Let_def by auto
  note pre = scan_prefix_filters [OF ok, where n = mx and p = "ready s now" and q = q and now = now
      and ns = ns and lim = "batch_scan_limit mx" and order = order]
  show "distinct (map jid (claimed d))"
    using distinct_map_filter [OF pre(2)] by (simp add: cl comp_def)
  show "length (claimed d) \<le> mx" by (simp add: cl filter_scan_prefix)
  have key: "y = z" if "y \<in> set (jobs s)" "z \<in> set (jobs s)" "jid y = jid z" for y z
    using distinct_map_key [OF db_ok_distinct(1) [OF ok]] that by blast
  { assume "j \<in> set (claimed d)"
    then obtain r where r: "r \<in> set ?pre" "ready s now r" "j = job_of_row (start_row now r)"
      by (auto simp: cl)
    have "jid r \<notin> jid ` set ?ex"
    proof
      assume "jid r \<in> jid ` set ?ex"
      then obtain y where "y \<in> set ?pre" "past_expiry now y" "jid r = jid y" by auto
      then have "r = y" using key [of r y] pre(1) r(1) by blast
      then have "past_expiry now r" using \<open>past_expiry now y\<close> by simp
      then show False using r(2) by (simp add: ready_def)
    qed
    moreover have "jid r \<in> jid ` set ?st" using r by auto
    ultimately have "start_row now r \<in> set (jobs s')"
      unfolding s' in_jobs_run_rows using r(1) pre(1) by (intro bexI [of _ r]) auto
    with r pre show "\<exists>r\<in>set (jobs s). due q now ns r \<and> ready s now r
        \<and> j = job_of_row (start_row now r) \<and> start_row now r \<in> set (jobs s')"
      by blast }
  { assume x: "x \<in> set (jobs s)" "row_status x = status_i32 Running"
    have "jid x \<noteq> jid y" if "y \<in> set ?pre" for y
    proof
      assume "jid x = jid y"
      then have "x = y" using key x(1) pre(1) that by blast
      then show False using pre(3) [OF that] x(2) by (simp add: due_def)
    qed
    then have "jid x \<notin> jid ` set ?ex" "jid x \<notin> jid ` set ?st" by auto
    then show "x \<in> set (jobs s')" unfolding s' in_jobs_run_rows
      using x(1) by (intro bexI [of _ x]) auto }
qed

lemma dequeue_batch_from_loop_claimed:
  assumes "db_ok s" and "dequeue_batch_from_loop now ns mx orders qs out s = (s', Inr d)"
    and "distinct (map jid (claimed out))" and "length (claimed out) \<le> mx"
    and "\<forall>j\<in>set (claimed out). \<exists>r\<in>set (jobs s). j = job_of_row r \<and> row_status r = status_i32 Running"
  shows "distinct (map jid (claimed d)) \<and> length (claimed d) \<le> mx
    \<and> (\<forall>j\<in>set (claimed d). \<exists>r\<in>set (jobs s'). j = job_of_row r \<and> row_status r = status_i32 Running)"
  using assms
proof (induction now ns mx orders qs out s rule: dequeue_batch_from_loop.induct)
  case (2 now ns mx orders q qs out s)
  show ?case
  proof (cases "mx \<le> length (claimed out)")
    case False
    let ?mx = "mx - length (claimed out)"
    obtain s1 b where b: "dequeue_batch_ordered_reporting q now ns ?mx (order_for orders q) s = (s1, Inr b)"
      using "2.prems"(2) False by (auto split: prod.splits sum.splits)
    have nz: "?mx \<noteq> 0" using False by simp
    note bc = dequeue_batch_claimed [OF "2.prems"(1) b nz]
    let ?out = "\<lparr>claimed = claimed out @ claimed b, expired = expired out @ expired b\<rparr>"
    have ok: "db_ok s1" using dequeue_batch_keeps [OF "2.prems"(1)] b by (metis fst_conv)
    have rest: "dequeue_batch_from_loop now ns mx orders qs ?out s1 = (s', Inr d)"
      using "2.prems"(2) False b by simp
    have "jid j \<noteq> jid j'" if j: "j \<in> set (claimed out)" and j': "j' \<in> set (claimed b)" for j j'
    proof
      assume eq: "jid j = jid j'"
      obtain r where r: "r \<in> set (jobs s)" "j = job_of_row r" "row_status r = status_i32 Running"
        using "2.prems"(5) j by blast
      obtain r' where r': "r' \<in> set (jobs s)" "due q now ns r'" "j' = job_of_row (start_row now r')"
        using bc(3) [OF j'] by blast
      have "r = r'" using distinct_map_key [OF db_ok_distinct(1) [OF "2.prems"(1)] r(1) r'(1)] eq r(2) r'(3)
        by simp
      then show False using r(3) r'(2) by (simp add: due_def)
    qed
    then have "set (map jid (claimed out)) \<inter> set (map jid (claimed b)) = {}" by auto
    then have "distinct (map jid (claimed ?out))" using "2.prems"(3) bc(1) by simp
    moreover have "length (claimed ?out) \<le> mx" using bc(2) "2.prems"(4) by simp
    moreover have "\<forall>j\<in>set (claimed ?out). \<exists>r\<in>set (jobs s1). j = job_of_row r \<and> row_status r = status_i32 Running"
    proof
      fix j assume "j \<in> set (claimed ?out)"
      then consider "j \<in> set (claimed out)" | "j \<in> set (claimed b)" by auto
      then show "\<exists>r\<in>set (jobs s1). j = job_of_row r \<and> row_status r = status_i32 Running"
        by cases (use "2.prems"(5) bc(3,4) expire_start_sel(4) in metis)+
    qed
    ultimately show ?thesis using "2.IH" [OF False b [symmetric] refl ok rest] by blast
  qed (use "2.prems" in auto)
qed auto

lemma dequeue_ordered_claimed:
  assumes ok: "db_ok s" and d: "dequeue_ordered_reporting q now ns order s = (s', Inr d)"
  shows "claimed d = Some j \<Longrightarrow> \<exists>r\<in>set (jobs s). due q now ns r \<and> ready s now r
      \<and> j = job_of_row (start_row now r)"
    and "r \<in> set (jobs s') \<Longrightarrow> row_status r = status_i32 Pending \<Longrightarrow>
      r \<in> set (jobs s) \<and> (\<forall>j. claimed d = Some j \<longrightarrow> jid j \<noteq> jid r)"
proof -
  let ?rows = "scan_dequeue_candidates q now ns 100 order s"
  let ?w = "find (ready s now) ?rows"
  let ?st = "case ?w of None \<Rightarrow> [] | Some r \<Rightarrow> [r]"
  obtain ex where s': "s' = run_rows now ?st ex s"
    and cl: "claimed d = map_option (\<lambda>r. job_of_row (start_row now r)) ?w"
    using d unfolding dequeue_ordered_eq [OF ok] Let_def by auto
  show "\<exists>r\<in>set (jobs s). due q now ns r \<and> ready s now r \<and> j = job_of_row (start_row now r)"
    if "claimed d = Some j"
  proof -
    from that obtain w where "w \<in> set ?rows" "ready s now w" "j = job_of_row (start_row now w)"
      by (auto simp: cl dest: find_SomeD)
    then show ?thesis using scan_candidates(1,2) [OF ok] by blast
  qed
  assume r: "r \<in> set (jobs s')" "row_status r = status_i32 Pending"
  then obtain y where "y \<in> set (jobs s)" "r = (if jid y \<in> jid ` set ?st then start_row now y else y)"
    unfolding s' in_jobs_run_rows by blast
  then show "r \<in> set (jobs s) \<and> (\<forall>j. claimed d = Some j \<longrightarrow> jid j \<noteq> jid r)"
    using r(2) by (auto simp: cl split: if_splits)
qed

lemma dequeue_ordered_started:
  assumes ok: "db_ok s" and d: "dequeue_ordered_reporting q now ns order s = (s', Inr d)"
    and j: "claimed d = Some j"
  shows "\<exists>r\<in>set (jobs s). due q now ns r \<and> j = job_of_row (start_row now r) \<and> start_row now r \<in> set (jobs s')"
    and "set (execution_claims s') \<subseteq> set (execution_claims s)"
proof -
  let ?rows = "scan_dequeue_candidates q now ns 100 order s"
  let ?ex = "filter (past_expiry now) (takeWhile (\<lambda>r. \<not> ready s now r) ?rows)"
  obtain w where w: "find (ready s now) ?rows = Some w" "j = job_of_row (start_row now w)"
    and s': "s' = run_rows now [w] ?ex s"
    using d j unfolding dequeue_ordered_eq [OF ok] Let_def by (auto split: option.splits)
  then show "set (execution_claims s') \<subseteq> set (execution_claims s)"
    by (auto simp: run_rows_def Let_def set_delete_where)
  have wr: "w \<in> set ?rows" "ready s now w" using find_SomeD [OF w(1)] by auto
  then have ws: "w \<in> set (jobs s)" "due q now ns w" using scan_candidates [OF ok] by blast+
  have "jid w \<notin> jid ` set ?ex"
  proof
    assume "jid w \<in> jid ` set ?ex"
    then obtain x where x: "x \<in> set ?rows" "past_expiry now x" "jid w = jid x"
      by (auto dest: set_takeWhileD)
    have "w = x" by (rule distinct_map_key [OF scan_candidates(3) [OF ok] wr(1) x(1) x(3)])
    then show False using x(2) wr(2) by (simp add: ready_def)
  qed
  then have "start_row now w \<in> set (jobs s')"
    unfolding s' in_jobs_run_rows using ws(1) by (intro bexI [of _ w]) simp_all
  then show "\<exists>r\<in>set (jobs s). due q now ns r \<and> j = job_of_row (start_row now r) \<and> start_row now r \<in> set (jobs s')"
    using ws w(2) by blast
qed

section \<open>Properties\<close>

text \<open>How \<open>a\<close> ranks against \<open>b\<close> in the dispatch order.\<close>

fun dispatch_before :: "dispatch_order \<Rightarrow> 'a job_cols_scheme \<Rightarrow> 'b job_cols_scheme \<Rightarrow> bool" where
  "dispatch_before Fifo a b \<longleftrightarrow>
     (- priority a, scheduled_at a, jid a) \<le> (- priority b, scheduled_at b, jid b)"
| "dispatch_before Lifo a b \<longleftrightarrow>
     (priority b, scheduled_at b, jid b) \<le> (priority a, scheduled_at a, jid a)"

lemma sorted_dispatch_sort: "sorted_wrt (dispatch_before order) (dispatch_sort order t)"
proof (cases order)
  case Fifo
  let ?k = "\<lambda>r. (- priority r, scheduled_at r, jid r)"
  have "sorted_wrt (\<lambda>a b. ?k a \<le> ?k b) (sort_key ?k t)"
    using sorted_sort_key [of ?k t] unfolding sorted_map .
  then show ?thesis unfolding Fifo dispatch_sort.simps by (rule sorted_wrt_mono_rel [rotated]) simp
next
  case Lifo
  let ?k = "\<lambda>r. (priority r, scheduled_at r, jid r)"
  have "sorted_wrt (\<lambda>a b. ?k a \<le> ?k b) (sort_key ?k (rev t))"
    using sorted_sort_key [of ?k "rev t"] unfolding sorted_map .
  then show ?thesis unfolding Lifo dispatch_sort.simps order_desc_def sorted_wrt_rev
    by (rule sorted_wrt_mono_rel [rotated]) simp
qed

lemma find_sorted_wrt:
  "sorted_wrt R xs \<Longrightarrow> find p xs = Some x \<Longrightarrow> y \<in> set xs \<Longrightarrow> p y \<Longrightarrow> x = y \<or> R x y"
  by (induction xs) (auto split: if_splits)

text \<open>
  C1. The exact result of a dequeue on a well-formed database: of the first 100 due rows
  in dispatch order it starts the first that is neither expired nor waiting for a
  dependency, it archives as cancelled exactly the expired rows it passed on the way, and
  it changes nothing else.
\<close>

theorem dequeue_first_ready:
  assumes "db_ok s"
  shows "dequeue_ordered_reporting q now ns order s =
    (let rows = scan_dequeue_candidates q now ns 100 order s;
         winner = find (ready s now) rows;
         passed = filter (past_expiry now) (takeWhile (\<lambda>r. \<not> ready s now r) rows)
     in (run_rows now (case winner of None \<Rightarrow> [] | Some r \<Rightarrow> [r]) passed s,
         Inr \<lparr>claimed = map_option (\<lambda>r. job_of_row (start_row now r)) winner,
              expired = map (\<lambda>r. job_of_row (expire_row now r)) passed\<rparr>))"
  by (rule dequeue_ordered_eq [OF assms])

definition demo_rows :: "job_row list" where
  "demo_rows = [plain_row ''a'' ''q'' 0 5, (plain_row ''b'' ''q'' 9 1)\<lparr>expires_at := Some 2\<rparr>,
     plain_row ''c'' ''q'' 9 3]"

lemma demo_ok: "db_ok (live_db demo_rows)"
  by (simp add: demo_rows_def db_ok_live_db row_ok_def unique_ok_def unique_indexed_def)

lemma demo_candidates:
  "scan_dequeue_candidates ''q'' 10 None 100 Fifo (live_db demo_rows)
     = [(plain_row ''b'' ''q'' 9 1)\<lparr>expires_at := Some 2\<rparr>, plain_row ''c'' ''q'' 9 3, plain_row ''a'' ''q'' 0 5]"
  by (simp add: demo_rows_def scan_dequeue_candidates_def due_def sql_limit_def)

theorem dequeue_first_ready_witness:
  "db_ok (live_db demo_rows)
   \<and> snd (dequeue_ordered_reporting ''q'' 10 None Fifo (live_db demo_rows))
     = Inr \<lparr>claimed = Some (job_of_row (start_row 10 (plain_row ''c'' ''q'' 9 3))),
            expired = [job_of_row (expire_row 10 ((plain_row ''b'' ''q'' 9 1)\<lparr>expires_at := Some 2\<rparr>))]\<rparr>"
  using demo_ok dequeue_first_ready [OF demo_ok, of "''q''" 10 None Fifo]
  by (simp add: demo_candidates ready_def past_expiry_def)

text \<open>
  C16. Priority and progress: when at most 100 rows of a queue are due and some of them is
  ready, a dequeue hands out a job, and no ready job ranks before it in the dispatch
  order.
\<close>

theorem dequeue_best_ready:
  assumes ok: "db_ok s" and few: "length (filter (due q now ns) (jobs s)) \<le> 100"
    and r: "r \<in> set (jobs s)" "due q now ns r" "ready s now r"
  shows "\<exists>s' d j. dequeue_ordered_reporting q now ns order s = (s', Inr d) \<and> claimed d = Some j
    \<and> jid j \<in> live_ids s'
    \<and> (\<forall>x\<in>set (jobs s). due q now ns x \<longrightarrow> ready s now x \<longrightarrow> dispatch_before order j x)"
proof -
  let ?t = "filter (due q now ns) (jobs s)"
  have len: "length (dispatch_sort order ?t) = length ?t" by (cases order) auto
  have rows: "scan_dequeue_candidates q now ns 100 order s = dispatch_sort order ?t"
    using few len by (simp add: scan_dequeue_candidates_def sql_limit_def)
  obtain w where w: "find (ready s now) (dispatch_sort order ?t) = Some w"
    using r by (cases "find (ready s now) (dispatch_sort order ?t)") (auto simp: find_None_iff)
  let ?j = "job_of_row (start_row now w)"
  have first: "dispatch_before order ?j x" if x: "x \<in> set (jobs s)" "due q now ns x" "ready s now x" for x
  proof -
    have "w = x \<or> dispatch_before order w x"
      using find_sorted_wrt [OF sorted_dispatch_sort w] x by simp
    then show ?thesis by (cases order) (auto simp: start_row_def)
  qed
  let ?ex = "filter (past_expiry now) (takeWhile (\<lambda>r. \<not> ready s now r) (dispatch_sort order ?t))"
  have wj: "w \<in> set (jobs s)" "ready s now w" using find_SomeD [OF w] by auto
  have "jid w \<notin> jid ` set ?ex"
  proof
    assume "jid w \<in> jid ` set ?ex"
    then obtain y where y: "jid w = jid y" "y \<in> set (jobs s)" "\<not> ready s now y"
      by (auto dest!: set_takeWhileD)
    then have "w = y" using distinct_map_key [OF db_ok_distinct(1) [OF ok] wj(1)] by blast
    then show False using y(3) wj(2) by simp
  qed
  then have "start_row now w \<in> set (jobs (run_rows now [w] ?ex s))"
    unfolding in_jobs_run_rows using wj(1) by (intro bexI [of _ w]) auto
  then have "jid ?j \<in> live_ids (run_rows now [w] ?ex s)" by (metis expire_start_sel(2) image_eqI job_of_row_sel(1))
  then show ?thesis using first unfolding dequeue_ordered_eq [OF ok] Let_def rows w by auto
qed

theorem dequeue_best_ready_witness:
  "\<exists>s' d j. dequeue_ordered_reporting ''q'' 10 None Lifo (live_db demo_rows) = (s', Inr d)
     \<and> claimed d = Some j \<and> jid j \<in> live_ids s'
     \<and> (\<forall>x\<in>set demo_rows. due ''q'' 10 None x \<longrightarrow> ready (live_db demo_rows) 10 x \<longrightarrow>
          dispatch_before Lifo j x)"
  using dequeue_best_ready [OF demo_ok, of "''q''" 10 None "plain_row ''a'' ''q'' 0 5" Lifo]
  by (simp add: demo_rows_def due_def ready_def past_expiry_def)

text \<open>
  C2. A job is handed out once: whatever two dequeues follow each other, on any queues,
  namespaces and orders, they never return the same job.
\<close>

theorem dequeue_no_double_handout:
  assumes "db_ok s"
    and "dequeue_ordered_reporting q1 now1 ns1 o1 s = (s1, Inr d1)" and "claimed d1 = Some j1"
    and "dequeue_ordered_reporting q2 now2 ns2 o2 s1 = (s2, Inr d2)" and "claimed d2 = Some j2"
  shows "jid j1 \<noteq> jid j2"
proof -
  have ok1: "db_ok s1" using dequeue_ordered_keeps [OF assms(1)] assms(2) by (metis fst_conv)
  obtain r where r: "r \<in> set (jobs s1)" "row_status r = status_i32 Pending" "jid j2 = jid r"
    using dequeue_ordered_claimed(1) [OF ok1 assms(4,5)] by (auto simp: due_def)
  show ?thesis
    using dequeue_ordered_claimed(2) [OF assms(1,2) r(1,2)] assms(3) r(3) by simp
qed

theorem dequeue_no_double_handout_witness:
  "let s = live_db [plain_row ''a'' ''q'' 0 5, plain_row ''c'' ''q'' 9 3];
       (s1, r1) = dequeue_ordered_reporting ''q'' 10 None Fifo s;
       (s2, r2) = dequeue_ordered_reporting ''q'' 11 None Fifo s1
   in \<exists>d1 d2 j1 j2. r1 = Inr d1 \<and> r2 = Inr d2 \<and> claimed d1 = Some j1 \<and> claimed d2 = Some j2
        \<and> jid j1 \<noteq> jid j2"
proof -
  let ?s = "live_db [plain_row ''a'' ''q'' 0 5, plain_row ''c'' ''q'' 9 3]"
  have ok: "db_ok ?s" by (simp add: db_ok_live_db unique_ok_def)
  let ?x = "dequeue_ordered_reporting ''q'' 10 None Fifo ?s"
  let ?y = "dequeue_ordered_reporting ''q'' 11 None Fifo (fst ?x)"
  have x: "?x = (live_db [plain_row ''a'' ''q'' 0 5, start_row 10 (plain_row ''c'' ''q'' 9 3)],
      Inr \<lparr>claimed = Some (job_of_row (start_row 10 (plain_row ''c'' ''q'' 9 3))), expired = []\<rparr>)"
    by (subst dequeue_ordered_eq [OF ok])
       (simp add: scan_dequeue_candidates_def due_def sql_limit_def ready_def past_expiry_def
          run_rows_def update_where_def delete_where_def Let_def, simp add: live_db_def)
  have ok1: "db_ok (fst ?x)" using dequeue_ordered_keeps [OF ok] .
  have y: "\<exists>s2. ?y = (s2, Inr \<lparr>claimed = Some (job_of_row (start_row 11 (plain_row ''a'' ''q'' 0 5))), expired = []\<rparr>)"
    unfolding dequeue_ordered_eq [OF ok1] unfolding x
    by (simp add: scan_dequeue_candidates_def due_def sql_limit_def ready_def past_expiry_def Let_def)
  show ?thesis
    using dequeue_no_double_handout [OF ok x _ , of _ "''q''" 11 None Fifo] x y
    by (auto simp: Let_def split: prod.splits)
qed

text \<open>
  A batched dequeue over several queues stays within its budget, holds no job twice,
  and every job it returns is a running row of the resulting database.
\<close>

theorem dequeue_batch_from_budget:
  assumes "db_ok s" and "dequeue_batch_from_reporting qs now ns mx orders s = (s', Inr d)"
  shows "length (claimed d) \<le> mx \<and> distinct (map jid (claimed d))
    \<and> (\<forall>j\<in>set (claimed d). \<exists>r\<in>set (jobs s'). j = job_of_row r \<and> row_status r = status_i32 Running)"
  using dequeue_batch_from_loop_claimed [OF assms(1)] assms(2)
  unfolding dequeue_batch_from_reporting_def by fastforce

theorem dequeue_batch_from_budget_witness:
  "\<exists>s' d. dequeue_batch_from_reporting [''q''] 10 None 2 Map.empty (live_db demo_rows) = (s', Inr d)
     \<and> map jid (claimed d) = [''c'', ''a''] \<and> length (claimed d) \<le> 2 \<and> distinct (map jid (claimed d))"
proof -
  have scan: "scan_dequeue_candidates ''q'' 10 None (batch_scan_limit 2) Fifo (live_db demo_rows)
      = [(plain_row ''b'' ''q'' 9 1)\<lparr>expires_at := Some 2\<rparr>, plain_row ''c'' ''q'' 9 3, plain_row ''a'' ''q'' 0 5]"
    by (simp add: demo_rows_def scan_dequeue_candidates_def due_def sql_limit_def batch_scan_limit_def)
  have "\<exists>s' d. dequeue_batch_from_reporting [''q''] 10 None 2 Map.empty (live_db demo_rows) = (s', Inr d)
      \<and> map jid (claimed d) = [''c'', ''a'']"
    by (simp add: dequeue_batch_from_reporting_def order_for_def dequeue_batch_eq [OF demo_ok] scan
        ready_def past_expiry_def Let_def)
  then obtain s' d where d: "dequeue_batch_from_reporting [''q''] 10 None 2 Map.empty (live_db demo_rows) = (s', Inr d)"
    and ids: "map jid (claimed d) = [''c'', ''a'']" by (elim exE conjE)
  show ?thesis
    by (rule exI [of _ s'], rule exI [of _ d]) (use dequeue_batch_from_budget [OF demo_ok d] d ids in simp)
qed

end
