(* ===== verification/Job_Lifecycle.thy ===== *)
theory Job_Lifecycle
  imports Job_Dequeue
begin

text \<open>
  The life of a job after it was handed out (\<open>storage/diesel_common/jobs.rs\<close>): completing,
  failing, retrying, rescheduling, cancelling and cascading a cancel along the
  dependency edges.
\<close>

section \<open>Settling a running job\<close>

text \<open>
  \<open>job_in_namespace\<close>, which is also the optional filter \<open>if let Some(ns) = namespace\<close> of
  the queries: an unscoped caller sees every namespace.
\<close>

definition job_in_namespace :: "string option \<Rightarrow> string option \<Rightarrow> bool" where
  "job_in_namespace row caller = (case caller of None \<Rightarrow> True | Some scope \<Rightarrow> row = Some scope)"

definition find_running :: "string \<Rightarrow> string option \<Rightarrow> db \<Rightarrow> job_row option" where
  "find_running i ns s =
     find (\<lambda>r. jid r = i \<and> row_status r = status_i32 Running \<and> job_in_namespace (namespace r) ns)
       (jobs s)"

definition complete_row :: "millis \<Rightarrow> bytes option \<Rightarrow> job_row \<Rightarrow> job_row" where
  "complete_row now res r =
     r\<lparr>row_status := status_i32 Complete, completed_at := Some now, job_result := res\<rparr>"

definition complete :: "env \<Rightarrow> string \<Rightarrow> bytes option \<Rightarrow> string option \<Rightarrow> unit op" where
  "complete e i res ns = write_transaction (\<lambda>s.
     case find_running i ns s of
       None \<Rightarrow> Inl (JobNotFound i)
     | Some r \<Rightarrow> and_then (archive_job_row (complete_row (now_millis e) res r) s) (\<lambda>s'. Inr (s', ())))"

record job_completion =
  jc_job_id :: string
  jc_result :: "bytes option"
  jc_task_name :: string
  jc_wall_time_ns :: int

definition insert_metric :: "task_metric_row \<Rightarrow> db \<Rightarrow> queue_error + db" where
  "insert_metric m s =
     (if \<exists>x\<in>set (task_metrics s). tm_id x = tm_id m then Inl (Storage UniqueViolation)
      else Inr (s\<lparr>task_metrics := task_metrics s @ [m]\<rparr>))"

fun complete_each :: "env \<Rightarrow> nat \<Rightarrow> string option \<Rightarrow> job_completion list \<Rightarrow> db \<Rightarrow> queue_error + db" where
  "complete_each e k ns [] s = Inr s"
| "complete_each e k ns (c # cs) s =
     (case find_running (jc_job_id c) ns s of
        None \<Rightarrow> Inl (JobNotFound (jc_job_id c))
      | Some r \<Rightarrow>
          and_then (archive_job_row (complete_row (now_millis e) (jc_result c) r) s) (\<lambda>s1.
          and_then (insert_metric
            \<lparr>tm_id = uuid e k, tm_task_name = jc_task_name c, tm_job_id = jc_job_id c,
             tm_wall_time_ns = jc_wall_time_ns c, tm_memory_bytes = 0, tm_succeeded = True,
             tm_recorded_at = now_millis e, tm_namespace = namespace r\<rparr> s1)
            (complete_each e (Suc k) ns cs)))"

definition complete_batch :: "env \<Rightarrow> job_completion list \<Rightarrow> string option \<Rightarrow> unit op" where
  "complete_batch e cs ns s =
     (if cs = [] then (s, Inr ())
      else write_transaction (\<lambda>s. and_then (complete_each e 0 ns cs s) (\<lambda>s'. Inr (s', ()))) s)"

definition fail_row :: "millis \<Rightarrow> string \<Rightarrow> job_row \<Rightarrow> job_row" where
  "fail_row now err r =
     r\<lparr>row_status := status_i32 Failed, completed_at := Some now, job_error := Some err\<rparr>"

definition fail :: "env \<Rightarrow> string \<Rightarrow> string \<Rightarrow> unit op" where
  "fail e i err = write_transaction (\<lambda>s.
     case find_running i None s of
       None \<Rightarrow> Inl (JobNotFound i)
     | Some r \<Rightarrow> and_then (archive_job_row (fail_row (now_millis e) err r) s) (\<lambda>s'. Inr (s', ())))"

section \<open>Back to pending\<close>

definition retry_row :: "millis \<Rightarrow> job_row \<Rightarrow> job_row" where
  "retry_row at r =
     r\<lparr>row_status := status_i32 Pending, scheduled_at := at, retry_count := retry_count r + 1,
       started_at := None, completed_at := None, job_error := None\<rparr>"

definition reschedule_row :: "millis \<Rightarrow> job_row \<Rightarrow> job_row" where
  "reschedule_row at r =
     r\<lparr>row_status := status_i32 Pending, scheduled_at := at, started_at := None,
       completed_at := None, job_error := None\<rparr>"

definition requeue_row :: "millis \<Rightarrow> job_row \<Rightarrow> job_row" where
  "requeue_row now r =
     r\<lparr>row_status := status_i32 Pending, scheduled_at := now, started_at := None,
       completed_at := None, job_error := None, row_cancel_requested := 0\<rparr>"

definition revoke_claim :: "string \<Rightarrow> db \<Rightarrow> db" where
  "revoke_claim i s =
     s\<lparr>execution_claims := delete_where (\<lambda>c. cl_job_id c = i) (execution_claims s)\<rparr>"

definition retry :: "string \<Rightarrow> millis \<Rightarrow> string option \<Rightarrow> unit op" where
  "retry i at ns = write_transaction (\<lambda>s.
     let p = (\<lambda>r. jid r = i \<and> job_in_namespace (namespace r) ns)
     in if count_where p (jobs s) = 0 then Inl (JobNotFound i)
        else Inr (revoke_claim i (s\<lparr>jobs := update_where p (retry_row at) (jobs s)\<rparr>), ()))"

definition reschedule :: "string \<Rightarrow> millis \<Rightarrow> string option \<Rightarrow> unit op" where
  "reschedule i at ns s =
     (let p = (\<lambda>r. jid r = i \<and> job_in_namespace (namespace r) ns)
      in (s\<lparr>jobs := update_where p (reschedule_row at) (jobs s)\<rparr>,
          if count_where p (jobs s) = 0 then Inl (JobNotFound i) else Inr ()))"

definition requeue_stuck :: "string \<Rightarrow> millis \<Rightarrow> bool op" where
  "requeue_stuck i now = write_transaction (\<lambda>s.
     let p = (\<lambda>r. jid r = i \<and> row_status r = status_i32 Running)
     in if count_where p (jobs s) = 0 then Inr (s, False)
        else Inr (revoke_claim i (s\<lparr>jobs := update_where p (requeue_row now) (jobs s)\<rparr>), True))"

definition request_cancel :: "string \<Rightarrow> string option \<Rightarrow> bool op" where
  "request_cancel i ns s =
     (let p = (\<lambda>r. jid r = i \<and> row_status r = status_i32 Running
                 \<and> job_in_namespace (namespace r) ns)
      in (s\<lparr>jobs := update_where p (\<lambda>r. r\<lparr>row_cancel_requested := 1\<rparr>) (jobs s)\<rparr>,
          Inr (count_where p (jobs s) > 0)))"

definition is_cancel_requested :: "string \<Rightarrow> string option \<Rightarrow> db \<Rightarrow> bool" where
  "is_cancel_requested i ns s =
     (case find (\<lambda>r. jid r = i) (jobs s) of
        Some r \<Rightarrow> job_in_namespace (namespace r) ns \<and> row_cancel_requested r \<noteq> 0
      | None \<Rightarrow> False)"

text \<open>The id list in chunks of 500, one query per chunk.\<close>

fun chunks :: "nat \<Rightarrow> 'a list \<Rightarrow> 'a list list" where
  "chunks n [] = []"
| "chunks n (x # xs) = (x # take (n - 1) xs) # chunks n (drop (n - 1) xs)"

definition cancel_requested_among :: "string list \<Rightarrow> string option \<Rightarrow> db \<Rightarrow> string list" where
  "cancel_requested_among ids ns s =
     concat (map (\<lambda>chunk. map jid (filter (\<lambda>r. jid r \<in> set chunk \<and> row_cancel_requested r \<noteq> 0
                                          \<and> job_in_namespace (namespace r) ns) (jobs s)))
       (chunks 500 ids))"

definition update_progress :: "string \<Rightarrow> int \<Rightarrow> string option \<Rightarrow> unit op" where
  "update_progress i pct ns s =
     (if \<not> (0 \<le> pct \<and> pct \<le> 100) then (s, Inl (Other ''progress must be between 0 and 100''))
      else (let p = (\<lambda>r. jid r = i \<and> job_in_namespace (namespace r) ns)
            in (s\<lparr>jobs := update_where p (\<lambda>r. r\<lparr>progress := Some pct\<rparr>) (jobs s)\<rparr>,
                if count_where p (jobs s) = 0 then Inl (JobNotFound i) else Inr ())))"

section \<open>Cancelling\<close>

definition mark_cancelled :: "env \<Rightarrow> string \<Rightarrow> string option \<Rightarrow> unit op" where
  "mark_cancelled e i ns = write_transaction (\<lambda>s.
     case find (\<lambda>r. jid r = i) (jobs s) of
       None \<Rightarrow> Inr (s, ())
     | Some r \<Rightarrow>
         if \<not> job_in_namespace (namespace r) ns then Inr (s, ())
         else and_then
           (archive_job_row (r\<lparr>row_status := status_i32 Cancelled, completed_at := Some (now_millis e),
              job_error := Some ''cancelled by request''\<rparr>) s) (\<lambda>s'. Inr (s', ())))"

text \<open>The breadth-first search over the dependency edges: the inner loop and the outer one.\<close>

fun bfs_push :: "string list \<Rightarrow> string list \<Rightarrow> string set \<Rightarrow> string list \<times> string set" where
  "bfs_push [] q v = (q, v)"
| "bfs_push (d # ds) q v = (if d \<in> v then bfs_push ds q v else bfs_push ds (q @ [d]) (insert d v))"

definition dependents_of :: "db \<Rightarrow> string \<Rightarrow> string list" where
  "dependents_of s i =
     map dep_job_id (filter (\<lambda>d. depends_on_job_id d = i) (job_dependencies s))"

lemma bfs_push_eq:
  assumes "bfs_push ds q v = (q', v')"
  shows "\<exists>new. q' = q @ new \<and> set new = set ds - v \<and> v' = v \<union> set ds \<and> distinct new"
  using assms
proof (induction ds q v rule: bfs_push.induct)
  case (2 d ds q v)
  show ?case
  proof (cases "d \<in> v")
    case True
    then show ?thesis using 2 by (simp add: insert_absorb)
  next
    case False
    then obtain new where "q' = (q @ [d]) @ new" "set new = set ds - insert d v"
      "v' = insert d v \<union> set ds" "distinct new"
      using 2 by (auto simp del: append_assoc)
    then show ?thesis using False by (intro exI [of _ "d # new"]) auto
  qed
qed auto

function bfs_loop :: "db \<Rightarrow> string list \<Rightarrow> string set \<Rightarrow> nat \<Rightarrow> string list" where
  "bfs_loop s q v idx =
     (if idx < length q then
        (let (q', v') = bfs_push (dependents_of s (q ! idx)) q v in bfs_loop s q' v' (Suc idx))
      else q)"
  by pat_completeness auto

termination
proof (relation "measures [\<lambda>(s, q, v, idx). card (dep_job_id ` set (job_dependencies s) - v),
    \<lambda>(s, q, v, idx). length q - idx]", goal_cases)
  case (2 s q v idx x q' v')
  then obtain new where new: "q' = q @ new" "set new = set (dependents_of s (q ! idx)) - v"
    "v' = v \<union> set (dependents_of s (q ! idx))"
    using bfs_push_eq by metis
  let ?D = "dep_job_id ` set (job_dependencies s)"
  have sub: "set (dependents_of s (q ! idx)) \<subseteq> ?D" by (auto simp: dependents_of_def)
  show ?case
  proof (cases "new = []")
    case True
    then have "v' = v" using new by auto
    then show ?thesis using True new 2 by auto
  next
    case False
    then have "?D - v' \<subset> ?D - v" using new sub by (cases new) auto
    then have "card (?D - v') < card (?D - v)" by (intro psubset_card_mono) auto
    then show ?thesis by simp
  qed
qed simp

declare bfs_loop.simps [simp del]

definition DEPENDENCY_CANCELLED :: string where
  "DEPENDENCY_CANCELLED = ''dependency cancelled''"

fun archive_each :: "job_row list \<Rightarrow> db \<Rightarrow> queue_error + db" where
  "archive_each [] s = Inr s"
| "archive_each (r # rs) s = and_then (archive_job_row r s) (archive_each rs)"

definition cancel_row :: "millis \<Rightarrow> string \<Rightarrow> job_row \<Rightarrow> job_row" where
  "cancel_row now msg r =
     r\<lparr>row_status := status_i32 Cancelled, completed_at := Some now, job_error := Some msg\<rparr>"

definition cascade_cancel_reporting ::
  "env \<Rightarrow> string \<Rightarrow> string \<Rightarrow> string option \<Rightarrow> job list op" where
  "cascade_cancel_reporting e root reason ns s =
     (let q = bfs_loop s [root] {root} 0; q = (if q \<noteq> [] then tl q else q)
      in if q = [] then (s, Inr [])
         else (let msg = reason @ '': '' @ root
               in write_transaction (\<lambda>s.
                    let rows = map (cancel_row (now_millis e) msg)
                      (filter (\<lambda>r. jid r \<in> set q \<and> row_status r = status_i32 Pending
                                 \<and> job_in_namespace (namespace r) ns) (jobs s))
                    in and_then (archive_each rows s) (\<lambda>s'. Inr (s', map job_of_row rows))) s))"

definition cancel_job_reporting :: "env \<Rightarrow> string \<Rightarrow> string option \<Rightarrow> (bool \<times> job list) op" where
  "cancel_job_reporting e i ns s =
     (case write_transaction (\<lambda>s.
             case find (\<lambda>r. jid r = i \<and> row_status r = status_i32 Pending) (jobs s) of
               None \<Rightarrow> Inr (s, False)
             | Some r \<Rightarrow>
                 if \<not> job_in_namespace (namespace r) ns then Inr (s, False)
                 else and_then (archive_job_row
                        (r\<lparr>row_status := status_i32 Cancelled, completed_at := Some (now_millis e)\<rparr>) s)
                      (\<lambda>s'. Inr (s', True))) s of
        (s', Inl err) \<Rightarrow> (s', Inl err)
      | (s', Inr False) \<Rightarrow> (s', Inr (False, []))
      | (s', Inr True) \<Rightarrow>
          (case cascade_cancel_reporting e i DEPENDENCY_CANCELLED ns s' of
             (s2, Inl err) \<Rightarrow> (s2, Inl err)
           | (s2, Inr cs) \<Rightarrow> (s2, Inr (True, cs))))"

section \<open>The search visits the transitive dependents\<close>

definition dep_edge :: "db \<Rightarrow> string \<Rightarrow> string \<Rightarrow> bool" where
  "dep_edge s a b \<longleftrightarrow> b \<in> set (dependents_of s a)"

lemma bfs_loop_reaches:
  assumes "v = set q" and "distinct q" and "q = root # rest" and "idx \<le> length q"
    and "\<forall>i<idx. set (dependents_of s (q ! i)) \<subseteq> v" and "\<forall>x\<in>set q. (dep_edge s)\<^sup>*\<^sup>* root x"
  shows "\<exists>rest'. bfs_loop s q v idx = root # rest' \<and> distinct (root # rest')
    \<and> set (root # rest') = {x. (dep_edge s)\<^sup>*\<^sup>* root x}"
  using assms
proof (induction s q v idx arbitrary: rest rule: bfs_loop.induct)
  case (1 s q v idx)
  show ?case
  proof (cases "idx < length q")
    case True
    obtain q' v' where push: "bfs_push (dependents_of s (q ! idx)) q v = (q', v')" by fastforce
    obtain new where new: "q' = q @ new" "set new = set (dependents_of s (q ! idx)) - v"
      "v' = v \<union> set (dependents_of s (q ! idx))" "distinct new"
      using bfs_push_eq [OF push] by blast
    have "\<exists>rest'. bfs_loop s q' v' (Suc idx) = root # rest' \<and> distinct (root # rest')
        \<and> set (root # rest') = {x. (dep_edge s)\<^sup>*\<^sup>* root x}"
    proof (rule "1.IH" [OF True push [symmetric] refl])
      show "v' = set q'" "distinct q'" "q' = root # (rest @ new)" "Suc idx \<le> length q'"
        using new "1.prems" True by auto
      show "\<forall>i<Suc idx. set (dependents_of s (q' ! i)) \<subseteq> v'"
        using new "1.prems"(5) True by (auto simp: less_Suc_eq nth_append)
      have "(dep_edge s)\<^sup>*\<^sup>* root x" if "x \<in> set new" for x
      proof (rule rtranclp.rtrancl_into_rtrancl)
        show "(dep_edge s)\<^sup>*\<^sup>* root (q ! idx)" using "1.prems"(6) True by simp
        show "dep_edge s (q ! idx) x" using that new(2) by (simp add: dep_edge_def)
      qed
      then show "\<forall>x\<in>set q'. (dep_edge s)\<^sup>*\<^sup>* root x" using "1.prems"(6) new(1) by auto
    qed
    then show ?thesis using True push by (subst bfs_loop.simps) simp
  next
    case False
    have closed: "set (dependents_of s x) \<subseteq> set q" if "x \<in> set q" for x
      using that "1.prems"(1,4,5) False by (metis in_set_conv_nth le_antisym not_less)
    have "x \<in> set q" if "(dep_edge s)\<^sup>*\<^sup>* root x" for x
      using that by (induction rule: rtranclp_induct)
        (use "1.prems"(3) closed in \<open>auto simp: dep_edge_def\<close>)
    then have "set q = {x. (dep_edge s)\<^sup>*\<^sup>* root x}" using "1.prems"(6) by auto
    then show ?thesis using False "1.prems"(2,3) by (subst bfs_loop.simps) auto
  qed
qed

text \<open>The rows a cascade from \<open>root\<close> cancels.\<close>

definition cascade_rows :: "string \<Rightarrow> string option \<Rightarrow> db \<Rightarrow> job_row list" where
  "cascade_rows root ns s =
     filter (\<lambda>r. ((dep_edge s)\<^sup>*\<^sup>* root (jid r) \<and> jid r \<noteq> root)
               \<and> row_status r = status_i32 Pending \<and> job_in_namespace (namespace r) ns) (jobs s)"

lemma archive_each_eq:
  "distinct (map jid rs) \<Longrightarrow> jid ` set rs \<inter> archived_ids s = {} \<Longrightarrow>
     archive_each rs s = Inr (archive_rows rs s)"
proof (induction rs arbitrary: s)
  case (Cons r rs)
  have "archive_job_row r s = Inr (archive_rows [r] s)"
    using Cons.prems by (simp add: archive_job_row_eq)
  moreover have "archive_each rs (archive_rows [r] s) = Inr (archive_rows rs (archive_rows [r] s))"
    using Cons.prems by (intro Cons.IH) auto
  ultimately show ?case by (simp add: archive_rows_Cons [symmetric])
qed simp

lemma cancel_row_sel [simp]:
  "jid (cancel_row now msg r) = jid r" "row_status (cancel_row now msg r) = status_i32 Cancelled"
  "finished (cancel_row now msg r)" "namespace (cancel_row now msg r) = namespace r"
  by (simp_all add: cancel_row_def finished_def)

lemma map_jid_cancel [simp]: "map jid (map (cancel_row now msg) rs) = map jid rs"
  by simp

text \<open>Rows taken from the live table can always be archived, one after the other.\<close>

lemma archive_sub:
  assumes "db_ok s" and "set rows \<subseteq> set (jobs s)" and "distinct (map jid rows)" and "\<And>r. jid (f r) = jid r"
  shows "archive_each (map f rows) s = Inr (archive_rows (map f rows) s)"
    and "(\<And>r. finished (f r)) \<Longrightarrow> db_ok (archive_rows (map f rows) s)"
proof -
  have d: "distinct (map jid (map f rows))" using assms(3,4) by (simp add: comp_def)
  have "jid ` set (map f rows) \<subseteq> live_ids s" using assms(2,4) by auto
  then have a: "jid ` set (map f rows) \<inter> archived_ids s = {}"
    using db_ok_distinct(3) [OF assms(1)] by blast
  show "archive_each (map f rows) s = Inr (archive_rows (map f rows) s)"
    by (rule archive_each_eq [OF d a])
  show "db_ok (archive_rows (map f rows) s)" if "\<And>r. finished (f r)"
    using archive_rows_keeps [OF assms(1) d a] that by auto
qed

lemma archive_live:
  assumes "db_ok s" and "rows = filter p (jobs s)" and "\<And>r. jid (f r) = jid r"
  shows "archive_each (map f rows) s = Inr (archive_rows (map f rows) s)"
    and "(\<And>r. finished (f r)) \<Longrightarrow> db_ok (archive_rows (map f rows) s)"
  using archive_sub [OF assms(1), of rows f] assms(2,3)
    distinct_map_filter [OF db_ok_distinct(1) [OF assms(1)], of p] by auto

lemma cascade_cancel_eq:
  assumes "db_ok s"
    and rows_def: "rows = map (cancel_row (now_millis e) (reason @ '': '' @ root)) (cascade_rows root ns s)"
  shows "cascade_cancel_reporting e root reason ns s = (archive_rows rows s, Inr (map job_of_row rows))"
proof -
  obtain rest where rest: "bfs_loop s [root] {root} 0 = root # rest" "distinct (root # rest)"
    "set (root # rest) = {x. (dep_edge s)\<^sup>*\<^sup>* root x}"
    using bfs_loop_reaches [of "{root}" "[root]" root "[]" 0 s] by auto
  have "set rest = set (root # rest) - {root}" using rest(2) by auto
  then have mem: "x \<in> set rest \<longleftrightarrow> (dep_edge s)\<^sup>*\<^sup>* root x \<and> x \<noteq> root" for x
    unfolding rest(3) by auto
  have sel: "filter (\<lambda>r. jid r \<in> set rest \<and> row_status r = status_i32 Pending
      \<and> job_in_namespace (namespace r) ns) (jobs s) = cascade_rows root ns s"
    by (simp add: cascade_rows_def mem)
  have arch: "archive_each rows s = Inr (archive_rows rows s)"
    unfolding rows_def by (rule archive_live [OF assms(1) cascade_rows_def]) simp
  show ?thesis
  proof (cases "rest = []")
    case True
    then have "rows = []" by (simp add: rows_def sel [symmetric])
    then show ?thesis using True rest(1) by (simp add: cascade_cancel_reporting_def)
  next
    case False
    then show ?thesis using rest(1) sel arch
      by (simp add: cascade_cancel_reporting_def write_transaction_def Let_def rows_def)
  qed
qed

lemma cascade_cancel_keeps:
  "db_ok s \<Longrightarrow> db_ok (fst (cascade_cancel_reporting e root reason ns s))"
  by (simp add: cascade_cancel_eq [OF _ refl] archive_live(2) [OF _ cascade_rows_def])

section \<open>What settling a job does\<close>

lemma find_running_SomeD:
  "find_running i ns s = Some r \<Longrightarrow>
     r \<in> set (jobs s) \<and> jid r = i \<and> row_status r = status_i32 Running \<and> job_in_namespace (namespace r) ns"
  by (auto simp: find_running_def dest: find_SomeD)

lemma settle_row_sel [simp]:
  "jid (complete_row now res r) = jid r" "finished (complete_row now res r)"
  "row_status (complete_row now res r) = status_i32 Complete"
  "jid (fail_row now err r) = jid r" "finished (fail_row now err r)"
  "row_status (fail_row now err r) = status_i32 Failed"
  by (simp_all add: complete_row_def fail_row_def finished_def)

text \<open>A live row rewritten to a terminal status can be archived and the invariant is kept.\<close>

lemma archive_settled:
  assumes "db_ok s" and "r \<in> set (jobs s)" and "jid r' = jid r"
  shows "archive_job_row r' s = Inr (archive_rows [r'] s)"
    and "finished r' \<Longrightarrow> db_ok (archive_rows [r'] s)"
proof -
  have "jid r' \<in> live_ids s" using assms by auto
  then show "archive_job_row r' s = Inr (archive_rows [r'] s)"
    by (rule archive_job_row_Inr [OF assms(1)])
  show "db_ok (archive_rows [r'] s)" if "finished r'"
    using archive_row_keeps [OF assms(1) _ that] db_ok_distinct(3) [OF assms(1)] \<open>jid r' \<in> live_ids s\<close>
    by blast
qed

lemma complete_eq:
  assumes "db_ok s"
  shows "complete e i res ns s =
    (case find_running i ns s of
       None \<Rightarrow> (s, Inl (JobNotFound i))
     | Some r \<Rightarrow> (archive_rows [complete_row (now_millis e) res r] s, Inr ()))"
  using archive_settled(1) [OF assms] find_running_SomeD
  by (fastforce simp: complete_def write_transaction_def split: option.splits)

lemma complete_keeps: "db_ok s \<Longrightarrow> db_ok (fst (complete e i res ns s))"
  using archive_settled(2) [of s] find_running_SomeD
  by (fastforce simp: complete_eq split: option.splits)

lemma fail_eq:
  assumes "db_ok s"
  shows "fail e i err s =
    (case find_running i None s of
       None \<Rightarrow> (s, Inl (JobNotFound i))
     | Some r \<Rightarrow> (archive_rows [fail_row (now_millis e) err r] s, Inr ()))"
  using archive_settled(1) [OF assms] find_running_SomeD
  by (fastforce simp: fail_def write_transaction_def split: option.splits)

lemma fail_keeps: "db_ok s \<Longrightarrow> db_ok (fst (fail e i err s))"
  using archive_settled(2) [of s] find_running_SomeD
  by (fastforce simp: fail_eq split: option.splits)

subsection \<open>Batched completion\<close>










lemma complete_each_keeps:
  "complete_each e k ns cs s = Inr s' \<Longrightarrow> db_ok s \<Longrightarrow> db_ok s'"
proof (induction cs arbitrary: k s)
  case (Cons c cs)
  then obtain r s1 s2 where r: "find_running (jc_job_id c) ns s = Some r"
    and s1: "archive_job_row (complete_row (now_millis e) (jc_result c) r) s = Inr s1"
    and s2: "\<exists>m. s2 = s1\<lparr>task_metrics := m\<rparr>" and rest: "complete_each e (Suc k) ns cs s2 = Inr s'"
    by (auto simp: res_simps insert_metric_def split: option.splits if_splits)
  have "db_ok s1" by (rule archive_job_row_keeps [OF Cons.prems(2) s1]) simp
  then have "db_ok s2" using s2 by auto
  then show ?case by (rule Cons.IH [OF rest])
qed simp

lemma complete_batch_keeps: "db_ok s \<Longrightarrow> db_ok (fst (complete_batch e cs ns s))"
  unfolding complete_batch_def
  by (auto simp: res_simps intro!: write_transaction_keeps elim: complete_each_keeps)

section \<open>The other operations keep the invariant\<close>

lemma back_to_pending_ok [simp]:
  "row_update_ok (retry_row at) r" "row_update_ok (reschedule_row at) r"
  "row_update_ok (requeue_row at) r" "row_update_ok (\<lambda>r. r\<lparr>row_cancel_requested := 1\<rparr>) r"
  "0 \<le> pct \<Longrightarrow> pct \<le> 100 \<Longrightarrow> row_update_ok (\<lambda>r. r\<lparr>progress := Some pct\<rparr>) r"
  by (auto simp: row_update_ok_def row_ok_def retry_row_def reschedule_row_def requeue_row_def)

lemma revoke_claim_keeps: "db_ok s \<Longrightarrow> db_ok (revoke_claim i s)"
  unfolding revoke_claim_def by (rule db_ok_delete_claims)

lemma retry_keeps: "db_ok s \<Longrightarrow> db_ok (fst (retry i at ns s))"
  unfolding retry_def Let_def
  by (intro write_transaction_keeps)
     (auto split: if_splits intro!: revoke_claim_keeps update_jobs_keeps)

lemma reschedule_keeps: "db_ok s \<Longrightarrow> db_ok (fst (reschedule i at ns s))"
  unfolding reschedule_def Let_def fst_conv by (intro update_jobs_keeps) auto

lemma requeue_stuck_keeps: "db_ok s \<Longrightarrow> db_ok (fst (requeue_stuck i now s))"
  unfolding requeue_stuck_def Let_def
  by (intro write_transaction_keeps)
     (auto split: if_splits intro!: revoke_claim_keeps update_jobs_keeps)

lemma request_cancel_keeps: "db_ok s \<Longrightarrow> db_ok (fst (request_cancel i ns s))"
  unfolding request_cancel_def Let_def fst_conv by (intro update_jobs_keeps) auto

lemma update_progress_keeps: "db_ok s \<Longrightarrow> db_ok (fst (update_progress i pct ns s))"
  unfolding update_progress_def Let_def by (auto intro!: update_jobs_keeps)

lemma mark_cancelled_eq:
  assumes "db_ok s"
  shows "mark_cancelled e i ns s =
    (case find (\<lambda>r. jid r = i) (jobs s) of
       None \<Rightarrow> (s, Inr ())
     | Some r \<Rightarrow> if \<not> job_in_namespace (namespace r) ns then (s, Inr ())
         else (archive_rows [cancel_row (now_millis e) ''cancelled by request'' r] s, Inr ()))"
proof (cases "find (\<lambda>r. jid r = i) (jobs s)")
  case (Some r)
  then have "r \<in> set (jobs s)" by (auto dest: find_SomeD)
  then show ?thesis using Some archive_settled(1) [OF assms, of r "cancel_row (now_millis e) ''cancelled by request'' r"]
    by (simp add: mark_cancelled_def write_transaction_def cancel_row_def)
qed (simp add: mark_cancelled_def write_transaction_def)

lemma mark_cancelled_keeps: "db_ok s \<Longrightarrow> db_ok (fst (mark_cancelled e i ns s))"
  using archive_settled(2) [of s]
  by (fastforce simp: mark_cancelled_eq split: option.splits dest: find_SomeD)

lemma cancel_job_eq:
  assumes "db_ok s"
  shows "cancel_job_reporting e i ns s =
    (case find (\<lambda>r. jid r = i \<and> row_status r = status_i32 Pending) (jobs s) of
       None \<Rightarrow> (s, Inr (False, []))
     | Some r \<Rightarrow> if \<not> job_in_namespace (namespace r) ns then (s, Inr (False, []))
         else (let r' = r\<lparr>row_status := status_i32 Cancelled, completed_at := Some (now_millis e)\<rparr>;
                   s1 = archive_rows [r'] s;
                   rows = map (cancel_row (now_millis e) (DEPENDENCY_CANCELLED @ '': '' @ i)) (cascade_rows i ns s1)
               in (archive_rows rows s1, Inr (True, map job_of_row rows))))"
proof (cases "find (\<lambda>r. jid r = i \<and> row_status r = status_i32 Pending) (jobs s)")
  case (Some r)
  then have r: "r \<in> set (jobs s)" by (auto dest: find_SomeD)
  let ?r = "r\<lparr>row_status := status_i32 Cancelled, completed_at := Some (now_millis e)\<rparr>"
  have "finished ?r" by (simp add: finished_def)
  then show ?thesis using Some archive_settled [OF assms r, of ?r]
    by (simp add: cancel_job_reporting_def write_transaction_def cascade_cancel_eq [OF _ refl] Let_def)
qed (simp add: cancel_job_reporting_def write_transaction_def)

lemma cancel_job_keeps:
  assumes "db_ok s"
  shows "db_ok (fst (cancel_job_reporting e i ns s))"
proof (cases "find (\<lambda>r. jid r = i \<and> row_status r = status_i32 Pending) (jobs s)")
  case (Some r)
  then have r: "r \<in> set (jobs s)" by (auto dest: find_SomeD)
  let ?r = "r\<lparr>row_status := status_i32 Cancelled, completed_at := Some (now_millis e)\<rparr>"
  have "db_ok (archive_rows [?r] s)"
    by (rule archive_settled(2) [OF assms r]) (simp_all add: finished_def)
  then show ?thesis using Some assms
    by (simp add: cancel_job_eq [OF assms] Let_def archive_live(2) [OF _ cascade_rows_def])
qed (simp add: cancel_job_eq assms)

lemmas lifecycle_all_keep = complete_keeps complete_batch_keeps fail_keeps retry_keeps
  reschedule_keeps requeue_stuck_keeps request_cancel_keeps update_progress_keeps
  mark_cancelled_keeps cascade_cancel_keeps cancel_job_keeps

section \<open>Tenants do not see each other\<close>

text \<open>The jobs, live and archived, outside the namespace \<open>n\<close>.\<close>

definition others :: "string \<Rightarrow> db \<Rightarrow> job_row list \<times> archived_job_row list" where
  "others n s = (filter (\<lambda>r. namespace r \<noteq> Some n) (jobs s),
                 filter (\<lambda>a. namespace a \<noteq> Some n) (archived_jobs s))"

lemma others_update:
  assumes "\<And>r. p r \<Longrightarrow> namespace r = Some n \<and> namespace (f r) = Some n"
  shows "others n (s\<lparr>jobs := update_where p f (jobs s)\<rparr>) = others n s"
  using assms by (auto simp: others_def intro!: filter_update_where)

lemma others_archive:
  assumes "db_ok s" and "\<And>r. r \<in> set rs \<Longrightarrow> namespace r = Some n"
    and "\<And>r. r \<in> set rs \<Longrightarrow> \<exists>x\<in>set (jobs s). jid x = jid r \<and> namespace x = Some n"
  shows "others n (archive_rows rs s) = others n s"
proof -
  have "namespace x = Some n" if x: "x \<in> set (jobs s)" "jid x \<in> jid ` set rs" for x
  proof -
    obtain r where "r \<in> set rs" "jid x = jid r" using x(2) by auto
    then obtain y where "y \<in> set (jobs s)" "jid y = jid x" "namespace y = Some n"
      using assms(3) by metis
    then show ?thesis using distinct_map_key [OF db_ok_distinct(1) [OF assms(1)] _ x(1)] by blast
  qed
  then have "filter (\<lambda>r. namespace r \<noteq> Some n) (delete_where (\<lambda>x. jid x \<in> jid ` set rs) (jobs s))
      = filter (\<lambda>r. namespace r \<noteq> Some n) (jobs s)"
    by (auto simp: delete_where_def intro!: filter_cong)
  moreover have "filter (\<lambda>a. namespace a \<noteq> Some n) (map archived_of_row rs) = []"
    using assms(2) by (auto simp: filter_empty_conv)
  ultimately show ?thesis by (simp add: others_def)
qed

lemma others_archive_one:
  assumes "db_ok s" and "r \<in> set (jobs s)" and "namespace r = Some n"
    and "jid r' = jid r" and "namespace r' = namespace r"
  shows "others n (archive_rows [r'] s) = others n s"
  by (rule others_archive [OF assms(1)]) (use assms in auto)

lemma others_cascade:
  assumes "db_ok s"
  shows "others n (archive_rows (map (cancel_row now msg) (cascade_rows i (Some n) s)) s) = others n s"
  by (rule others_archive [OF assms]) (auto simp: cascade_rows_def job_in_namespace_def)

lemma others_cancel_job:
  assumes "db_ok s"
  shows "others n (fst (cancel_job_reporting e i (Some n) s)) = others n s"
proof (cases "find (\<lambda>r. jid r = i \<and> row_status r = status_i32 Pending) (jobs s)")
  case (Some r)
  then have r: "r \<in> set (jobs s)" by (auto dest: find_SomeD)
  let ?r = "r\<lparr>row_status := status_i32 Cancelled, completed_at := Some (now_millis e)\<rparr>"
  have "db_ok (archive_rows [?r] s)"
    by (rule archive_settled(2) [OF assms r]) (simp_all add: finished_def)
  moreover have "others n (archive_rows [?r] s) = others n s" if "namespace r = Some n"
    by (rule others_archive_one [OF assms r that]) simp_all
  ultimately show ?thesis using Some
    by (simp add: cancel_job_eq [OF assms] Let_def others_cascade job_in_namespace_def)
qed (simp add: cancel_job_eq assms)

lemma others_settle:
  assumes "db_ok s"
  shows "others n (fst (complete e i res (Some n) s)) = others n s"
    and "others n (fst (mark_cancelled e i (Some n) s)) = others n s"
proof -
  show "others n (fst (complete e i res (Some n) s)) = others n s"
  proof (cases "find_running i (Some n) s")
    case (Some r)
    then show ?thesis using find_running_SomeD [OF Some] others_archive_one [OF assms, of r]
      by (simp add: complete_eq [OF assms] job_in_namespace_def complete_row_def)
  qed (simp add: complete_eq [OF assms])
  show "others n (fst (mark_cancelled e i (Some n) s)) = others n s"
  proof (cases "find (\<lambda>r. jid r = i) (jobs s)")
    case (Some r)
    then show ?thesis using find_SomeD [OF Some] others_archive_one [OF assms, of r]
      by (simp add: mark_cancelled_eq [OF assms] job_in_namespace_def)
  qed (simp add: mark_cancelled_eq [OF assms])
qed

lemma others_back_to_pending:
  "others n (fst (retry i at (Some n) s)) = others n s"
  "others n (fst (reschedule i at (Some n) s)) = others n s"
  "others n (fst (request_cancel i (Some n) s)) = others n s"
  "others n (fst (update_progress i pct (Some n) s)) = others n s"
proof -
  have rv: "others n (revoke_claim i t) = others n t" for t by (simp add: others_def revoke_claim_def)
  show "others n (fst (retry i at (Some n) s)) = others n s"
    by (auto simp: retry_def write_transaction_def Let_def rv job_in_namespace_def retry_row_def
        intro!: others_update)
qed (auto simp: reschedule_def request_cancel_def update_progress_def Let_def job_in_namespace_def
      reschedule_row_def intro!: others_update)

section \<open>Properties\<close>

text \<open>
  C10. Cancelling cascades to exactly the transitive dependents: the search terminates, and
  the pending jobs in scope that depend on \<open>root\<close> directly or through other jobs, and no
  other job, are archived as cancelled and reported.
\<close>

theorem cascade_cancels_transitive_dependents:
  assumes "db_ok s"
  shows "cascade_cancel_reporting e root reason ns s =
    (let rows = map (cancel_row (now_millis e) (reason @ '': '' @ root))
       (filter (\<lambda>r. ((dep_edge s)\<^sup>*\<^sup>* root (jid r) \<and> jid r \<noteq> root)
          \<and> row_status r = status_i32 Pending \<and> job_in_namespace (namespace r) ns) (jobs s))
     in (archive_rows rows s, Inr (map job_of_row rows)))"
  unfolding Let_def by (rule cascade_cancel_eq [OF assms]) (simp add: cascade_rows_def)

definition chain_db :: db where
  "chain_db = (live_db [plain_row ''a'' ''q'' 0 5, plain_row ''b'' ''q'' 0 5, plain_row ''c'' ''q'' 0 5])
     \<lparr>job_dependencies := [\<lparr>dep_id = ''1'', dep_job_id = ''b'', depends_on_job_id = ''a''\<rparr>,
        \<lparr>dep_id = ''2'', dep_job_id = ''c'', depends_on_job_id = ''b''\<rparr>]\<rparr>"

lemma chain_ok: "db_ok chain_db"
  by (simp add: chain_db_def db_ok_live_db unique_ok_def)

theorem cascade_cancels_transitive_dependents_witness:
  "db_ok chain_db \<and> (\<exists>s' js. cascade_cancel_reporting (plain_env 9) ''a'' ''r'' None chain_db = (s', Inr js)
     \<and> map jid js = [''b'', ''c''])"
proof -
  have e: "dep_edge chain_db ''a'' ''b''" "dep_edge chain_db ''b'' ''c''"
    by (simp_all add: dep_edge_def dependents_of_def chain_db_def)
  then have "(dep_edge chain_db)\<^sup>*\<^sup>* ''a'' ''b''" "(dep_edge chain_db)\<^sup>*\<^sup>* ''a'' ''c''"
    by (auto intro: rtranclp.rtrancl_into_rtrancl)
  moreover have "jobs chain_db = [plain_row ''a'' ''q'' 0 5, plain_row ''b'' ''q'' 0 5, plain_row ''c'' ''q'' 0 5]"
    by (simp add: chain_db_def)
  ultimately show ?thesis using chain_ok
      cascade_cancels_transitive_dependents [OF chain_ok, of "plain_env 9" "''a''" "''r''" None]
    by (simp add: job_in_namespace_def Let_def)
qed



text \<open>
  C4. A retry puts the job back to pending, due at the given time, with one more retry counted and
  nothing left of the attempt that ended: no start, no completion, no error. The same
  transaction revokes the claim of that attempt and leaves the claims of other jobs, the step
  memo the replay needs, the archive and every other row as they were.
\<close>

theorem retry_revokes_claim:
  assumes "db_ok s" and "r \<in> set (jobs s)" and "job_in_namespace (namespace r) ns"
  shows "\<exists>s'. retry (jid r) at ns s = (s', Inr ())
    \<and> r\<lparr>row_status := status_i32 Pending, scheduled_at := at, retry_count := retry_count r + 1,
         started_at := None, completed_at := None, job_error := None\<rparr> \<in> set (jobs s')
    \<and> map jid (jobs s') = map jid (jobs s)
    \<and> filter (\<lambda>x. jid x \<noteq> jid r) (jobs s') = filter (\<lambda>x. jid x \<noteq> jid r) (jobs s)
    \<and> execution_claims s' = filter (\<lambda>c. cl_job_id c \<noteq> jid r) (execution_claims s)
    \<and> job_steps s' = job_steps s \<and> archived_jobs s' = archived_jobs s"
proof -
  let ?q = "\<lambda>x. job_in_namespace (namespace x) ns"
  define t where "t = update_where (\<lambda>x. jid x = jid r) (retry_row at) (jobs s)"
  have d: "distinct (map jid (jobs s))" using assms(1) by (rule db_ok_distinct(1))
  have "count_where (\<lambda>x. jid x = jid r \<and> ?q x) (jobs s) = 1"
    using count_where_key [OF d assms(2), of ?q] assms(3) by simp
  moreover have "update_where (\<lambda>x. jid x = jid r \<and> ?q x) (retry_row at) (jobs s) = t"
    unfolding t_def by (rule update_where_key [OF d assms(2)]) (rule assms(3))
  ultimately have "retry (jid r) at ns s = (revoke_claim (jid r) (s\<lparr>jobs := t\<rparr>), Inr ())"
    by (simp add: retry_def write_transaction_def Let_def)
  moreover have "retry_row at r \<in> set t"
    unfolding t_def update_where_def set_map by (rule image_eqI [OF _ assms(2)]) simp
  moreover have "map jid t = map jid (jobs s)"
    unfolding t_def update_where_def by (simp add: retry_row_def)
  moreover have "filter (\<lambda>x. jid x \<noteq> jid r) t = filter (\<lambda>x. jid x \<noteq> jid r) (jobs s)"
    unfolding t_def by (rule filter_update_where) (simp add: retry_row_def)
  ultimately show ?thesis
    by (intro exI [of _ "revoke_claim (jid r) (s\<lparr>jobs := t\<rparr>)"])
      (simp add: revoke_claim_def delete_where_def retry_row_def)
qed

theorem retry_revokes_claim_witness:
  "\<exists>s'. retry ''a'' 50 None (live_db [start_row 7 (plain_row ''a'' ''q'' 0 5)]) = (s', Inr ())
     \<and> map (\<lambda>x. (jid x, row_status x, scheduled_at x, retry_count x, started_at x)) (jobs s')
         = [(''a'', status_i32 Pending, 50, 1, None)]"
proof -
  let ?r = "start_row 7 (plain_row ''a'' ''q'' 0 5)"
  have "db_ok (live_db [?r])"
    by (simp add: db_ok_live_db unique_ok_def row_ok_def start_row_def unique_indexed_def)
  moreover have j: "jid ?r = ''a''" "retry_count ?r = 0" by (simp_all add: start_row_def)
  ultimately obtain s' where s': "retry ''a'' 50 None (live_db [?r]) = (s', Inr ())" "map jid (jobs s') = [''a'']"
    and row: "?r\<lparr>row_status := status_i32 Pending, scheduled_at := 50, retry_count := retry_count ?r + 1,
      started_at := None, completed_at := None, job_error := None\<rparr> \<in> set (jobs s')"
    using retry_revokes_claim [of "live_db [?r]" ?r None 50] by (auto simp: job_in_namespace_def)
  then obtain x where "jobs s' = [x]" by auto
  then show ?thesis using s' row j by auto
qed

text \<open>
  C18. Tenant isolation: an operation scoped to the namespace \<open>n\<close> changes no live or archived
  job outside \<open>n\<close>, whatever job id it is called with. For the cancel this includes the
  cascade.
\<close>

theorem tenant_isolation:
  assumes "db_ok s"
  shows "others n (fst (complete e i res (Some n) s)) = others n s
    \<and> others n (fst (retry i at (Some n) s)) = others n s
    \<and> others n (fst (reschedule i at (Some n) s)) = others n s
    \<and> others n (fst (request_cancel i (Some n) s)) = others n s
    \<and> others n (fst (update_progress i pct (Some n) s)) = others n s
    \<and> others n (fst (mark_cancelled e i (Some n) s)) = others n s
    \<and> others n (fst (cancel_job_reporting e i (Some n) s)) = others n s"
  using others_settle [OF assms] others_back_to_pending others_cancel_job [OF assms] by simp

theorem tenant_isolation_witness:
  "others ''n'' (fst (cancel_job_reporting (plain_env 9) ''a'' (Some ''n'') chain_db)) = others ''n'' chain_db"
  using tenant_isolation [OF chain_ok, of "''n''" "plain_env 9" "''a''"] by blast

end
