(* ===== verification/Job_Query.thy ===== *)
theory Job_Query
  imports Job_Lifecycle
begin

text \<open>
  Reading jobs (\<open>storage/diesel_common/jobs.rs\<close>): lookups, statistics, the filtered
  listings by offset and by keyset, the reapers, and the error log. SQL's \<open>LIKE\<close> belongs
  to the database engine and is the argument \<open>like\<close>, applied to the pattern and the
  column value. A Rust \<open>HashMap\<close> is a map, and values collected from one are a set.
\<close>

section \<open>Lookups\<close>

definition get_job :: "string \<Rightarrow> string option \<Rightarrow> db \<Rightarrow> job option" where
  "get_job i ns s =
     (case find (\<lambda>r. jid r = i) (jobs s) of
        Some r \<Rightarrow> if \<not> job_in_namespace (namespace r) ns then None else Some (job_of_row r)
      | None \<Rightarrow>
          (case find (\<lambda>a. jid a = i) (archived_jobs s) of
             Some a \<Rightarrow> if job_in_namespace (namespace a) ns then Some (job_of_archived a) else None
           | None \<Rightarrow> None))"

definition DELETE_ID_CHUNK :: nat where
  "DELETE_ID_CHUNK = 450"

definition insert_found :: "job list \<Rightarrow> (string \<rightharpoonup> job) \<Rightarrow> (string \<rightharpoonup> job)" where
  "insert_found js found = foldl (\<lambda>m j. m(jid j \<mapsto> j)) found js"

fun collect_found :: "string list list \<Rightarrow> db \<Rightarrow> (string \<rightharpoonup> job) \<Rightarrow> (string \<rightharpoonup> job)" where
  "collect_found [] s found = found"
| "collect_found (chunk # rest) s found =
     collect_found rest s
       (insert_found (map from_narrow_archived (filter (\<lambda>a. jid a \<in> set chunk) (archived_jobs s)))
         (insert_found (map (\<lambda>r. from_narrow r [] None) (filter (\<lambda>r. jid r \<in> set chunk) (jobs s)))
           found))"

definition get_jobs_by_ids :: "string list \<Rightarrow> string option \<Rightarrow> db \<Rightarrow> job set" where
  "get_jobs_by_ids ids ns s =
     {j \<in> ran (collect_found (chunks DELETE_ID_CHUNK ids) s Map.empty). job_in_namespace (namespace j) ns}"

definition get_dependencies :: "string \<Rightarrow> string option \<Rightarrow> db \<Rightarrow> string list" where
  "get_dependencies i ns s =
     (if ns \<noteq> None \<and> get_job i ns s = None then [] else dep_job_ids s i)"

definition get_dependents :: "string \<Rightarrow> string option \<Rightarrow> db \<Rightarrow> string list" where
  "get_dependents i ns s =
     (if ns \<noteq> None \<and> get_job i ns s = None then [] else dependents_of s i)"

section \<open>Statistics\<close>

record queue_stats =
  qs_pending :: int
  qs_running :: int
  qs_completed :: int
  qs_failed :: int
  qs_dead :: int
  qs_cancelled :: int

definition default_stats :: queue_stats where
  "default_stats = \<lparr>qs_pending = 0, qs_running = 0, qs_completed = 0, qs_failed = 0, qs_dead = 0,
     qs_cancelled = 0\<rparr>"

definition set_status_count :: "queue_stats \<Rightarrow> int \<Rightarrow> int \<Rightarrow> queue_stats" where
  "set_status_count x v c =
     (case from_i32 v of
        Some Pending \<Rightarrow> x\<lparr>qs_pending := c\<rparr>
      | Some Running \<Rightarrow> x\<lparr>qs_running := c\<rparr>
      | Some Complete \<Rightarrow> x\<lparr>qs_completed := c\<rparr>
      | Some Failed \<Rightarrow> x\<lparr>qs_failed := c\<rparr>
      | Some Dead \<Rightarrow> x\<lparr>qs_dead := c\<rparr>
      | Some Cancelled \<Rightarrow> x\<lparr>qs_cancelled := c\<rparr>
      | None \<Rightarrow> x)"

fun stats_add :: "queue_stats \<Rightarrow> job_status \<Rightarrow> int \<Rightarrow> queue_stats" where
  "stats_add x Pending c = x\<lparr>qs_pending := qs_pending x + c\<rparr>"
| "stats_add x Running c = x\<lparr>qs_running := qs_running x + c\<rparr>"
| "stats_add x Complete c = x\<lparr>qs_completed := qs_completed x + c\<rparr>"
| "stats_add x Failed c = x\<lparr>qs_failed := qs_failed x + c\<rparr>"
| "stats_add x Dead c = x\<lparr>qs_dead := qs_dead x + c\<rparr>"
| "stats_add x Cancelled c = x\<lparr>qs_cancelled := qs_cancelled x + c\<rparr>"

fun apply_status_count :: "queue_stats \<Rightarrow> (int \<times> int) list \<Rightarrow> queue_stats" where
  "apply_status_count x [] = x"
| "apply_status_count x ((v, c) # rows) = apply_status_count (set_status_count x v c) rows"

definition in_scope :: "string option \<Rightarrow> 'a job_cols_scheme \<Rightarrow> bool" where
  "in_scope ns r = job_in_namespace (namespace r) ns"

definition stats :: "string option \<Rightarrow> db \<Rightarrow> queue_stats" where
  "stats ns s =
     apply_status_count
       (apply_status_count default_stats (group_count row_status (filter (in_scope ns) (jobs s))))
       (group_count arch_status (filter (in_scope ns) (archived_jobs s)))"

definition stats_by_queue :: "string \<Rightarrow> string option \<Rightarrow> db \<Rightarrow> queue_stats" where
  "stats_by_queue q ns s =
     apply_status_count
       (apply_status_count default_stats
         (group_count row_status (filter (\<lambda>r. queue r = q \<and> in_scope ns r) (jobs s))))
       (group_count arch_status (filter (\<lambda>r. queue r = q \<and> in_scope ns r) (archived_jobs s)))"

text \<open>The fold over \<open>(queue, status, count)\<close> rows with \<open>entry(queue).or_default()\<close>.\<close>

fun fold_queue_rows ::
  "(queue_stats \<Rightarrow> int \<Rightarrow> int \<Rightarrow> queue_stats) \<Rightarrow> (string \<rightharpoonup> queue_stats)
     \<Rightarrow> ((string \<times> int) \<times> int) list \<Rightarrow> (string \<rightharpoonup> queue_stats)" where
  "fold_queue_rows upd m [] = m"
| "fold_queue_rows upd m (((q, v), c) # rows) =
     fold_queue_rows upd
       (m(q \<mapsto> upd (case m q of Some x \<Rightarrow> x | None \<Rightarrow> default_stats) v c)) rows"

definition stats_all_queues :: "string option \<Rightarrow> db \<Rightarrow> (string \<rightharpoonup> queue_stats)" where
  "stats_all_queues ns s =
     fold_queue_rows set_status_count Map.empty
       (group_count (\<lambda>r. (queue r, row_status r)) (filter (in_scope ns) (jobs s))
        @ group_count (\<lambda>r. (queue r, arch_status r)) (filter (in_scope ns) (archived_jobs s)))"

definition terminal_codes :: "int list" where
  "terminal_codes = [status_i32 Complete, status_i32 Failed, status_i32 Dead, status_i32 Cancelled]"

definition completed_since :: "millis \<Rightarrow> 'a job_cols_scheme \<Rightarrow> bool" where
  "completed_since t r = (case completed_at r of Some x \<Rightarrow> x \<ge> t | None \<Rightarrow> False)"

text \<open>A row with an unknown status code is skipped before its queue gets an entry.\<close>

fun fold_throughput ::
  "(string \<rightharpoonup> queue_stats) \<Rightarrow> ((string \<times> int) \<times> int) list \<Rightarrow> (string \<rightharpoonup> queue_stats)" where
  "fold_throughput m [] = m"
| "fold_throughput m (((q, v), c) # rows) =
     (case from_i32 v of
        None \<Rightarrow> fold_throughput m rows
      | Some st \<Rightarrow>
          fold_throughput
            (m(q \<mapsto> stats_add (case m q of Some x \<Rightarrow> x | None \<Rightarrow> default_stats) st c)) rows)"

definition queue_throughput :: "millis \<Rightarrow> string option \<Rightarrow> db \<Rightarrow> (string \<rightharpoonup> queue_stats)" where
  "queue_throughput since ns s =
     fold_throughput Map.empty
       (group_count (\<lambda>r. (queue r, row_status r))
          (filter (\<lambda>r. completed_since since r \<and> row_status r \<in> set terminal_codes \<and> in_scope ns r) (jobs s))
        @ group_count (\<lambda>r. (queue r, arch_status r))
          (filter (\<lambda>r. completed_since since r \<and> arch_status r \<in> set terminal_codes \<and> in_scope ns r)
             (archived_jobs s)))"

section \<open>Counters\<close>

definition count_running_by_task :: "string \<Rightarrow> string option \<Rightarrow> db \<Rightarrow> int" where
  "count_running_by_task t ns s =
     count_where (\<lambda>r. task_name r = t \<and> row_status r = status_i32 Running \<and> in_scope ns r) (jobs s)"

definition count_by_namespace :: "string option \<Rightarrow> job_status \<Rightarrow> db \<Rightarrow> int" where
  "count_by_namespace ns st s =
     count_where (\<lambda>r. row_status r = status_i32 st \<and> namespace r = ns) (jobs s)"

definition count_pending_by_queue :: "string \<Rightarrow> db \<Rightarrow> int" where
  "count_pending_by_queue q s =
     count_where (\<lambda>r. queue r = q \<and> row_status r = status_i32 Pending) (jobs s)"

definition live_counts :: "string option \<Rightarrow> string option \<Rightarrow> db \<Rightarrow> int \<times> int" where
  "live_counts q ns s =
     (let cnt = (\<lambda>st. count_where (\<lambda>r. row_status r = status_i32 st
                   \<and> (case q of Some x \<Rightarrow> queue r = x | None \<Rightarrow> True) \<and> in_scope ns r) (jobs s))
      in (cnt Pending, cnt Running))"

section \<open>Listings\<close>

record job_filter =
  fl_status :: "int option"
  fl_queue :: "string option"
  fl_task :: "string option"
  fl_metadata_like :: "string option"
  fl_error_like :: "string option"
  fl_created_after :: "millis option"
  fl_created_before :: "millis option"
  fl_namespace :: "string option"

definition opt_filter :: "'v option \<Rightarrow> ('v \<Rightarrow> bool) \<Rightarrow> bool" where
  "opt_filter x p = (case x of Some v \<Rightarrow> p v | None \<Rightarrow> True)"

definition column_like :: "(string \<Rightarrow> string \<Rightarrow> bool) \<Rightarrow> string option \<Rightarrow> string \<Rightarrow> bool" where
  "column_like like col m = (case col of Some v \<Rightarrow> like (''%'' @ m @ ''%'') v | None \<Rightarrow> False)"

definition matches ::
  "(string \<Rightarrow> string \<Rightarrow> bool) \<Rightarrow> job_filter \<Rightarrow> int \<Rightarrow> 'a job_cols_scheme \<Rightarrow> bool" where
  "matches like f st r \<longleftrightarrow>
     opt_filter (fl_status f) (\<lambda>x. st = x)
     \<and> opt_filter (fl_queue f) (\<lambda>q. queue r = q)
     \<and> opt_filter (fl_task f) (\<lambda>t. task_name r = t)
     \<and> opt_filter (fl_metadata_like f) (column_like like (metadata r))
     \<and> opt_filter (fl_error_like f) (column_like like (job_error r))
     \<and> opt_filter (fl_created_after f) (\<lambda>t. created_at r \<ge> t)
     \<and> opt_filter (fl_created_before f) (\<lambda>t. created_at r \<le> t)
     \<and> opt_filter (fl_namespace f) (\<lambda>n. namespace r = Some n)"

definition list_live_filtered ::
  "(string \<Rightarrow> string \<Rightarrow> bool) \<Rightarrow> job_filter \<Rightarrow> int \<Rightarrow> int \<Rightarrow> db \<Rightarrow> job list" where
  "list_live_filtered like f lim off s =
     map (\<lambda>r. from_narrow r [] None)
       (sql_limit lim (sql_offset off
         (order_desc created_at (filter (\<lambda>r. matches like f (row_status r) r) (jobs s)))))"

definition list_archived_filtered ::
  "(string \<Rightarrow> string \<Rightarrow> bool) \<Rightarrow> job_filter \<Rightarrow> int \<Rightarrow> int \<Rightarrow> db \<Rightarrow> job list" where
  "list_archived_filtered like f lim off s =
     map from_narrow_archived
       (sql_limit lim (sql_offset off
         (order_desc created_at (filter (\<lambda>a. matches like f (arch_status a) a) (archived_jobs s)))))"

definition list_jobs_filtered ::
  "(string \<Rightarrow> string \<Rightarrow> bool) \<Rightarrow> job_filter \<Rightarrow> int \<Rightarrow> int \<Rightarrow> db \<Rightarrow> job list" where
  "list_jobs_filtered like f lim off s =
     (case fl_status f of
        Some st \<Rightarrow> if is_terminal_status st then list_archived_filtered like f lim off s
                   else list_live_filtered like f lim off s
      | None \<Rightarrow>
          (let tk = max (saturating_add lim off) 0;
               merged = order_desc created_at
                 (list_live_filtered like f tk 0 s @ list_archived_filtered like f tk 0 s);
               start = min (nat (max off 0)) (length merged);
               fin = min (start + nat (max lim 0)) (length merged)
           in take (fin - start) (drop start merged)))"

text \<open>The cursor bound \<open>created_at < c OR (created_at = c AND id < i)\<close>.\<close>

definition past_cursor :: "(millis \<times> string) option \<Rightarrow> 'a job_cols_scheme \<Rightarrow> bool" where
  "past_cursor c r =
     (case c of Some (t, i) \<Rightarrow> created_at r < t \<or> created_at r = t \<and> jid r < i | None \<Rightarrow> True)"

definition list_live_filtered_after ::
  "(string \<Rightarrow> string \<Rightarrow> bool) \<Rightarrow> job_filter \<Rightarrow> int \<Rightarrow> (millis \<times> string) option \<Rightarrow> db \<Rightarrow> job list" where
  "list_live_filtered_after like f lim c s =
     map (\<lambda>r. from_narrow r [] None)
       (sql_limit lim (order_desc (\<lambda>r. (created_at r, jid r))
         (filter (\<lambda>r. matches like f (row_status r) r \<and> past_cursor c r) (jobs s))))"

definition list_archived_filtered_after ::
  "(string \<Rightarrow> string \<Rightarrow> bool) \<Rightarrow> job_filter \<Rightarrow> int \<Rightarrow> (millis \<times> string) option \<Rightarrow> db \<Rightarrow> job list" where
  "list_archived_filtered_after like f lim c s =
     map from_narrow_archived
       (sql_limit lim (order_desc (\<lambda>r. (created_at r, jid r))
         (filter (\<lambda>a. matches like f (arch_status a) a \<and> past_cursor c a) (archived_jobs s))))"

definition list_jobs_filtered_after ::
  "(string \<Rightarrow> string \<Rightarrow> bool) \<Rightarrow> job_filter \<Rightarrow> int \<Rightarrow> (millis \<times> string) option \<Rightarrow> db \<Rightarrow> job list" where
  "list_jobs_filtered_after like f lim c s =
     (if lim \<le> 0 then []
      else (case fl_status f of
        Some st \<Rightarrow> if is_terminal_status st then list_archived_filtered_after like f lim c s
                   else list_live_filtered_after like f lim c s
      | None \<Rightarrow>
          take (nat (max lim 0)) (order_desc (\<lambda>j. (created_at j, jid j))
            (list_live_filtered_after like f lim c s @ list_archived_filtered_after like f lim c s))))"

section \<open>Reapers\<close>

record stale_job =
  stale_awaiting_settle :: bool
  stale_job_of :: job

text \<open>
  \<open>started_at + timeout_ms < now\<close> is evaluated by SQLite, whose integer addition falls
  back to a real on overflow: the comparison is the one on unbounded integers.
\<close>

definition past_deadline :: "millis \<Rightarrow> job_row \<Rightarrow> bool" where
  "past_deadline now r = (case started_at r of Some t \<Rightarrow> t + timeout_ms r < now | None \<Rightarrow> False)"

definition settle_marker :: "string \<Rightarrow> db \<Rightarrow> millis option" where
  "settle_marker i s =
     (case find (\<lambda>c. cl_job_id c = i \<and> cl_settle_deadline_ms c \<noteq> None) (execution_claims s) of
        Some c \<Rightarrow> cl_settle_deadline_ms c
      | None \<Rightarrow> None)"

definition reap_stale_jobs :: "millis \<Rightarrow> string option \<Rightarrow> db \<Rightarrow> stale_job list" where
  "reap_stale_jobs now ns s =
     List.map_filter (\<lambda>r.
         case settle_marker (jid r) s of
           Some d \<Rightarrow> if d > now then None
                     else Some \<lparr>stale_awaiting_settle = True, stale_job_of = from_narrow r [] None\<rparr>
         | None \<Rightarrow> Some \<lparr>stale_awaiting_settle = False, stale_job_of = from_narrow r [] None\<rparr>)
       (filter (\<lambda>r. row_status r = status_i32 Running \<and> past_deadline now r \<and> in_scope ns r) (jobs s))"

definition reap_orphaned_jobs :: "string list \<Rightarrow> string option \<Rightarrow> db \<Rightarrow> (job \<times> string) list" where
  "reap_orphaned_jobs live ns s =
     (if live = [] then []
      else (let orphans = filter (\<lambda>c. cl_worker_id c \<notin> set live) (execution_claims s);
                owner = map_of (rev (map (\<lambda>c. (cl_job_id c, cl_worker_id c)) orphans))
            in map (\<lambda>r. (from_narrow r [] None, case owner (jid r) of Some w \<Rightarrow> w | None \<Rightarrow> ''''))
                 (filter (\<lambda>r. jid r \<in> cl_job_id ` set orphans \<and> row_status r = status_i32 Running
                            \<and> in_scope ns r) (jobs s))))"

section \<open>The error log\<close>

definition record_error :: "env \<Rightarrow> string \<Rightarrow> int \<Rightarrow> string \<Rightarrow> string option \<Rightarrow> unit op" where
  "record_error e i attempt err ns s =
     (if ns \<noteq> None \<and> get_job i ns s = None then (s, Inr ())
      else if \<exists>x\<in>set (job_errors s). je_id x = uuid e 0 then (s, Inl (Storage UniqueViolation))
      else (s\<lparr>job_errors := job_errors s @
               [\<lparr>je_id = uuid e 0, je_job_id = i, je_attempt = attempt, je_error = err,
                 je_failed_at = now_millis e\<rparr>]\<rparr>, Inr ()))"

definition get_job_errors :: "string \<Rightarrow> string option \<Rightarrow> db \<Rightarrow> job_error_row list" where
  "get_job_errors i ns s =
     (if ns \<noteq> None \<and> get_job i ns s = None then []
      else sort_key je_attempt (filter (\<lambda>x. je_job_id x = i) (job_errors s)))"

section \<open>Statistics are the true counts\<close>

fun stat_of :: "queue_stats \<Rightarrow> job_status \<Rightarrow> int" where
  "stat_of x Pending = qs_pending x"
| "stat_of x Running = qs_running x"
| "stat_of x Complete = qs_completed x"
| "stat_of x Failed = qs_failed x"
| "stat_of x Dead = qs_dead x"
| "stat_of x Cancelled = qs_cancelled x"

lemma stats_eqI: "(\<And>st. stat_of x st = stat_of y st) \<Longrightarrow> x = (y :: queue_stats)"
  by (metis old.unit.exhaust queue_stats.surjective stat_of.simps)

lemma stat_of_default [simp]: "stat_of default_stats st = 0"
  by (cases st) (simp_all add: default_stats_def)

lemma stat_of_set [simp]:
  "stat_of (set_status_count x v c) st = (if v = status_i32 st then c else stat_of x st)"
proof (cases "from_i32 v")
  case None
  then have "v \<noteq> status_i32 st" by auto
  then show ?thesis using None by (simp add: set_status_count_def)
next
  case (Some u)
  then have "v = status_i32 u" by (simp add: status_codec.dec_eq_Some)
  then show ?thesis by (cases u; cases st) (simp_all add: set_status_count_def)
qed

lemma stat_of_add [simp]: "stat_of (stats_add x u c) st = stat_of x st + (if u = st then c else 0)"
  by (cases u; cases st) simp_all

lemma stat_of_apply:
  "distinct (map fst rows) \<Longrightarrow> stat_of (apply_status_count x rows) st =
     (case map_of rows (status_i32 st) of Some c \<Rightarrow> c | None \<Rightarrow> stat_of x st)"
proof (induction rows arbitrary: x)
  case (Cons r rows)
  obtain v c where r: "r = (v, c)" by (cases r)
  have "map_of rows v = None" using Cons.prems r by (simp add: map_of_eq_None_iff)
  then show ?case using Cons r by (auto split: option.splits)
qed simp

lemma distinct_group_count [simp]: "distinct (map fst (group_count k t))"
  by (simp add: group_count_def comp_def)

lemma count_where_notin: "v \<notin> k ` set t \<Longrightarrow> count_where (\<lambda>r. k r = v) t = 0"
  by (auto simp: count_where_0)

lemma stat_of_two_tables:
  assumes "\<forall>r\<in>set t. k r \<noteq> status_i32 st \<or> (\<forall>a\<in>set u. l a \<noteq> status_i32 st)"
  shows "stat_of (apply_status_count (apply_status_count default_stats (group_count k t)) (group_count l u)) st
    = count_where (\<lambda>r. k r = status_i32 st) t + count_where (\<lambda>a. l a = status_i32 st) u"
proof (cases "status_i32 st \<in> k ` set t")
  case True
  then have "status_i32 st \<notin> l ` set u" using assms by (metis (no_types, lifting) image_iff)
  then show ?thesis using True
    by (simp add: stat_of_apply map_of_group_count count_where_notin)
next
  case False
  then show ?thesis
    by (simp add: stat_of_apply map_of_group_count count_where_notin)
qed

text \<open>No status occurs in both tables.\<close>

lemma db_ok_statuses:
  assumes "db_ok s" and "r \<in> set (jobs s)" and "a \<in> set (archived_jobs s)"
  shows "row_status r \<noteq> arch_status a"
  using live_not_terminal [OF assms(1,2)] archived_terminal [OF assms(1,3)] by auto

lemma stats_by_queue_counts:
  assumes "db_ok s"
  shows "stat_of (stats_by_queue q ns s) st
    = count_where (\<lambda>r. row_status r = status_i32 st) (filter (\<lambda>r. queue r = q \<and> in_scope ns r) (jobs s))
    + count_where (\<lambda>a. arch_status a = status_i32 st)
        (filter (\<lambda>a. queue a = q \<and> in_scope ns a) (archived_jobs s))"
  unfolding stats_by_queue_def
  by (rule stat_of_two_tables) (use db_ok_statuses [OF assms] in fastforce)

section \<open>The per-queue map agrees with the per-queue query\<close>



lemma fold_queue_rows_lookup:
  "fold_queue_rows set_status_count m rows q =
     (let own = map (\<lambda>x. (snd (fst x), snd x)) (filter (\<lambda>x. fst (fst x) = q) rows)
      in if own = [] then m q
         else Some (apply_status_count (case m q of Some x \<Rightarrow> x | None \<Rightarrow> default_stats) own))"
proof (induction rows arbitrary: m)
  case (Cons x rows)
  obtain p v c where "x = ((p, v), c)" by (metis prod.exhaust)
  then show ?case using Cons.IH by (auto simp: Let_def)
qed simp

lemma group_count_pair:
  "map (\<lambda>x. (snd (fst x), snd x)) (filter (\<lambda>x. fst (fst x) = q) (group_count (\<lambda>r. (g r, k r)) t))
     = group_count k (filter (\<lambda>r. g r = q) t)"
proof -
  have "map snd (filter (\<lambda>v. fst v = q) (remdups (map (\<lambda>r. (g r, k r)) t)))
      = remdups (map k (filter (\<lambda>r. g r = q) t))"
    by (induction t) (auto simp: image_iff)
  moreover have "map (\<lambda>x. (snd (fst x), snd x)) (filter (\<lambda>x. fst (fst x) = q)
        (map (\<lambda>v. (v, count_where (\<lambda>r. (g r, k r) = v) t)) vs))
      = map (\<lambda>v. (v, count_where (\<lambda>r. k r = v) (filter (\<lambda>r. g r = q) t))) (map snd (filter (\<lambda>v. fst v = q) vs))"
    for vs
    by (induction vs) (auto simp: count_where_def intro!: arg_cong [where f = length] filter_cong)
  ultimately show ?thesis by (simp only: group_count_def)
qed

lemma group_count_Nil_iff [simp]: "group_count k t = [] \<longleftrightarrow> t = []"
  by (simp add: group_count_def)

lemma apply_status_count_append:
  "apply_status_count x (xs @ ys) = apply_status_count (apply_status_count x xs) ys"
  by (induction x xs rule: apply_status_count.induct) auto

lemma stats_all_queues_eq:
  "stats_all_queues ns s q =
     (if (\<exists>r\<in>set (jobs s). queue r = q \<and> in_scope ns r) \<or> (\<exists>a\<in>set (archived_jobs s). queue a = q \<and> in_scope ns a)
      then Some (stats_by_queue q ns s) else None)"
  unfolding stats_all_queues_def fold_queue_rows_lookup Let_def
  by (auto simp: group_count_pair stats_by_queue_def apply_status_count_append filter_empty_conv
      conj_commute)

section \<open>Keyset pages\<close>

abbreviation page_key :: "'a job_cols_scheme \<Rightarrow> millis \<times> string" where
  "page_key r \<equiv> (created_at r, jid r)"

text \<open>Every job a filter selects, live and archived.\<close>

definition all_matching :: "(string \<Rightarrow> string \<Rightarrow> bool) \<Rightarrow> job_filter \<Rightarrow> db \<Rightarrow> job list" where
  "all_matching like f s =
     map (\<lambda>r. from_narrow r [] None) (filter (\<lambda>r. matches like f (row_status r) r) (jobs s))
     @ map from_narrow_archived (filter (\<lambda>a. matches like f (arch_status a) a) (archived_jobs s))"

lemma past_cursor_iff: "past_cursor c r \<longleftrightarrow> after_cursor c (page_key r)"
  by (cases c) (auto simp: past_cursor_def)

lemma distinct_all_matching:
  assumes "db_ok s"
  shows "distinct (map page_key (all_matching like f s))"
proof -
  have "distinct (map jid (all_matching like f s))"
    using db_ok_distinct [OF assms]
    by (auto simp: all_matching_def comp_def distinct_map_filter)
  then show ?thesis by (auto simp: distinct_map inj_on_def)
qed

lemma matches_terminal:
  assumes "db_ok s" and "fl_status f = Some st"
  shows "is_terminal_status st \<Longrightarrow> filter (\<lambda>r. matches like f (row_status r) r) (jobs s) = []"
    and "\<not> is_terminal_status st \<Longrightarrow> filter (\<lambda>a. matches like f (arch_status a) a) (archived_jobs s) = []"
  using assms(2) live_not_terminal [OF assms(1)] archived_terminal [OF assms(1)]
  by (auto simp: filter_empty_conv matches_def opt_filter_def)

lemma filter_all_matching:
  "filter (\<lambda>j. after_cursor c (page_key j)) (all_matching like f s) =
     map (\<lambda>r. from_narrow r [] None)
       (filter (\<lambda>r. matches like f (row_status r) r \<and> past_cursor c r) (jobs s))
     @ map from_narrow_archived
       (filter (\<lambda>a. matches like f (arch_status a) a \<and> past_cursor c a) (archived_jobs s))"
  by (simp add: all_matching_def filter_map comp_def past_cursor_iff conj_commute)

lemma list_jobs_page:
  assumes ok: "db_ok s" and "0 < n"
  shows "list_jobs_filtered_after like f n c s =
    take (nat n) (order_desc page_key (filter (\<lambda>j. after_cursor c (page_key j)) (all_matching like f s)))"
proof -
  let ?L = "filter (\<lambda>r. matches like f (row_status r) r \<and> past_cursor c r) (jobs s)"
  let ?A = "filter (\<lambda>a. matches like f (arch_status a) a \<and> past_cursor c a) (archived_jobs s)"
  let ?N = "\<lambda>r. from_narrow r [] None"
  have live: "list_live_filtered_after like f n c s = take (nat n) (order_desc page_key (map ?N ?L))"
    using assms(2) by (simp add: list_live_filtered_after_def sql_limit_def order_desc_map take_map)
  have arch: "list_archived_filtered_after like f n c s
      = take (nat n) (order_desc page_key (map from_narrow_archived ?A))"
    using assms(2) by (simp add: list_archived_filtered_after_def sql_limit_def order_desc_map take_map)
  have d: "distinct (map page_key (map ?N ?L @ map from_narrow_archived ?A))"
    using distinct_map_filter [OF distinct_all_matching [OF ok]]
    unfolding filter_all_matching [symmetric] .
  show ?thesis
  proof (cases "fl_status f")
    case None
    then show ?thesis using assms(2) take_order_desc_append [OF d, of "nat n"]
      by (simp only: list_jobs_filtered_after_def live arch filter_all_matching) simp
  next
    case (Some st)
    have "?L = []" if "is_terminal_status st"
      using matches_terminal(1) [OF ok Some that, of like] by (auto simp: filter_empty_conv)
    moreover have "?A = []" if "\<not> is_terminal_status st"
      using matches_terminal(2) [OF ok Some that, of like] by (auto simp: filter_empty_conv)
    ultimately show ?thesis using assms(2) Some
      by (simp add: list_jobs_filtered_after_def live arch filter_all_matching)
  qed
qed

interpretation job_pages: keyset_listing db_ok "all_matching like f" page_key
  "\<lambda>s n c. list_jobs_filtered_after like f n c s" for like f
  by unfold_locales (simp_all add: list_jobs_page distinct_all_matching)

section \<open>Properties\<close>

text \<open>
  Queue statistics are exact: for every status the counter is the number of jobs in
  scope with that status, live and archived together, although the code assigns (and does
  not add) the counts of two separate group-by queries.
\<close>

theorem stats_exact:
  assumes "db_ok s"
  shows "stat_of (stats ns s) st =
      int (length (filter (\<lambda>r. in_scope ns r \<and> row_status r = status_i32 st) (jobs s)))
    + int (length (filter (\<lambda>a. in_scope ns a \<and> arch_status a = status_i32 st) (archived_jobs s)))"
proof -
  have "stat_of (stats ns s) st
      = count_where (\<lambda>r. row_status r = status_i32 st) (filter (in_scope ns) (jobs s))
      + count_where (\<lambda>a. arch_status a = status_i32 st) (filter (in_scope ns) (archived_jobs s))"
    unfolding stats_def by (rule stat_of_two_tables) (use db_ok_statuses [OF assms] in fastforce)
  then show ?thesis by (simp add: count_where_def)
qed

theorem stats_exact_witness:
  "stat_of (stats None (live_db demo_rows)) Pending = 3"
  using stats_exact [OF demo_ok, of None Pending]
  by (simp add: demo_rows_def in_scope_def job_in_namespace_def)

text \<open>
  The per-queue breakdown agrees with the single-queue query: \<open>stats_all_queues\<close> has an
  entry for exactly the queues with a job in scope, and the entry is what
  \<open>stats_by_queue\<close> returns for that queue.
\<close>

theorem stats_all_queues_agree:
  "stats_all_queues ns s q =
     (if (\<exists>r\<in>set (jobs s). queue r = q \<and> in_scope ns r)
         \<or> (\<exists>a\<in>set (archived_jobs s). queue a = q \<and> in_scope ns a)
      then Some (stats_by_queue q ns s) else None)"
  by (rule stats_all_queues_eq)

text \<open>
  A keyset page merged from the two tables is the page of their union: although each
  table is asked for its own first \<open>n\<close> rows, the answer is the first \<open>n\<close> of all matching
  jobs after the cursor, in descending \<open>(created_at, id)\<close> order.
\<close>

theorem keyset_page_of_union:
  assumes "db_ok s" and "0 < n"
  shows "list_jobs_filtered_after like f n c s =
    take (nat n) (order_desc page_key (filter (\<lambda>j. after_cursor c (page_key j)) (all_matching like f s)))"
  by (rule list_jobs_page [OF assms])

definition no_filter :: job_filter where
  "no_filter = \<lparr>fl_status = None, fl_queue = None, fl_task = None, fl_metadata_like = None,
     fl_error_like = None, fl_created_after = None, fl_created_before = None, fl_namespace = None\<rparr>"

theorem keyset_page_of_union_witness:
  "map jid (list_jobs_filtered_after (=) no_filter 2 (Some (5, ''a'')) (live_db demo_rows)) = [''c'', ''b'']"
  using keyset_page_of_union [OF demo_ok, of 2 "(=)" no_filter "Some (5, ''a'')"]
  by (simp add: all_matching_def demo_rows_def matches_def opt_filter_def no_filter_def order_desc_def)

text \<open>
  C14. Paging through a listing loses and repeats nothing: starting without a cursor and
  always continuing from the last row, a client that stops at the first short page has
  collected every matching job exactly once, newest first.
\<close>

theorem keyset_pages_complete:
  assumes "db_ok s" and "0 < n" and "length (all_matching like f s) < fuel * nat n"
  shows "all_pages fuel (\<lambda>c. list_jobs_filtered_after like f n c s) page_key (nat n) None
    = Some (order_desc page_key (all_matching like f s))"
  by (rule job_pages.all_pages_complete [OF assms])

theorem keyset_pages_complete_witness:
  "map_option (map jid) (all_pages 2 (\<lambda>c. list_jobs_filtered_after (=) no_filter 2 c (live_db demo_rows))
     page_key 2 None) = Some [''a'', ''c'', ''b'']"
  using keyset_pages_complete [OF demo_ok, of 2 "(=)" no_filter 2]
  by (simp add: all_matching_def demo_rows_def matches_def opt_filter_def no_filter_def order_desc_def)

end
