(* ===== verification/Purge.thy ===== *)
theory Purge
  imports Job_Query
begin

text \<open>
  Retention (\<open>storage/diesel_common/purge.rs\<close> and the purges and mass cancels of
  \<open>storage/diesel_common/jobs.rs\<close>): every sweep works in bounded batches, each its own
  transaction. The contract of such a sweep is the locale \<open>batch_purge\<close>.
\<close>

section \<open>The drain loop\<close>

definition PURGE_BATCH :: nat where "PURGE_BATCH = 500"
definition MAX_BATCHES_PER_SWEEP :: nat where "MAX_BATCHES_PER_SWEEP = 200"

fun drain_loop ::
  "nat \<Rightarrow> ('s \<Rightarrow> 's \<times> (queue_error + nat)) \<Rightarrow> nat \<Rightarrow> 's \<Rightarrow> 's \<times> (queue_error + nat)" where
  "drain_loop 0 f acc s = (s, Inr acc)"
| "drain_loop (Suc n) f acc s =
     (case f s of
        (s', Inl err) \<Rightarrow> (s', Inl err)
      | (s', Inr removed) \<Rightarrow>
          if removed < PURGE_BATCH then (s', Inr (acc + removed))
          else drain_loop n f (acc + removed) s')"

definition drain_batches :: "('s \<Rightarrow> 's \<times> (queue_error + nat)) \<Rightarrow> 's \<Rightarrow> 's \<times> (queue_error + nat)" where
  "drain_batches f = drain_loop MAX_BATCHES_PER_SWEEP f 0"

text \<open>\<open>trim_oldest\<close>: the captured \<open>remaining\<close> is part of the state of the loop.\<close>

definition trim_step ::
  "(int \<Rightarrow> 's \<Rightarrow> 's \<times> (queue_error + nat)) \<Rightarrow> 's \<times> int \<Rightarrow> ('s \<times> int) \<times> (queue_error + nat)" where
  "trim_step del = (\<lambda>(s, remaining).
     if remaining = 0 then ((s, remaining), Inr 0)
     else (case del (min remaining (int PURGE_BATCH)) s of
             (s', Inl err) \<Rightarrow> ((s', remaining), Inl err)
           | (s', Inr removed) \<Rightarrow> ((s', saturating_sub remaining (int removed)), Inr removed)))"

definition trim_oldest ::
  "int \<Rightarrow> (int \<Rightarrow> 's \<Rightarrow> 's \<times> (queue_error + nat)) \<Rightarrow> 's \<Rightarrow> 's \<times> (queue_error + nat)" where
  "trim_oldest excess del s =
     (case drain_batches (trim_step del) (s, max excess 0) of ((s', _), r) \<Rightarrow> (s', r))"

text \<open>
  The batch every plain table is purged with: read the ids of at most \<open>PURGE_BATCH\<close>
  matching rows, delete by id, report the affected rows. \<open>get\<close> and \<open>put\<close> are the table,
  \<open>key\<close> its primary key, \<open>ord\<close> the \<open>ORDER BY\<close> of a trim.
\<close>

definition delete_by_ids ::
  "(db \<Rightarrow> 'r list) \<Rightarrow> ('r list \<Rightarrow> db \<Rightarrow> db) \<Rightarrow> ('r \<Rightarrow> string) \<Rightarrow> string list \<Rightarrow> db \<Rightarrow> db \<times> nat" where
  "delete_by_ids get put key ids s =
     (put (delete_where (\<lambda>r. key r \<in> set ids) (get s)) s,
      length (filter (\<lambda>r. key r \<in> set ids) (get s)))"

definition purge_rows_where ::
  "(db \<Rightarrow> 'r list) \<Rightarrow> ('r list \<Rightarrow> db \<Rightarrow> db) \<Rightarrow> ('r \<Rightarrow> string) \<Rightarrow> ('r \<Rightarrow> bool)
     \<Rightarrow> db \<Rightarrow> db \<times> (queue_error + nat)" where
  "purge_rows_where get put key p = write_transaction (\<lambda>s.
     Inr (delete_by_ids get put key (map key (sql_limit (int PURGE_BATCH) (filter p (get s)))) s))"

definition trim_rows_batch ::
  "(db \<Rightarrow> 'r list) \<Rightarrow> ('r list \<Rightarrow> db \<Rightarrow> db) \<Rightarrow> ('r \<Rightarrow> string) \<Rightarrow> ('r \<Rightarrow> 'k::linorder) \<Rightarrow> ('r \<Rightarrow> bool)
     \<Rightarrow> int \<Rightarrow> db \<Rightarrow> db \<times> (queue_error + nat)" where
  "trim_rows_batch get put key ord p lim = write_transaction (\<lambda>s.
     Inr (delete_by_ids get put key (map key (sql_limit lim (sort_key ord (filter p (get s))))) s))"

section \<open>Purging archived jobs\<close>

definition delete_relations_chunk :: "db \<Rightarrow> string list \<Rightarrow> db" where
  "delete_relations_chunk s chunk =
     s\<lparr>job_dependencies := delete_where
         (\<lambda>d. dep_job_id d \<in> set chunk \<or> depends_on_job_id d \<in> set chunk) (job_dependencies s),
       replay_history := delete_where (\<lambda>h. rh_original_job_id h \<in> set chunk) (replay_history s)\<rparr>"

definition delete_job_relations :: "string list \<Rightarrow> db \<Rightarrow> db" where
  "delete_job_relations ids s = foldl delete_relations_chunk s (chunks DELETE_ID_CHUNK ids)"

definition delete_diagnostics_chunk :: "db \<Rightarrow> string list \<Rightarrow> db" where
  "delete_diagnostics_chunk s chunk =
     s\<lparr>job_errors := delete_where (\<lambda>x. je_job_id x \<in> set chunk) (job_errors s),
       task_logs := delete_where (\<lambda>x. tl_job_id x \<in> set chunk) (task_logs s),
       task_metrics := delete_where (\<lambda>x. tm_job_id x \<in> set chunk) (task_metrics s)\<rparr>"

definition delete_job_diagnostics :: "string list \<Rightarrow> db \<Rightarrow> db" where
  "delete_job_diagnostics ids s = foldl delete_diagnostics_chunk s (chunks DELETE_ID_CHUNK ids)"

definition purge_archived_id_batch :: "string list \<Rightarrow> bool \<Rightarrow> db \<Rightarrow> db \<times> nat" where
  "purge_archived_id_batch ids cascade s =
     (if ids = [] then (s, 0)
      else (let s1 = delete_job_relations ids s;
                s2 = (if cascade then delete_job_diagnostics ids s1 else s1)
            in (s2\<lparr>archived_jobs := delete_where (\<lambda>a. jid a \<in> set ids) (archived_jobs s2)\<rparr>,
                length (filter (\<lambda>a. jid a \<in> set ids) (archived_jobs s2)))))"

definition purge_archived_where ::
  "(archived_job_row \<Rightarrow> bool) \<Rightarrow> bool \<Rightarrow> db \<Rightarrow> db \<times> (queue_error + nat)" where
  "purge_archived_where p cascade = write_transaction (\<lambda>s.
     Inr (purge_archived_id_batch
            (map jid (sql_limit (int PURGE_BATCH) (filter p (archived_jobs s)))) cascade s))"

definition completed_before :: "millis \<Rightarrow> archived_job_row \<Rightarrow> bool" where
  "completed_before t a = (case completed_at a of Some x \<Rightarrow> x < t | None \<Rightarrow> False)"

definition purge_completed :: "millis \<Rightarrow> db \<Rightarrow> db \<times> (queue_error + nat)" where
  "purge_completed older =
     drain_batches (purge_archived_where
       (\<lambda>a. arch_status a = status_i32 Complete \<and> completed_before older a) True)"

definition past_global_cutoff :: "millis \<Rightarrow> archived_job_row \<Rightarrow> bool" where
  "past_global_cutoff cutoff a \<longleftrightarrow> result_ttl_ms a = None \<and> completed_before cutoff a"

definition past_own_ttl :: "millis \<Rightarrow> archived_job_row \<Rightarrow> bool" where
  "past_own_ttl now a =
     (case (result_ttl_ms a, completed_at a) of
        (Some ttl, Some c) \<Rightarrow> c + ttl < now
      | _ \<Rightarrow> False)"

definition purge_completed_with_ttl :: "env \<Rightarrow> millis option \<Rightarrow> db \<Rightarrow> db \<times> (queue_error + nat)" where
  "purge_completed_with_ttl e cutoff s =
     (let (s1, r1) = (case cutoff of
                        Some c \<Rightarrow> drain_batches (purge_archived_where (past_global_cutoff c) False) s
                      | None \<Rightarrow> (s, Inr 0))
      in (case r1 of
            Inl err \<Rightarrow> (s1, Inl err)
          | Inr n \<Rightarrow>
              (case drain_batches (purge_archived_where (past_own_ttl (now_millis e)) False) s1 of
                 (s2, Inl err) \<Rightarrow> (s2, Inl err)
               | (s2, Inr m) \<Rightarrow> (s2, Inr (n + m)))))"

definition trim_archived_batch :: "string option \<Rightarrow> int \<Rightarrow> db \<Rightarrow> db \<times> (queue_error + nat)" where
  "trim_archived_batch ns lim = write_transaction (\<lambda>s.
     Inr (purge_archived_id_batch
            (map jid (sql_limit lim (sort_key (\<lambda>a. (completed_at a, jid a))
              (filter (\<lambda>a. namespace a = ns) (archived_jobs s))))) False s))"

definition trim_archived_over :: "string option \<Rightarrow> int \<Rightarrow> db \<Rightarrow> db \<times> (queue_error + nat)" where
  "trim_archived_over ns keep s =
     trim_oldest (count_where (\<lambda>a. namespace a = ns) (archived_jobs s) - max keep 0)
       (trim_archived_batch ns) s"

definition purge_job_errors_batch :: "millis \<Rightarrow> db \<Rightarrow> db \<times> (queue_error + nat)" where
  "purge_job_errors_batch older =
     purge_rows_where job_errors (\<lambda>t s. s\<lparr>job_errors := t\<rparr>) je_id (\<lambda>x. je_failed_at x < older)"

definition purge_job_errors :: "millis \<Rightarrow> db \<Rightarrow> db \<times> (queue_error + nat)" where
  "purge_job_errors older = drain_batches (purge_job_errors_batch older)"

section \<open>Mass cancels\<close>

definition MASS_ARCHIVE_BATCH :: nat where "MASS_ARCHIVE_BATCH = 500"

definition archive_pending_rows :: "job_row list \<Rightarrow> millis \<Rightarrow> string \<Rightarrow> job_row list tx" where
  "archive_pending_rows rows now err s =
     (let rows' = map (cancel_row now err) rows
      in and_then (archive_each rows' s) (\<lambda>s'. Inr (s', rows')))"

text \<open>
  \<open>archive_pending_in_batches\<close>: the database, the batches handed to \<open>on_batch\<close>, and the
  result. The loop ends because a full batch takes rows out of the live table.
\<close>

lemma archive_job_row_jobs:
  "archive_job_row r s = Inr s' \<Longrightarrow> jobs s' = delete_where (\<lambda>x. jid x = jid r) (jobs s)"
  by (auto simp: archive_job_row_eq split: if_splits)

lemma archive_each_le: "archive_each rs s = Inr s' \<Longrightarrow> length (jobs s') \<le> length (jobs s)"
proof (induction rs arbitrary: s)
  case (Cons r rs)
  then obtain s1 where s1: "archive_job_row r s = Inr s1" and rest: "archive_each rs s1 = Inr s'"
    by (auto simp: res_simps)
  have "length (jobs s1) \<le> length (jobs s)"
    unfolding archive_job_row_jobs [OF s1] delete_where_def by (rule length_filter_le)
  then show ?case using Cons.IH [OF rest] by simp
qed simp

lemma archive_each_shrinks:
  assumes "archive_each (r # rs) s = Inr s'" and "x \<in> set (jobs s)" and "jid x = jid r"
  shows "length (jobs s') < length (jobs s)"
proof -
  obtain s1 where s1: "archive_job_row r s = Inr s1" and rest: "archive_each rs s1 = Inr s'"
    using assms(1) by (auto simp: res_simps)
  have "length (jobs s1) < length (jobs s)"
    unfolding archive_job_row_jobs [OF s1] delete_where_def
    using assms(2,3) by (intro length_filter_less [of x]) simp_all
  then show ?thesis using archive_each_le [OF rest] by simp
qed

function archive_pending_in_batches ::
  "millis \<Rightarrow> string \<Rightarrow> (job_row \<Rightarrow> bool) \<Rightarrow> nat \<Rightarrow> job_row list list \<Rightarrow> db
     \<Rightarrow> db \<times> job_row list list \<times> (queue_error + nat)" where
  "archive_pending_in_batches now err p acc reported s =
     (case archive_pending_rows (sql_limit (int MASS_ARCHIVE_BATCH) (filter p (jobs s))) now err s of
        Inl e \<Rightarrow> (s, reported, Inl e)
      | Inr (s', rows) \<Rightarrow>
          (let reported' = (if rows \<noteq> [] then reported @ [rows] else reported)
           in if length rows < MASS_ARCHIVE_BATCH then (s', reported', Inr (acc + length rows))
              else archive_pending_in_batches now err p (acc + length rows) reported' s'))"
  by pat_completeness auto

termination
proof (relation "measure (\<lambda>(now, err, p, acc, reported, s). length (jobs s))", goal_cases)
  case (2 now err p acc reported s x s' rows reported')
  let ?rows = "sql_limit (int MASS_ARCHIVE_BATCH) (filter p (jobs s))"
  from 2 have arch: "archive_each (map (cancel_row now err) ?rows) s = Inr s'"
    and rows: "rows = map (cancel_row now err) ?rows"
    by (auto simp: archive_pending_rows_def Let_def res_simps)
  have "rows \<noteq> []" using 2(4) by (auto simp: MASS_ARCHIVE_BATCH_def)
  then obtain r rs where r: "?rows = r # rs" using rows by (cases ?rows) auto
  then have "r \<in> set (jobs s)" using set_sql_limit [of "int MASS_ARCHIVE_BATCH" "filter p (jobs s)"] by auto
  then have "length (jobs s') < length (jobs s)"
    using archive_each_shrinks [of "cancel_row now err r"] arch by (simp add: r)
  then show ?case by simp
qed simp

declare archive_pending_in_batches.simps [simp del]

definition EXPIRED :: string where "EXPIRED = ''expired''"

definition expire_in_batches :: "millis \<Rightarrow> db \<Rightarrow> db \<times> job_row list list \<times> (queue_error + nat)" where
  "expire_in_batches now = archive_pending_in_batches now EXPIRED
     (\<lambda>r. row_status r = status_i32 Pending \<and> (case expires_at r of Some x \<Rightarrow> x < now | None \<Rightarrow> False)) 0 []"

definition cancel_pending_by_queue ::
  "env \<Rightarrow> string \<Rightarrow> db \<Rightarrow> db \<times> job_row list list \<times> (queue_error + nat)" where
  "cancel_pending_by_queue e q = archive_pending_in_batches (now_millis e) ''purged''
     (\<lambda>r. row_status r = status_i32 Pending \<and> queue r = q) 0 []"

definition cancel_pending_by_task ::
  "env \<Rightarrow> string \<Rightarrow> db \<Rightarrow> db \<times> job_row list list \<times> (queue_error + nat)" where
  "cancel_pending_by_task e t = archive_pending_in_batches (now_millis e) ''revoked''
     (\<lambda>r. row_status r = status_i32 Pending \<and> task_name r = t) 0 []"

section \<open>The contract of a batched purge\<close>

text \<open>
  \<open>batch\<close> deletes the first rows of \<open>matching\<close>, at most \<open>PURGE_BATCH\<close> of them, reports how
  many, and leaves everything in \<open>frame\<close> alone.
\<close>

locale batch_purge =
  fixes ok :: "'s \<Rightarrow> bool"
    and matching :: "'s \<Rightarrow> 'r list"
    and frame :: "'s \<Rightarrow> 'c"
    and batch :: "'s \<Rightarrow> 's \<times> (queue_error + nat)"
  assumes batch_law: "ok s \<Longrightarrow>
    \<exists>s'. batch s = (s', Inr (min PURGE_BATCH (length (matching s))))
       \<and> matching s' = drop PURGE_BATCH (matching s) \<and> frame s' = frame s \<and> ok s'"
begin

lemma drain_loop_total:
  "ok s \<Longrightarrow> \<exists>s'. drain_loop n batch acc s = (s', Inr (acc + min (n * PURGE_BATCH) (length (matching s))))
     \<and> matching s' = drop (n * PURGE_BATCH) (matching s) \<and> frame s' = frame s \<and> ok s'"
proof (induction n arbitrary: acc s)
  case (Suc n)
  obtain s1 where s1: "batch s = (s1, Inr (min PURGE_BATCH (length (matching s))))"
    "matching s1 = drop PURGE_BATCH (matching s)" "frame s1 = frame s" "ok s1"
    using batch_law [OF Suc.prems] by blast
  show ?case
  proof (cases "length (matching s) < PURGE_BATCH")
    case True
    then show ?thesis using s1 by simp
  next
    case False
    then have "min PURGE_BATCH (length (matching s)) = PURGE_BATCH" by simp
    moreover obtain s' where "drain_loop n batch (acc + PURGE_BATCH) s1
        = (s', Inr (acc + PURGE_BATCH + min (n * PURGE_BATCH) (length (matching s1))))"
      "matching s' = drop (n * PURGE_BATCH) (matching s1)" "frame s' = frame s1" "ok s'"
      using Suc.IH [OF s1(4)] by blast
    ultimately show ?thesis using s1 False by (auto simp: add.commute)
  qed
qed simp

text \<open>A sweep deletes all matching rows, up to the cap of one sweep, and nothing else.\<close>

lemma drain_total:
  assumes "ok s"
  shows "\<exists>s'. drain_batches batch s = (s', Inr (min 100000 (length (matching s))))
    \<and> matching s' = drop 100000 (matching s) \<and> frame s' = frame s \<and> ok s'"
  using drain_loop_total [OF assms, of MAX_BATCHES_PER_SWEEP 0]
  by (simp add: drain_batches_def MAX_BATCHES_PER_SWEEP_def PURGE_BATCH_def)

end

text \<open>
  Trimming to a row ceiling: \<open>del lim\<close> deletes the first \<open>lim\<close> of \<open>rows\<close>, which lists
  them oldest first. The loop that counts the remaining excess down is then a batched
  purge of the oldest rows.
\<close>

locale oldest_trim =
  fixes ok :: "'s \<Rightarrow> bool"
    and rows :: "'s \<Rightarrow> 'r list"
    and rest :: "'s \<Rightarrow> 'c"
    and del :: "int \<Rightarrow> 's \<Rightarrow> 's \<times> (queue_error + nat)"
  assumes del_law: "ok s \<Longrightarrow> 0 \<le> lim \<Longrightarrow>
    \<exists>s'. del lim s = (s', Inr (length (take (nat lim) (rows s))))
       \<and> rows s' = drop (nat lim) (rows s) \<and> rest s' = rest s \<and> ok s'"
begin

lemma trim_step_law:
  assumes ok: "ok s" and rem: "0 \<le> rem" "rem \<le> int (length (rows s))" "in_i64 rem"
  shows "\<exists>s' rem'. trim_step del (s, rem) = ((s', rem'), Inr (min PURGE_BATCH (nat rem)))
    \<and> take (nat rem') (rows s') = drop PURGE_BATCH (take (nat rem) (rows s))
    \<and> drop (nat rem') (rows s') = drop (nat rem) (rows s) \<and> rest s' = rest s \<and> ok s'
    \<and> 0 \<le> rem' \<and> rem' \<le> int (length (rows s')) \<and> in_i64 rem'"
proof (cases "rem = 0")
  case True
  then show ?thesis using assms by (simp add: trim_step_def)
next
  case False
  let ?lim = "min rem (int PURGE_BATCH)"
  let ?k = "nat ?lim"
  have "0 \<le> ?lim" using rem by simp
  from del_law [OF ok this]
  obtain s' where s': "del ?lim s = (s', Inr (length (take ?k (rows s))))"
    "rows s' = drop ?k (rows s)" "rest s' = rest s" "ok s'" by blast
  have k: "length (take ?k (rows s)) = ?k" "?k = min (nat rem) PURGE_BATCH" using rem by auto
  have sat: "saturating_sub rem (int ?k) = rem - int ?k"
    using rem by (simp add: saturating_sub_def i64_defs)
  have step: "trim_step del (s, rem) = ((s', rem - int ?k), Inr ?k)"
    using False s'(1) k(1) sat by (simp add: trim_step_def)
  have nr: "nat (rem - int ?k) = nat rem - PURGE_BATCH" using rem by auto
  have mat: "take (nat (rem - int ?k)) (rows s') = drop PURGE_BATCH (take (nat rem) (rows s))"
    unfolding s'(2) nr unfolding k(2) drop_take by (simp add: min_def)
  have frm: "drop (nat (rem - int ?k)) (rows s') = drop (nat rem) (rows s)"
    unfolding s'(2) nr unfolding k(2) by (simp add: min_def)
  have "0 \<le> rem - int ?k" "rem - int ?k \<le> int (length (rows s'))" "in_i64 (rem - int ?k)"
    using rem s'(2) by (auto simp: i64_defs)
  then show ?thesis using step mat frm s'(3,4) k(2)
    by (intro exI [of _ s'] exI [of _ "rem - int ?k"]) (simp add: min.commute)
qed

end

sublocale oldest_trim < trim: batch_purge
  "\<lambda>(s, rem). ok s \<and> 0 \<le> rem \<and> rem \<le> int (length (rows s)) \<and> in_i64 rem"
  "\<lambda>(s, rem). take (nat rem) (rows s)" "\<lambda>(s, rem). (drop (nat rem) (rows s), rest s)" "trim_step del"
proof
  fix x :: "'s \<times> int"
  assume x: "case x of (s, rem) \<Rightarrow> ok s \<and> 0 \<le> rem \<and> rem \<le> int (length (rows s)) \<and> in_i64 rem"
  obtain s rem where sr: "x = (s, rem)" by (cases x)
  obtain s' rem' where "trim_step del (s, rem) = ((s', rem'), Inr (min PURGE_BATCH (nat rem)))"
    "take (nat rem') (rows s') = drop PURGE_BATCH (take (nat rem) (rows s))"
    "drop (nat rem') (rows s') = drop (nat rem) (rows s)" "rest s' = rest s" "ok s'"
    "0 \<le> rem'" "rem' \<le> int (length (rows s'))" "in_i64 rem'"
    using trim_step_law [of s rem] x sr by auto
  moreover have "min PURGE_BATCH (nat rem) = min PURGE_BATCH (length (take (nat rem) (rows s)))"
    using x sr by auto
  ultimately show "\<exists>x'. trim_step del x
        = (x', Inr (min PURGE_BATCH (length (case x of (s, rem) \<Rightarrow> take (nat rem) (rows s)))))
      \<and> (case x' of (s, rem) \<Rightarrow> take (nat rem) (rows s))
        = drop PURGE_BATCH (case x of (s, rem) \<Rightarrow> take (nat rem) (rows s))
      \<and> (case x' of (s, rem) \<Rightarrow> (drop (nat rem) (rows s), rest s))
        = (case x of (s, rem) \<Rightarrow> (drop (nat rem) (rows s), rest s))
      \<and> (case x' of (s, rem) \<Rightarrow> ok s \<and> 0 \<le> rem \<and> rem \<le> int (length (rows s)) \<and> in_i64 rem)"
    unfolding sr by (intro exI [of _ "(s', rem')"]) simp
qed

context oldest_trim
begin

text \<open>When the excess fits one sweep, exactly the oldest \<open>excess\<close> rows go.\<close>

lemma trim_total:
  assumes "ok s" and "excess \<le> int (length (rows s))" and "excess \<le> i64_max" and "excess \<le> 100000"
  shows "\<exists>s'. trim_oldest excess del s = (s', Inr (nat excess))
    \<and> rows s' = drop (nat excess) (rows s) \<and> rest s' = rest s \<and> ok s'"
proof -
  let ?ex = "max excess 0"
  have ex: "?ex \<le> int (length (rows s))" "in_i64 ?ex" "nat ?ex \<le> 100000" "nat ?ex = nat excess"
    using assms by (auto simp: i64_defs)
  obtain s' rem where s': "drain_batches (trim_step del) (s, ?ex) = ((s', rem), Inr (nat excess))"
    "take (nat rem) (rows s') = []" "drop (nat rem) (rows s') = drop (nat excess) (rows s)"
    "rest s' = rest s" "ok s'"
    using trim.drain_total [of "(s, ?ex)"] assms(1) ex by auto
  have "rows s' = drop (nat excess) (rows s)" using s'(2,3) by (metis append_Nil append_take_drop_id)
  then show ?thesis using s' by (simp add: trim_oldest_def)
qed

end

text \<open>
  A table with a primary key that purges may delete from: every batch of it satisfies the
  two contracts above.
\<close>

locale purged_table =
  fixes ok :: "db \<Rightarrow> bool"
    and get :: "db \<Rightarrow> 'r list"
    and put :: "'r list \<Rightarrow> db \<Rightarrow> db"
    and key :: "'r \<Rightarrow> string"
  assumes get_put: "get (put t s) = t"
    and put_put: "put u (put t s) = put u s"
    and ok_distinct: "ok s \<Longrightarrow> distinct (map key (get s))"
    and ok_delete: "ok s \<Longrightarrow> ok (put (delete_where p (get s)) s)"
begin

lemma purge_rows_law:
  assumes "ok s"
  shows "\<exists>s'. purge_rows_where get put key p s = (s', Inr (min PURGE_BATCH (length (filter p (get s)))))
    \<and> filter p (get s') = drop PURGE_BATCH (filter p (get s))
    \<and> (filter (\<lambda>r. \<not> p r) (get s'), put [] s') = (filter (\<lambda>r. \<not> p r) (get s), put [] s) \<and> ok s'"
proof -
  let ?ids = "map key (take PURGE_BATCH (filter p (get s)))"
  have set: "set ?ids = key ` set (take PURGE_BATCH (filter p (get s)))" by simp
  note del = delete_first_selected [OF ok_distinct [OF assms] set]
  have "purge_rows_where get put key p s = (put (delete_where (\<lambda>r. key r \<in> set ?ids) (get s)) s,
      Inr (length (filter (\<lambda>r. key r \<in> set ?ids) (get s))))"
    by (simp add: purge_rows_where_def write_transaction_def sql_limit_def delete_by_ids_def)
  then show ?thesis using del ok_delete [OF assms] by (simp add: get_put put_put del: set_map)
qed

lemma trim_rows_law:
  assumes ok: "ok s" and "0 \<le> lim" and L_def: "L = sort_key ord (filter p (get s))"
  shows "\<exists>s'. trim_rows_batch get put key ord p lim s = (s', Inr (length (take (nat lim) L)))
    \<and> sort_key ord (filter p (get s')) = drop (nat lim) L
    \<and> (filter (\<lambda>r. \<not> p r) (get s'), put [] s') = (filter (\<lambda>r. \<not> p r) (get s), put [] s) \<and> ok s'"
proof -
  let ?xs = "take (nat lim) L"
  let ?t = "filter (\<lambda>r. r \<notin> set ?xs) (get s)"
  have d: "distinct (map key (get s))" by (rule ok_distinct [OF ok])
  have dL: "distinct L" using d by (simp add: L_def distinct_map)
  have sub: "set ?xs \<subseteq> set (get s)" and pxs: "\<And>x. x \<in> set ?xs \<Longrightarrow> p x"
    unfolding L_def by (auto dest: in_set_takeD)
  have del: "delete_where (\<lambda>r. key r \<in> key ` set ?xs) (get s) = ?t"
    "filter (\<lambda>r. key r \<in> key ` set ?xs) (get s) = filter (\<lambda>r. r \<in> set ?xs) (get s)"
    by (rule delete_where_key [OF d sub])+
  have "length (filter (\<lambda>r. r \<in> set ?xs) (get s)) = length ?xs"
  proof -
    have "set (filter (\<lambda>r. r \<in> set ?xs) (get s)) = set ?xs" using sub by auto
    moreover have "distinct (filter (\<lambda>r. r \<in> set ?xs) (get s))" "distinct ?xs"
      using d dL by (simp_all add: distinct_map)
    ultimately show ?thesis by (metis distinct_card)
  qed
  then have eq: "trim_rows_batch get put key ord p lim s = (put ?t s, Inr (length ?xs))"
    using assms(2) del
    by (simp add: trim_rows_batch_def write_transaction_def sql_limit_def delete_by_ids_def L_def)
  have "sort_key ord (filter p ?t) = filter (\<lambda>r. r \<notin> set ?xs) L"
    by (simp add: L_def filter_sort conj_commute)
  also have "\<dots> = drop (nat lim) L" by (rule filter_notin_take [OF dL])
  finally have "sort_key ord (filter p ?t) = drop (nat lim) L" .
  moreover have "filter (\<lambda>r. \<not> p r) ?t = filter (\<lambda>r. \<not> p r) (get s)"
    using pxs by (auto intro!: filter_cong)
  moreover have "ok (put ?t s)" using ok_delete [OF ok, of "\<lambda>r. key r \<in> key ` set ?xs"] del(1) by simp
  ultimately show ?thesis unfolding eq by (simp add: get_put put_put)
qed

end

sublocale purged_table < purge: batch_purge ok "\<lambda>s. filter p (get s)"
  "\<lambda>s. (filter (\<lambda>r. \<not> p r) (get s), put [] s)" "purge_rows_where get put key p" for p
  by unfold_locales (rule purge_rows_law)

sublocale purged_table < oldest: oldest_trim ok "\<lambda>s. sort_key ord (filter p (get s))"
  "\<lambda>s. (filter (\<lambda>r. \<not> p r) (get s), put [] s)" "trim_rows_batch get put key ord p" for ord p
  by unfold_locales (rule trim_rows_law [OF _ _ refl])

subsection \<open>The archive purges\<close>

lemma concat_chunks [simp]: "concat (chunks n xs) = xs"
  by (induction n xs rule: chunks.induct) auto

lemma delete_where_twice: "delete_where p (delete_where q t) = delete_where (\<lambda>r. q r \<or> p r) t"
  by (simp add: delete_where_def)

lemma delete_where_False [simp]: "delete_where (\<lambda>r. False) t = t"
  by (simp add: delete_where_def)

lemma delete_job_relations_eq: "delete_job_relations ids s = delete_relations_chunk s ids"
proof -
  have "foldl delete_relations_chunk s cs = delete_relations_chunk s (concat cs)" for cs
  proof (induction cs arbitrary: s)
    case (Cons c cs)
    have "delete_relations_chunk (delete_relations_chunk s c) (concat cs) = delete_relations_chunk s (c @ concat cs)"
      by (simp add: delete_relations_chunk_def delete_where_twice disj_ac)
    then show ?case using Cons by simp
  qed (simp add: delete_relations_chunk_def)
  then show ?thesis by (simp add: delete_job_relations_def)
qed

lemma delete_job_diagnostics_eq: "delete_job_diagnostics ids s = delete_diagnostics_chunk s ids"
proof -
  have "foldl delete_diagnostics_chunk s cs = delete_diagnostics_chunk s (concat cs)" for cs
  proof (induction cs arbitrary: s)
    case (Cons c cs)
    have "delete_diagnostics_chunk (delete_diagnostics_chunk s c) (concat cs) = delete_diagnostics_chunk s (c @ concat cs)"
      by (simp add: delete_diagnostics_chunk_def delete_where_twice)
    then show ?case using Cons by simp
  qed (simp add: delete_diagnostics_chunk_def)
  then show ?thesis by (simp add: delete_job_diagnostics_def)
qed

lemma purge_archived_id_batch_sel:
  "archived_jobs (fst (purge_archived_id_batch ids c s)) = delete_where (\<lambda>a. jid a \<in> set ids) (archived_jobs s)"
  "jobs (fst (purge_archived_id_batch ids c s)) = jobs s"
  "execution_claims (fst (purge_archived_id_batch ids c s)) = execution_claims s"
  "job_steps (fst (purge_archived_id_batch ids c s)) = job_steps s"
  "dead_letter (fst (purge_archived_id_batch ids c s)) = dead_letter s"
  "distributed_locks (fst (purge_archived_id_batch ids c s)) = distributed_locks s"
  "queue_state (fst (purge_archived_id_batch ids c s)) = queue_state s"
  "job_dependencies (fst (purge_archived_id_batch ids c s))
     = delete_where (\<lambda>d. dep_job_id d \<in> set ids \<or> depends_on_job_id d \<in> set ids) (job_dependencies s)"
  "snd (purge_archived_id_batch ids c s) = length (filter (\<lambda>a. jid a \<in> set ids) (archived_jobs s))"
  "registry_ok (fst (purge_archived_id_batch ids c s)) = registry_ok s"
  by (simp_all add: purge_archived_id_batch_def delete_job_relations_eq delete_job_diagnostics_eq
      delete_relations_chunk_def delete_diagnostics_chunk_def Let_def)

lemma purge_archived_id_batch_keeps:
  assumes "db_ok s"
  shows "db_ok (fst (purge_archived_id_batch ids c s))"
proof -
  have "db_ok (s\<lparr>archived_jobs := delete_where (\<lambda>a. jid a \<in> set ids) (archived_jobs s)\<rparr>)"
    by (rule db_ok_delete_archived [OF assms])
  then show ?thesis
    by (simp add: ok_defs steps_ok_def steps_of_def purge_archived_id_batch_sel)
qed

text \<open>What no purge of the archive touches.\<close>

abbreviation purge_frame ::
  "(archived_job_row \<Rightarrow> bool) \<Rightarrow> db \<Rightarrow> job_row list \<times> archived_job_row list \<times> claim_row list
     \<times> step_row list \<times> dead_letter_row list" where
  "purge_frame p s \<equiv> (jobs s, filter (\<lambda>a. \<not> p a) (archived_jobs s), execution_claims s,
     job_steps s, dead_letter s)"

interpretation archive_purge: batch_purge db_ok "\<lambda>s. filter p (archived_jobs s)" "purge_frame p"
  "purge_archived_where p cascade" for p cascade
proof
  fix s :: db
  assume ok: "db_ok s"
  let ?ids = "map jid (take PURGE_BATCH (filter p (archived_jobs s)))"
  let ?s = "fst (purge_archived_id_batch ?ids cascade s)"
  have set: "set ?ids = jid ` set (take PURGE_BATCH (filter p (archived_jobs s)))" by simp
  note del = delete_first_selected [OF db_ok_distinct(2) [OF ok] set]
  have eq: "purge_archived_where p cascade s = (?s, Inr (snd (purge_archived_id_batch ?ids cascade s)))"
    by (simp add: purge_archived_where_def write_transaction_def sql_limit_def split: prod.splits)
  show "\<exists>s'. purge_archived_where p cascade s = (s', Inr (min PURGE_BATCH (length (filter p (archived_jobs s)))))
      \<and> filter p (archived_jobs s') = drop PURGE_BATCH (filter p (archived_jobs s))
      \<and> purge_frame p s' = purge_frame p s \<and> db_ok s'"
    unfolding eq using del purge_archived_id_batch_keeps [OF ok]
    by (intro exI [of _ ?s]) (simp add: purge_archived_id_batch_sel del: set_map)
qed

text \<open>The error log: its primary key is all the purge relies on.\<close>

interpretation error_log: purged_table "\<lambda>s. distinct (map je_id (job_errors s))" job_errors
  "\<lambda>t s. s\<lparr>job_errors := t\<rparr>" je_id
  by unfold_locales (simp_all add: distinct_map_delete_where)

text \<open>The archived jobs of a namespace, oldest first.\<close>

definition oldest_first :: "string option \<Rightarrow> db \<Rightarrow> archived_job_row list" where
  "oldest_first ns s = sort_key (\<lambda>a. (completed_at a, jid a)) (filter (\<lambda>a. namespace a = ns) (archived_jobs s))"

lemma trim_archived_batch_eq:
  assumes ok: "db_ok s" and "0 \<le> lim" and xs_def: "xs = take (nat lim) (oldest_first ns s)"
  shows "\<exists>s'. trim_archived_batch ns lim s = (s', Inr (length xs))
    \<and> archived_jobs s' = filter (\<lambda>a. a \<notin> set xs) (archived_jobs s)
    \<and> oldest_first ns s' = drop (nat lim) (oldest_first ns s)
    \<and> jobs s' = jobs s \<and> execution_claims s' = execution_claims s \<and> job_steps s' = job_steps s
    \<and> dead_letter s' = dead_letter s \<and> db_ok s'"
proof -
  let ?s = "fst (purge_archived_id_batch (map jid xs) False s)"
  have d: "distinct (map jid (archived_jobs s))" by (rule db_ok_distinct(2) [OF ok])
  have dl: "distinct (oldest_first ns s)"
    using d by (simp add: oldest_first_def distinct_map)
  have sub: "set xs \<subseteq> set (archived_jobs s)"
    unfolding xs_def oldest_first_def by (auto dest: in_set_takeD)
  have arch: "archived_jobs ?s = filter (\<lambda>a. a \<notin> set xs) (archived_jobs s)"
    using delete_where_key(1) [OF d sub] by (simp add: purge_archived_id_batch_sel)
  have "length (filter (\<lambda>a. a \<in> set xs) (archived_jobs s)) = length xs"
  proof -
    have "set (filter (\<lambda>a. a \<in> set xs) (archived_jobs s)) = set xs" using sub by auto
    moreover have "distinct (filter (\<lambda>a. a \<in> set xs) (archived_jobs s))" "distinct xs"
      using d dl by (simp_all add: distinct_map xs_def)
    ultimately show ?thesis by (metis distinct_card)
  qed
  then have cnt: "snd (purge_archived_id_batch (map jid xs) False s) = length xs"
    using delete_where_key(2) [OF d sub] by (simp add: purge_archived_id_batch_sel)
  have "oldest_first ns ?s = filter (\<lambda>a. a \<notin> set xs) (oldest_first ns s)"
    by (simp add: oldest_first_def arch filter_sort conj_commute)
  also have "\<dots> = drop (nat lim) (oldest_first ns s)"
    unfolding xs_def by (rule filter_notin_take [OF dl])
  finally have "oldest_first ns ?s = drop (nat lim) (oldest_first ns s)" .
  moreover have "trim_archived_batch ns lim s = (?s, Inr (length xs))"
    using assms(2) cnt
    by (auto simp: trim_archived_batch_def write_transaction_def sql_limit_def oldest_first_def [symmetric]
        xs_def [symmetric] split: prod.splits)
  ultimately show ?thesis using arch purge_archived_id_batch_keeps [OF ok]
    by (intro exI [of _ ?s]) (simp add: purge_archived_id_batch_sel(2-))
qed

interpretation archive_trim: oldest_trim db_ok "oldest_first ns" "purge_frame (\<lambda>a. namespace a = ns)"
  "trim_archived_batch ns" for ns
proof
  fix s :: db and lim :: int
  assume ok: "db_ok s" and lim: "0 \<le> lim"
  from trim_archived_batch_eq [OF ok lim refl, of ns]
  obtain s' where s': "trim_archived_batch ns lim s = (s', Inr (length (take (nat lim) (oldest_first ns s))))"
    "archived_jobs s' = filter (\<lambda>a. a \<notin> set (take (nat lim) (oldest_first ns s))) (archived_jobs s)"
    "oldest_first ns s' = drop (nat lim) (oldest_first ns s)" "jobs s' = jobs s"
    "execution_claims s' = execution_claims s" "job_steps s' = job_steps s" "dead_letter s' = dead_letter s" "db_ok s'"
    by blast
  have "filter (\<lambda>a. namespace a \<noteq> ns) (archived_jobs s') = filter (\<lambda>a. namespace a \<noteq> ns) (archived_jobs s)"
    unfolding s'(2) oldest_first_def by (auto intro!: filter_cong dest: in_set_takeD)
  with s' show "\<exists>s'. trim_archived_batch ns lim s = (s', Inr (length (take (nat lim) (oldest_first ns s))))
      \<and> oldest_first ns s' = drop (nat lim) (oldest_first ns s)
      \<and> purge_frame (\<lambda>a. namespace a = ns) s' = purge_frame (\<lambda>a. namespace a = ns) s \<and> db_ok s'"
    by auto
qed

section \<open>The sweeps keep the invariant\<close>

lemma purge_archived_drain_keeps:
  "db_ok s \<Longrightarrow> db_ok (fst (drain_batches (purge_archived_where p c) s))"
  using archive_purge.drain_total [of s p c] by auto

lemma purge_completed_keeps: "db_ok s \<Longrightarrow> db_ok (fst (purge_completed older s))"
  unfolding purge_completed_def by (rule purge_archived_drain_keeps)

lemma purge_ttl_keeps: "db_ok s \<Longrightarrow> db_ok (fst (purge_completed_with_ttl e cutoff s))"
  using purge_archived_drain_keeps
  by (auto simp: purge_completed_with_ttl_def Let_def split: prod.splits sum.splits option.splits)
     (metis fst_conv)+

lemma drain_loop_inv:
  assumes "\<And>x. I x \<Longrightarrow> I (fst (f x))" and "I x"
  shows "I (fst (drain_loop n f acc x))"
  using assms(2)
proof (induction n arbitrary: acc x)
  case (Suc n)
  then show ?case using assms(1) [OF Suc.prems] by (auto split: prod.splits sum.splits)
qed simp

lemma drain_batches_keeps:
  "(\<And>t. db_ok t \<Longrightarrow> db_ok (fst (f t))) \<Longrightarrow> db_ok s \<Longrightarrow> db_ok (fst (drain_batches f s))"
  unfolding drain_batches_def using drain_loop_inv [where I = db_ok] by blast

lemma trim_oldest_keeps:
  assumes batch: "\<And>lim t. db_ok t \<Longrightarrow> db_ok (fst (del lim t))" and "db_ok s"
  shows "db_ok (fst (trim_oldest excess del s))"
proof -
  have "db_ok (fst (fst (trim_step del x)))" if "db_ok (fst x)" for x
  proof -
    obtain t rem where x: "x = (t, rem)" by (cases x)
    obtain t' r where t': "del (min rem (int PURGE_BATCH)) t = (t', r)" by fastforce
    have "db_ok t'" using batch [of t "min rem (int PURGE_BATCH)"] that t' x by simp
    then show ?thesis using that x t' by (cases r) (auto simp: trim_step_def)
  qed
  then have "db_ok (fst (fst (drain_batches (trim_step del) (s, m))))" for m
    unfolding drain_batches_def
    using drain_loop_inv [where I = "\<lambda>x. db_ok (fst x)" and f = "trim_step del"] assms(2) by simp
  then show ?thesis by (simp add: trim_oldest_def case_prod_unfold)
qed

lemma trim_archived_keeps:
  assumes "db_ok s"
  shows "db_ok (fst (trim_archived_over ns keep s))"
  unfolding trim_archived_over_def
proof (rule trim_oldest_keeps [OF _ assms])
  show "db_ok (fst (trim_archived_batch ns lim t))" if "db_ok t" for lim t
    unfolding trim_archived_batch_def using that purge_archived_id_batch_keeps [OF that]
    by (intro write_transaction_keeps) (auto simp: prod_eq_iff)
qed

text \<open>A batch of a plain table changes that table only, by a deletion.\<close>

lemma rows_batch_fst:
  "fst (purge_rows_where get put key p s) = put (delete_where (\<lambda>r. key r \<in> key `
     set (sql_limit (int PURGE_BATCH) (filter p (get s)))) (get s)) s"
  "fst (trim_rows_batch get put key ord p lim s) = put (delete_where (\<lambda>r. key r \<in> key `
     set (sql_limit lim (sort_key ord (filter p (get s))))) (get s)) s"
  by (simp_all add: purge_rows_where_def trim_rows_batch_def write_transaction_def delete_by_ids_def)

lemma purge_job_errors_keeps:
  assumes "db_ok s"
  shows "db_ok (fst (purge_job_errors older s))"
  unfolding purge_job_errors_def
proof (rule drain_batches_keeps [OF _ assms])
  show "db_ok (fst (purge_job_errors_batch older t))" if "db_ok t" for t
    unfolding purge_job_errors_batch_def using that by (simp add: rows_batch_fst)
qed

section \<open>A mass cancel reaches every selected job\<close>

lemma archive_batch_eq:
  assumes ok: "db_ok s"
    and rows_def: "rows = map (cancel_row now err) (take MASS_ARCHIVE_BATCH (filter p (jobs s)))"
  shows "archive_pending_rows (sql_limit (int MASS_ARCHIVE_BATCH) (filter p (jobs s))) now err s
      = Inr (archive_rows rows s, rows)"
    and "db_ok (archive_rows rows s)"
    and "filter p (jobs (archive_rows rows s)) = drop MASS_ARCHIVE_BATCH (filter p (jobs s))"
proof -
  let ?t = "take MASS_ARCHIVE_BATCH (filter p (jobs s))"
  have sub: "set ?t \<subseteq> set (jobs s)" by (auto dest: in_set_takeD)
  have d: "distinct (map jid ?t)"
    using distinct_map_filter [OF db_ok_distinct(1) [OF ok], of p] by (metis distinct_take take_map)
  note arch = archive_sub [OF ok sub d, of "cancel_row now err"]
  show "archive_pending_rows (sql_limit (int MASS_ARCHIVE_BATCH) (filter p (jobs s))) now err s
      = Inr (archive_rows rows s, rows)"
    using arch(1) by (simp add: archive_pending_rows_def sql_limit_def rows_def Let_def)
  show "db_ok (archive_rows rows s)" using arch(2) by (simp add: rows_def)
  show "filter p (jobs (archive_rows rows s)) = drop MASS_ARCHIVE_BATCH (filter p (jobs s))"
    using delete_first_selected(1) [OF db_ok_distinct(1) [OF ok] refl, of p MASS_ARCHIVE_BATCH]
    by (simp add: rows_def image_image)
qed

lemma archive_in_batches_eq:
  assumes "db_ok s"
  shows "\<exists>bs. archive_pending_in_batches now err p acc rep s =
      (archive_rows (map (cancel_row now err) (filter p (jobs s))) s, rep @ bs,
       Inr (acc + length (filter p (jobs s))))
    \<and> concat bs = map (cancel_row now err) (filter p (jobs s))
    \<and> (\<forall>b\<in>set bs. b \<noteq> [] \<and> length b \<le> MASS_ARCHIVE_BATCH)"
  using assms
proof (induction "length (filter p (jobs s))" arbitrary: acc rep s rule: less_induct)
  case less
  let ?F = "filter p (jobs s)"
  define rows where "rows = map (cancel_row now err) (take MASS_ARCHIVE_BATCH ?F)"
  note batch = archive_batch_eq [OF less.prems rows_def]
  let ?s = "archive_rows rows s"
  let ?rep = "if rows \<noteq> [] then rep @ [rows] else rep"
  show ?case
  proof (cases "length ?F < MASS_ARCHIVE_BATCH")
    case True
    then have "rows = map (cancel_row now err) ?F" by (simp add: rows_def)
    then show ?thesis using True batch(1)
      by (subst archive_pending_in_batches.simps)
         (auto intro: exI [of _ "if ?F = [] then [] else [map (cancel_row now err) ?F]"])
  next
    case False
    have full: "length rows = MASS_ARCHIVE_BATCH" using False by (simp add: rows_def)
    then have ne: "rows \<noteq> []" by (auto simp: MASS_ARCHIVE_BATCH_def)
    have step: "archive_pending_in_batches now err p acc rep s
        = archive_pending_in_batches now err p (acc + MASS_ARCHIVE_BATCH) (rep @ [rows]) ?s"
      using batch(1) full ne by (subst archive_pending_in_batches.simps) (simp add: Let_def)
    have "length (filter p (jobs ?s)) < length ?F"
      using False unfolding batch(3) by (simp add: MASS_ARCHIVE_BATCH_def)
    from less.hyps [OF this batch(2), of "acc + MASS_ARCHIVE_BATCH" "rep @ [rows]"]
    obtain bs where bs: "archive_pending_in_batches now err p (acc + MASS_ARCHIVE_BATCH) (rep @ [rows]) ?s
        = (archive_rows (map (cancel_row now err) (drop MASS_ARCHIVE_BATCH ?F)) ?s, (rep @ [rows]) @ bs,
           Inr (acc + MASS_ARCHIVE_BATCH + length (drop MASS_ARCHIVE_BATCH ?F)))"
      "concat bs = map (cancel_row now err) (drop MASS_ARCHIVE_BATCH ?F)"
      "\<forall>b\<in>set bs. b \<noteq> [] \<and> length b \<le> MASS_ARCHIVE_BATCH"
      unfolding batch(3) by blast
    have all: "rows @ map (cancel_row now err) (drop MASS_ARCHIVE_BATCH ?F) = map (cancel_row now err) ?F"
      unfolding rows_def map_append [symmetric] append_take_drop_id ..
    then have "archive_rows (map (cancel_row now err) (drop MASS_ARCHIVE_BATCH ?F)) ?s
        = archive_rows (map (cancel_row now err) ?F) s"
      by (metis archive_rows_append)
    then show ?thesis using step bs full ne all False by (intro exI [of _ "rows # bs"]) simp
  qed
qed

lemma mass_cancel_keeps:
  assumes "db_ok s"
  shows "db_ok (fst (archive_pending_in_batches now err p acc rep s))"
  using archive_in_batches_eq [OF assms, of now err p acc rep]
    archive_live(2) [OF assms refl, of "cancel_row now err" p] by auto

section \<open>Purging and readiness\<close>

abbreviation old_complete :: "millis \<Rightarrow> archived_job_row \<Rightarrow> bool" where
  "old_complete older a \<equiv> arch_status a = status_i32 Complete \<and> completed_before older a"

lemma incomplete_ids_purge:
  assumes "db_ok s" and "\<And>a. a \<in> set xs \<Longrightarrow> a \<in> set (archived_jobs s) \<and> arch_status a = status_i32 Complete"
  shows "incomplete_ids (fst (purge_archived_id_batch (map jid xs) c s)) = incomplete_ids s"
    and "jid ` set xs \<inter> incomplete_ids s = {}" and "jid ` set xs \<inter> live_ids s = {}"
proof -
  have sub: "set xs \<subseteq> set (archived_jobs s)" using assms(2) by blast
  have arch: "archived_jobs (fst (purge_archived_id_batch (map jid xs) c s))
      = filter (\<lambda>a. a \<notin> set xs) (archived_jobs s)"
    using delete_where_key(1) [OF db_ok_distinct(2) [OF assms(1)] sub]
    by (simp add: purge_archived_id_batch_sel)
  have "{a \<in> set (archived_jobs (fst (purge_archived_id_batch (map jid xs) c s))). arch_status a \<noteq> status_i32 Complete}
      = {a \<in> set (archived_jobs s). arch_status a \<noteq> status_i32 Complete}"
    unfolding arch using assms(2) by auto
  then show "incomplete_ids (fst (purge_archived_id_batch (map jid xs) c s)) = incomplete_ids s"
    by (simp add: incomplete_ids_def purge_archived_id_batch_sel(2))
  show live: "jid ` set xs \<inter> live_ids s = {}"
    using sub db_ok_distinct(3) [OF assms(1)] by auto
  have "jid x \<noteq> jid a" if "x \<in> set xs" "a \<in> set (archived_jobs s)" "arch_status a \<noteq> status_i32 Complete" for x a
  proof
    assume "jid x = jid a"
    then have "x = a" using distinct_map_key [OF db_ok_distinct(2) [OF assms(1)]] that(1,2) sub by blast
    then show False using that(3) assms(2) [OF that(1)] by simp
  qed
  then show "jid ` set xs \<inter> incomplete_ids s = {}"
    using live unfolding incomplete_ids_def by blast
qed

lemma purge_complete_readiness:
  assumes "db_ok s" and "\<And>a. a \<in> set xs \<Longrightarrow> a \<in> set (archived_jobs s) \<and> arch_status a = status_i32 Complete"
    and "i \<in> live_ids s"
  shows "deps_satisfied (fst (purge_archived_id_batch (map jid xs) c s)) i = deps_satisfied s i"
proof -
  have inc: "incomplete_ids (fst (purge_archived_id_batch (map jid xs) c s)) = incomplete_ids s"
    "jid ` set xs \<inter> incomplete_ids s = {}" "jid ` set xs \<inter> live_ids s = {}"
    by (rule incomplete_ids_purge [OF assms(1)]; simp add: assms(2))+
  have i: "i \<notin> jid ` set xs" using inc(3) assms(3) by blast
  have "set (dep_job_ids (fst (purge_archived_id_batch (map jid xs) c s)) i)
      = set (dep_job_ids s i) - jid ` set xs"
    using i by (auto simp: dep_job_ids_def purge_archived_id_batch_sel set_delete_where)
  then show ?thesis using inc(1,2) unfolding deps_satisfied_iff by blast
qed

text \<open>
  The purge of completed jobs is a batched purge that also preserves which live jobs are
  ready.
\<close>

interpretation completed_purge: batch_purge db_ok "\<lambda>s. filter (old_complete older) (archived_jobs s)"
  "\<lambda>s. (jobs s, \<lambda>i. i \<in> live_ids s \<and> deps_satisfied s i)"
  "purge_archived_where (old_complete older) True" for older
proof
  fix s :: db
  assume ok: "db_ok s"
  let ?xs = "take PURGE_BATCH (filter (old_complete older) (archived_jobs s))"
  let ?s = "fst (purge_archived_id_batch (map jid ?xs) True s)"
  have xs: "a \<in> set (archived_jobs s) \<and> arch_status a = status_i32 Complete" if "a \<in> set ?xs" for a
    using in_set_takeD [OF that] by simp
  have eq: "fst (purge_archived_where (old_complete older) True s) = ?s"
    by (simp add: purge_archived_where_def write_transaction_def sql_limit_def split: prod.splits)
  have "(\<lambda>i. i \<in> live_ids ?s \<and> deps_satisfied ?s i) = (\<lambda>i. i \<in> live_ids s \<and> deps_satisfied s i)"
    using purge_complete_readiness [OF ok xs, of ?xs] by (auto simp: purge_archived_id_batch_sel)
  then show "\<exists>s'. purge_archived_where (old_complete older) True s
        = (s', Inr (min PURGE_BATCH (length (filter (old_complete older) (archived_jobs s)))))
      \<and> filter (old_complete older) (archived_jobs s')
        = drop PURGE_BATCH (filter (old_complete older) (archived_jobs s))
      \<and> (jobs s', \<lambda>i. i \<in> live_ids s' \<and> deps_satisfied s' i)
        = (jobs s, \<lambda>i. i \<in> live_ids s \<and> deps_satisfied s i) \<and> db_ok s'"
    using archive_purge.batch_law [OF ok, of "old_complete older" True] eq by auto
qed

text \<open>
  Whichever archived job a purge deletes, no dependency edge names it any more, and no other
  edge appears.
\<close>

definition edges_follow :: "db \<Rightarrow> db \<Rightarrow> bool" where
  "edges_follow s t \<longleftrightarrow> set (job_dependencies t) \<subseteq> set (job_dependencies s)
     \<and> (\<forall>d\<in>set (job_dependencies t). depends_on_job_id d \<in> archived_ids s \<longrightarrow> depends_on_job_id d \<in> archived_ids t)"

lemma edges_follow_refl: "edges_follow s s"
  by (simp add: edges_follow_def)

lemma edges_follow_batch:
  assumes "edges_follow s t"
  shows "edges_follow s (fst (purge_archived_where p c t))"
proof -
  define ids where "ids = map jid (sql_limit (int PURGE_BATCH) (filter p (archived_jobs t)))"
  have "fst (purge_archived_where p c t) = fst (purge_archived_id_batch ids c t)"
    by (simp add: purge_archived_where_def write_transaction_def ids_def split: prod.splits)
  then show ?thesis using assms
    by (fastforce simp: edges_follow_def purge_archived_id_batch_sel set_delete_where)
qed

lemma edges_follow_drain:
  "edges_follow s t \<Longrightarrow> edges_follow s (fst (drain_batches (purge_archived_where p c) t))"
  unfolding drain_batches_def by (rule drain_loop_inv [where I = "edges_follow s"]) (simp_all add: edges_follow_batch)

lemma edges_follow_ttl: "edges_follow s (fst (purge_completed_with_ttl e cutoff s))"
proof -
  let ?s1 = "fst (case cutoff of Some c \<Rightarrow> drain_batches (purge_archived_where (past_global_cutoff c) False) s
    | None \<Rightarrow> (s, Inr 0))"
  have "edges_follow s ?s1" by (cases cutoff) (simp_all add: edges_follow_refl edges_follow_drain)
  with edges_follow_drain [OF this, of "past_own_ttl (now_millis e)" False] show ?thesis
    by (auto simp: purge_completed_with_ttl_def Let_def split: prod.splits sum.splits)
qed

section \<open>Properties\<close>

text \<open>
  A purge of completed jobs deletes exactly the completed jobs older than the cutoff,
  up to the 100000 rows of one sweep, reports their number, touches no other archived
  job, and neither blocks nor releases any live job.
\<close>

theorem purge_completed_exact:
  assumes "db_ok s"
  shows "\<exists>s'. purge_completed older s
      = (s', Inr (min 100000 (length (filter (old_complete older) (archived_jobs s)))))
    \<and> filter (old_complete older) (archived_jobs s')
      = drop 100000 (filter (old_complete older) (archived_jobs s))
    \<and> filter (\<lambda>a. \<not> old_complete older a) (archived_jobs s')
      = filter (\<lambda>a. \<not> old_complete older a) (archived_jobs s)
    \<and> jobs s' = jobs s
    \<and> (\<forall>r\<in>set (jobs s). deps_satisfied s' (jid r) = deps_satisfied s (jid r))"
proof -
  obtain s' where s': "purge_completed older s
      = (s', Inr (min 100000 (length (filter (old_complete older) (archived_jobs s)))))"
    "filter (old_complete older) (archived_jobs s') = drop 100000 (filter (old_complete older) (archived_jobs s))"
    "purge_frame (old_complete older) s' = purge_frame (old_complete older) s"
    using archive_purge.drain_total [OF assms, of "old_complete older" True]
    unfolding purge_completed_def by blast
  have "(jobs s', \<lambda>i. i \<in> live_ids s' \<and> deps_satisfied s' i)
      = (jobs s, \<lambda>i. i \<in> live_ids s \<and> deps_satisfied s i)"
    using completed_purge.drain_total [OF assms, of older] s'(1) unfolding purge_completed_def by auto
  then have "jobs s' = jobs s" and "i \<in> live_ids s' \<and> deps_satisfied s' i \<longleftrightarrow> i \<in> live_ids s \<and> deps_satisfied s i" for i
    by (auto dest: fun_cong)
  then have "\<forall>r\<in>set (jobs s). deps_satisfied s' (jid r) = deps_satisfied s (jid r)" by (metis image_eqI)
  then show ?thesis using s' \<open>jobs s' = jobs s\<close> by auto
qed

text \<open>A database with a pending job \<open>b\<close> that depends on an archived job \<open>a\<close>.\<close>

definition waiting_db :: "job_status \<Rightarrow> db" where
  "waiting_db st =
     (live_db [(plain_row ''b'' ''q'' 0 5)\<lparr>row_has_deps := True\<rparr>])
       \<lparr>archived_jobs := [archived_of_row ((plain_row ''a'' ''q'' 0 1)
           \<lparr>row_status := status_i32 st, completed_at := Some 2\<rparr>)],
        job_dependencies := [\<lparr>dep_id = ''1'', dep_job_id = ''b'', depends_on_job_id = ''a''\<rparr>]\<rparr>"

lemma waiting_db_ok: "st \<notin> {Pending, Running} \<Longrightarrow> db_ok (waiting_db st)"
  by (auto simp: waiting_db_def ok_defs steps_ok_def steps_of_def row_ok_def unique_ok_def
      unique_indexed_def archived_ok_def)

theorem purge_completed_exact_witness:
  "\<exists>s'. purge_completed 100 (waiting_db Complete) = (s', Inr 1) \<and> deps_satisfied s' ''b''"
proof -
  have "deps_satisfied (waiting_db Complete) ''b''"
    by (simp add: waiting_db_def deps_satisfied_def dep_job_ids_def count_where_def)
  then show ?thesis
    using purge_completed_exact [OF waiting_db_ok [of Complete], of 100]
    by (auto simp: waiting_db_def completed_before_def)
qed

text \<open>Both passes of the retention purge: the global cutoff, then the times to live of the jobs.\<close>

lemma purge_ttl_total:
  assumes "db_ok s"
    and "length (filter (past_global_cutoff cutoff) (archived_jobs s)) \<le> 100000"
    and "length (filter (past_own_ttl (now_millis e)) (archived_jobs s)) \<le> 100000"
  defines "gone \<equiv> (\<lambda>a. past_global_cutoff cutoff a \<or> past_own_ttl (now_millis e) a)"
  shows "\<exists>s'. purge_completed_with_ttl e (Some cutoff) s
      = (s', Inr (length (filter gone (archived_jobs s))))
    \<and> archived_jobs s' = filter (\<lambda>a. \<not> gone a) (archived_jobs s) \<and> jobs s' = jobs s"
proof -
  let ?A = "archived_jobs s"
  let ?g = "past_global_cutoff cutoff" and ?o = "past_own_ttl (now_millis e)"
  have disj: "\<not> (?g a \<and> ?o a)" for a
    by (auto simp: past_global_cutoff_def past_own_ttl_def)
  obtain s1 where s1: "drain_batches (purge_archived_where ?g False) s = (s1, Inr (length (filter ?g ?A)))"
    "filter ?g (archived_jobs s1) = []" "filter (\<lambda>a. \<not> ?g a) (archived_jobs s1) = filter (\<lambda>a. \<not> ?g a) ?A"
    "jobs s1 = jobs s" "db_ok s1"
    using archive_purge.drain_total [OF assms(1), of ?g False] assms(2) by auto
  have A1: "archived_jobs s1 = filter (\<lambda>a. \<not> ?g a) ?A" using filter_Nil_partition [OF s1(2)] s1(3) by simp
  have F1: "filter ?o (archived_jobs s1) = filter ?o ?A"
    unfolding A1 using disj by (auto intro!: filter_cong)
  obtain s2 where s2: "drain_batches (purge_archived_where ?o False) s1 = (s2, Inr (length (filter ?o ?A)))"
    "filter ?o (archived_jobs s2) = []"
    "filter (\<lambda>a. \<not> ?o a) (archived_jobs s2) = filter (\<lambda>a. \<not> ?o a) (archived_jobs s1)" "jobs s2 = jobs s1"
    using archive_purge.drain_total [OF s1(5), of ?o False] assms(3) unfolding F1 by auto
  have "archived_jobs s2 = filter (\<lambda>a. \<not> gone a) ?A"
    using filter_Nil_partition [OF s2(2)] s2(3) by (simp add: A1 gone_def)
  moreover have "length (filter gone t) = length (filter ?g t) + length (filter ?o t)" for t
    using disj by (induction t) (auto simp: gone_def)
  ultimately show ?thesis using s1(1,4) s2(1,4) by (simp add: purge_completed_with_ttl_def)
qed



text \<open>
  C19. The row ceiling keeps the newest rows: when the excess fits one sweep, trimming a
  namespace to \<open>keep\<close> archived jobs deletes exactly its oldest ones by completion time and
  id, keeps \<open>min keep n\<close> of its \<open>n\<close> rows, and touches no other namespace.
\<close>

theorem trim_keeps_newest:
  assumes "db_ok s" and "0 \<le> keep" and "int (length (oldest_first ns s)) \<le> i64_max"
    and "length (oldest_first ns s) \<le> nat keep + 100000"
  shows "\<exists>s'. trim_archived_over ns keep s = (s', Inr (length (oldest_first ns s) - nat keep))
    \<and> oldest_first ns s' = drop (length (oldest_first ns s) - nat keep) (oldest_first ns s)
    \<and> filter (\<lambda>a. namespace a \<noteq> ns) (archived_jobs s') = filter (\<lambda>a. namespace a \<noteq> ns) (archived_jobs s)
    \<and> jobs s' = jobs s"
proof -
  let ?ex = "int (length (oldest_first ns s)) - keep"
  have "count_where (\<lambda>a. namespace a = ns) (archived_jobs s) - max keep 0 = ?ex"
    using assms(2) by (simp add: count_where_def oldest_first_def)
  moreover have "nat ?ex = length (oldest_first ns s) - nat keep" using assms(2) by auto
  moreover have "?ex \<le> int (length (oldest_first ns s))" "?ex \<le> i64_max" "?ex \<le> 100000"
    using assms by auto
  ultimately show ?thesis using archive_trim.trim_total [OF assms(1), of ?ex ns]
    by (auto simp: trim_archived_over_def)
qed

theorem trim_keeps_newest_witness:
  "\<exists>s'. trim_archived_over None 0 (waiting_db Dead) = (s', Inr 1) \<and> oldest_first None s' = []"
  using trim_keeps_newest [OF waiting_db_ok [of Dead], of 0 None]
  by (auto simp: waiting_db_def oldest_first_def i64_max_def)

text \<open>
  What a mass cancel owes: every live job the filter \<open>p\<close> selects is archived as cancelled with the
  reason \<open>err\<close>, the other live jobs stay, the batches reported are the archived rows in order,
  none empty and none longer than 500, and the count is their number.
\<close>

definition mass_cancelled ::
  "millis \<Rightarrow> string \<Rightarrow> (job_row \<Rightarrow> bool) \<Rightarrow> db \<Rightarrow> db \<times> job_row list list \<times> (queue_error + nat) \<Rightarrow> bool" where
  "mass_cancelled now err p s res \<longleftrightarrow>
     (let rows = map (\<lambda>r. r\<lparr>row_status := status_i32 Cancelled, completed_at := Some now, job_error := Some err\<rparr>)
                   (filter p (jobs s))
      in jobs (fst res) = filter (\<lambda>r. \<not> p r) (jobs s)
         \<and> archived_jobs (fst res) = archived_jobs s @ map archived_of_row rows
         \<and> concat (fst (snd res)) = rows \<and> list_all (\<lambda>b. b \<noteq> [] \<and> length b \<le> 500) (fst (snd res))
         \<and> snd (snd res) = Inr (length rows))"

lemma archive_in_batches_complete:
  assumes "db_ok s"
  shows "mass_cancelled now err p s (archive_pending_in_batches now err p 0 [] s)"
proof -
  let ?F = "filter p (jobs s)"
  obtain bs where bs: "archive_pending_in_batches now err p 0 [] s =
      (archive_rows (map (cancel_row now err) ?F) s, bs, Inr (length ?F))"
    "concat bs = map (cancel_row now err) ?F" "\<forall>b\<in>set bs. b \<noteq> [] \<and> length b \<le> 500"
    using archive_in_batches_eq [OF assms, of now err p 0 "[]"] by (auto simp: MASS_ARCHIVE_BATCH_def)
  have "jid r \<in> jid ` set ?F \<longleftrightarrow> p r" if "r \<in> set (jobs s)" for r
    using that distinct_map_key [OF db_ok_distinct(1) [OF assms]] by auto
  then have "jobs (archive_rows (map (cancel_row now err) ?F) s) = filter (\<lambda>r. \<not> p r) (jobs s)"
    by (simp add: archive_rows_def delete_where_def image_image cong: filter_cong)
  then show ?thesis using bs
    by (simp add: mass_cancelled_def Let_def archive_rows_def cancel_row_def list_all_iff)
qed

text \<open>
  C20. The mass cancels terminate and reach every selected job. However large the backlog, purging a
  queue cancels exactly its pending jobs, revoking a task exactly the pending jobs of the task,
  and expiring exactly the pending jobs past their expiry: each is archived with its reason, no
  pending job of the selection is left, and the batches and the count report all of them.
\<close>

theorem mass_cancel_complete:
  assumes "db_ok s"
  shows "mass_cancelled (now_millis e) ''purged'' (\<lambda>r. row_status r = status_i32 Pending \<and> queue r = q) s
      (cancel_pending_by_queue e q s)
    \<and> mass_cancelled (now_millis e) ''revoked'' (\<lambda>r. row_status r = status_i32 Pending \<and> task_name r = t) s
      (cancel_pending_by_task e t s)
    \<and> mass_cancelled now ''expired'' (\<lambda>r. row_status r = status_i32 Pending
          \<and> (case expires_at r of Some x \<Rightarrow> x < now | None \<Rightarrow> False)) s (expire_in_batches now s)"
  unfolding cancel_pending_by_queue_def cancel_pending_by_task_def expire_in_batches_def EXPIRED_def
  by (intro conjI archive_in_batches_complete assms)

theorem mass_cancel_complete_witness:
  "\<exists>s' bs. cancel_pending_by_queue (plain_env 10) ''q'' (live_db demo_rows) = (s', bs, Inr 3) \<and> jobs s' = []
    \<and> map jid (archived_jobs s') = [''a'', ''b'', ''c'']"
proof -
  obtain s' bs n where run: "cancel_pending_by_queue (plain_env 10) ''q'' (live_db demo_rows) = (s', bs, n)"
    by (metis prod_cases3)
  have "mass_cancelled 10 ''purged'' (\<lambda>r. row_status r = status_i32 Pending \<and> queue r = ''q'') (live_db demo_rows)
      (cancel_pending_by_queue (plain_env 10) ''q'' (live_db demo_rows))"
    using mass_cancel_complete [OF demo_ok, of "plain_env 10" "''q''"] by simp
  then show ?thesis unfolding run mass_cancelled_def by (simp add: demo_rows_def Let_def)
qed

text \<open>
  C21. The retention purge releases jobs that must stay blocked. A job at the head of its queue
  that depends on a cancelled or failed job is passed over by every dequeue; but when the
  purge removes that archived parent it also removes the dependency edge, and the next dequeue
  hands the dependent out.
\<close>

theorem purge_releases_blocked_dependent:
  assumes ok: "db_ok s"
    and parent: "a \<in> set (archived_jobs s)" "arch_status a \<noteq> status_i32 Complete" "past_global_cutoff cutoff a"
    and child: "scan_dequeue_candidates q now ns 100 order s = b # rest" "row_has_deps b" "\<not> past_expiry now b"
      "set (dep_job_ids s (jid b)) = {jid a}"
    and fits: "length (filter (past_global_cutoff cutoff) (archived_jobs s)) \<le> 100000"
      "length (filter (past_own_ttl (now_millis e)) (archived_jobs s)) \<le> 100000"
  shows "\<exists>s1 d1 s2 n s3 d3.
     dequeue_ordered_reporting q now ns order s = (s1, Inr d1) \<and> map_option jid (claimed d1) \<noteq> Some (jid b)
     \<and> purge_completed_with_ttl e (Some cutoff) s = (s2, Inr n)
     \<and> jobs s2 = jobs s \<and> dep_job_ids s2 (jid b) = []
     \<and> dequeue_ordered_reporting q now ns order s2 = (s3, Inr d3) \<and> map_option jid (claimed d3) = Some (jid b)"
proof -
  let ?scan = "\<lambda>s. scan_dequeue_candidates q now ns 100 order s"
  have "jid a \<in> incomplete_ids s" using parent(1,2) by (auto simp: incomplete_ids_def)
  then have blocked: "\<not> ready s now b" using child(2,4) by (simp add: ready_def deps_satisfied_iff)
  have "jid w \<noteq> jid b" if "find (ready s now) (b # rest) = Some w" for w
  proof -
    have "w \<in> set rest" using that blocked by (auto dest: find_SomeD)
    then show ?thesis using scan_candidates(3) [OF ok, of q now ns 100 order] unfolding child(1)
      by (auto simp: rev_image_eqI)
  qed
  then have before: "\<exists>s1 d1. dequeue_ordered_reporting q now ns order s = (s1, Inr d1)
      \<and> map_option jid (claimed d1) \<noteq> Some (jid b)"
    unfolding dequeue_ordered_eq [OF ok] child(1) by (auto simp: Let_def start_row_def)
  obtain s2 n where s2: "purge_completed_with_ttl e (Some cutoff) s = (s2, Inr n)" "jobs s2 = jobs s"
    "archived_jobs s2 = filter (\<lambda>x. \<not> (past_global_cutoff cutoff x \<or> past_own_ttl (now_millis e) x)) (archived_jobs s)"
    using purge_ttl_total [OF ok fits] by blast
  have ok2: "db_ok s2" using purge_ttl_keeps [OF ok, of e "Some cutoff"] s2(1) by simp
  have gone: "jid a \<notin> archived_ids s2"
  proof
    assume "jid a \<in> archived_ids s2"
    then obtain x where "x \<in> set (archived_jobs s2)" "jid x = jid a" by auto
    then have "x = a" using distinct_map_key [OF db_ok_distinct(2) [OF ok]] parent(1) by (auto simp: s2(3))
    then show False using \<open>x \<in> set (archived_jobs s2)\<close> parent(3) by (simp add: s2(3))
  qed
  have follow: "edges_follow s s2" using edges_follow_ttl [of s e "Some cutoff"] s2(1) by simp
  have none: "dep_job_ids s2 (jid b) = []"
  proof -
    have "dep_job_id d \<noteq> jid b" if d: "d \<in> set (job_dependencies s2)" for d
    proof
      assume "dep_job_id d = jid b"
      then have "depends_on_job_id d = jid a"
        using d follow child(4) unfolding edges_follow_def dep_job_ids_def by auto
      moreover have "jid a \<in> archived_ids s" using parent(1) by simp
      ultimately show False using d follow gone unfolding edges_follow_def by metis
    qed
    then show ?thesis by (simp add: dep_job_ids_def filter_empty_conv)
  qed
  have "ready s2 now b" using child(3) by (simp add: ready_def deps_satisfied_def none)
  moreover have "?scan s2 = b # rest" using child(1) by (simp add: scan_dequeue_candidates_def s2(2))
  ultimately have "\<exists>s3 d3. dequeue_ordered_reporting q now ns order s2 = (s3, Inr d3)
      \<and> map_option jid (claimed d3) = Some (jid b)"
    unfolding dequeue_ordered_eq [OF ok2] by (simp add: Let_def start_row_def)
  then show ?thesis using before s2(1,2) none by blast
qed

theorem purge_releases_blocked_dependent_witness:
  "\<exists>s1 d1 s2 n s3 d3.
     dequeue_ordered_reporting ''q'' 10 None Fifo (waiting_db Cancelled) = (s1, Inr d1)
     \<and> map_option jid (claimed d1) \<noteq> Some ''b''
     \<and> purge_completed_with_ttl (plain_env 200) (Some 100) (waiting_db Cancelled) = (s2, Inr n)
     \<and> dequeue_ordered_reporting ''q'' 10 None Fifo s2 = (s3, Inr d3) \<and> map_option jid (claimed d3) = Some ''b''"
proof -
  let ?a = "archived_of_row ((plain_row ''a'' ''q'' 0 1)\<lparr>row_status := status_i32 Cancelled, completed_at := Some 2\<rparr>)"
  let ?b = "(plain_row ''b'' ''q'' 0 5)\<lparr>row_has_deps := True\<rparr>"
  let ?s = "waiting_db Cancelled"
  have ok: "db_ok ?s" by (simp add: waiting_db_ok)
  have rows: "archived_jobs ?s = [?a]" by (simp add: waiting_db_def)
  have scan: "scan_dequeue_candidates ''q'' 10 None 100 Fifo ?s = [?b]"
    by (simp add: scan_dequeue_candidates_def waiting_db_def due_def sql_limit_def)
  have old: "past_global_cutoff 100 ?a" by (simp add: past_global_cutoff_def completed_before_def)
  have edge: "set (dep_job_ids ?s (jid ?b)) = {jid ?a}" by (simp add: dep_job_ids_def waiting_db_def)
  have fits: "length (filter p (archived_jobs ?s)) \<le> 100000" for p by (simp add: rows)
  have mem: "?a \<in> set (archived_jobs ?s)" unfolding rows by simp
  note released = purge_releases_blocked_dependent [OF ok mem _ old scan _ _ edge fits fits, of "plain_env 200"]
  have "arch_status ?a \<noteq> status_i32 Complete" "row_has_deps ?b" "\<not> past_expiry 10 ?b" "jid ?b = ''b''"
    by (simp_all add: past_expiry_def)
  then show ?thesis using released by metis
qed

end
