(* ===== verification/Dead_Letter.thy ===== *)
theory Dead_Letter
  imports Purge
begin

text \<open>
  The dead-letter queue (\<open>diesel_common/dead_letter.rs\<close>): a job that exhausted its
  attempts, or that the scheduler shed, is copied into \<open>dead_letter\<close> and archived as
  \<open>Dead\<close>; an entry is listed, purged, deleted, or resurrected as a fresh job that belongs
  to the same run.
\<close>

section \<open>Entries\<close>

record dead_job =
  dj_id :: string
  dj_original_job_id :: string
  dj_queue :: string
  dj_task_name :: string
  dj_payload :: bytes
  dj_error :: "string option"
  dj_retry_count :: int
  dj_failed_at :: millis
  dj_metadata :: "string option"
  dj_notes :: "string option"
  dj_priority :: int
  dj_max_retries :: int
  dj_timeout_ms :: millis
  dj_result_ttl_ms :: "millis option"
  dj_namespace :: "string option"
  dj_dlq_retry_count :: int
  dj_origin_job_id :: "string option"

definition dead_job_of_row :: "dead_letter_row \<Rightarrow> dead_job" where
  "dead_job_of_row r =
     \<lparr>dj_id = dl_id r, dj_original_job_id = dl_original_job_id r, dj_queue = dl_queue r,
      dj_task_name = dl_task_name r, dj_payload = dl_payload r, dj_error = dl_error r,
      dj_retry_count = dl_retry_count r, dj_failed_at = dl_failed_at r,
      dj_metadata = dl_metadata r, dj_notes = dl_notes r, dj_priority = dl_priority r,
      dj_max_retries = dl_max_retries r, dj_timeout_ms = dl_timeout_ms r,
      dj_result_ttl_ms = dl_result_ttl_ms r, dj_namespace = dl_namespace r,
      dj_dlq_retry_count = dl_dlq_retry_count r, dj_origin_job_id = dl_origin_job_id r\<rparr>"

text \<open>\<open>DeadJob::from_narrow\<close>: a listing reads every column but the payload.\<close>

definition dead_job_from_narrow :: "dead_letter_row \<Rightarrow> dead_job" where
  "dead_job_from_narrow r = (dead_job_of_row r)\<lparr>dj_payload := []\<rparr>"

section \<open>Dead-lettering\<close>

definition DEPENDENCY_FAILED :: string where "DEPENDENCY_FAILED = ''dependency failed''"

text \<open>How often the job already came back from the queue: \<open>as_i64\<close>, then \<open>as i32\<close>.\<close>

definition dlq_retry_count_of :: "env \<Rightarrow> string option \<Rightarrow> int" where
  "dlq_retry_count_of e md =
     wrap_i32 (case Option.bind (Option.bind (Option.bind md (parse_json e))
                      (\<lambda>v. json_get v DLQ_RETRY_COUNT_KEY)) json_as_i64 of
                 Some n \<Rightarrow> n | None \<Rightarrow> 0)"

definition dlq_row ::
  "env \<Rightarrow> string \<Rightarrow> job \<Rightarrow> string \<Rightarrow> string option \<Rightarrow> bool \<Rightarrow> millis \<Rightarrow> dead_letter_row" where
  "dlq_row e i j err md shed now =
     (let attr = extract_topic_subscription e (job_notes j) in
     \<lparr>dl_id = i, dl_original_job_id = jid j, dl_queue = queue j, dl_task_name = task_name j,
      dl_payload = payload j, dl_error = Some err, dl_retry_count = retry_count j,
      dl_failed_at = now,
      dl_metadata = (case md of Some m \<Rightarrow> Some m | None \<Rightarrow> metadata j),
      dl_notes = job_notes j, dl_priority = priority j, dl_max_retries = max_retries j,
      dl_timeout_ms = timeout_ms j, dl_result_ttl_ms = result_ttl_ms j,
      dl_namespace = namespace j, dl_dlq_retry_count = dlq_retry_count_of e (metadata j),
      dl_topic = map_option fst attr, dl_subscription_name = map_option snd attr,
      dl_shed = shed, dl_origin_job_id = Some (run_key e j),
      dl_job_metadata = (case md of Some _ \<Rightarrow> metadata j | None \<Rightarrow> None),
      dl_enqueued_by = enqueued_by j\<rparr>)"

definition dead_row :: "millis \<Rightarrow> string \<Rightarrow> job_row \<Rightarrow> job_row" where
  "dead_row now err r =
     r\<lparr>row_status := status_i32 Dead, job_error := Some err, completed_at := Some now\<rparr>"

definition insert_dead_letter :: "dead_letter_row \<Rightarrow> db \<Rightarrow> queue_error + db" where
  "insert_dead_letter d s =
     (if \<exists>x\<in>set (dead_letter s). dl_id x = dl_id d then Inl (Storage UniqueViolation)
      else Inr (s\<lparr>dead_letter := dead_letter s @ [d]\<rparr>))"

text \<open>\<open>dead_letter_in\<close>, drawing the id number \<open>k\<close> of the call.\<close>

definition dead_letter_in ::
  "env \<Rightarrow> nat \<Rightarrow> job \<Rightarrow> string \<Rightarrow> string option \<Rightarrow> bool \<Rightarrow> millis \<Rightarrow> unit tx" where
  "dead_letter_in e k j err md shed now s =
     and_then (insert_dead_letter (dlq_row e (uuid e k) j err md shed now) s) (\<lambda>s1.
       case find (\<lambda>r. jid r = jid j) (jobs s1) of
         Some row \<Rightarrow> and_then (archive_job_row (dead_row now err row) s1) (\<lambda>s2. Inr (s2, ()))
       | None \<Rightarrow> Inr (s1, ()))"

definition dead_letter_job ::
  "env \<Rightarrow> job \<Rightarrow> string \<Rightarrow> string option \<Rightarrow> bool \<Rightarrow> job list op" where
  "dead_letter_job e j err md shed s =
     (case write_transaction (dead_letter_in e 0 j err md shed (now_millis e)) s of
        (s', Inl x) \<Rightarrow> (s', Inl x)
      | (s', Inr _) \<Rightarrow> cascade_cancel_reporting e (jid j) DEPENDENCY_FAILED (namespace j) s')"

definition discard_result :: "'a op \<Rightarrow> unit op" where
  "discard_result f s = (case f s of (s', r) \<Rightarrow> (s', map_sum id (\<lambda>_. ()) r))"

definition move_to_dlq_reporting :: "env \<Rightarrow> job \<Rightarrow> string \<Rightarrow> string option \<Rightarrow> job list op" where
  "move_to_dlq_reporting e j err md = dead_letter_job e j err md False"

definition move_to_dlq :: "env \<Rightarrow> job \<Rightarrow> string \<Rightarrow> string option \<Rightarrow> unit op" where
  "move_to_dlq e j err md = discard_result (dead_letter_job e j err md False)"

definition shed_to_dlq_reporting :: "env \<Rightarrow> job \<Rightarrow> string \<Rightarrow> string option \<Rightarrow> job list op" where
  "shed_to_dlq_reporting e j err md = dead_letter_job e j err md True"

definition shed_to_dlq :: "env \<Rightarrow> job \<Rightarrow> string \<Rightarrow> string option \<Rightarrow> unit op" where
  "shed_to_dlq e j err md = discard_result (dead_letter_job e j err md True)"

text \<open>
  \<open>shed_new_jobs\<close>: every job must carry its reason; then all are inserted and
  dead-lettered in one transaction, without their keys.
\<close>

fun shed_reasons :: "job list \<Rightarrow> queue_error + string list" where
  "shed_reasons [] = Inr []"
| "shed_reasons (j # js) =
     (case job_error j of
        None \<Rightarrow> Inl (Other (''shed job '' @ jid j @ '' carries no dead-letter reason''))
      | Some err \<Rightarrow> and_then (shed_reasons js) (\<lambda>rs. Inr (err # rs)))"

definition without_keys :: "job \<Rightarrow> job" where
  "without_keys j = j\<lparr>unique_key := None, debounce_key := None\<rparr>"

fun shed_each :: "env \<Rightarrow> nat \<Rightarrow> (job \<times> string) list \<Rightarrow> string option \<Rightarrow> millis \<Rightarrow> db \<Rightarrow> queue_error + db" where
  "shed_each e k [] md now s = Inr s"
| "shed_each e k ((j, err) # rest) md now s =
     (let j' = without_keys j in
      and_then (insert_job_row (new_job_row (extract_topic_subscription e (job_notes j')) j') s) (\<lambda>s1.
      and_then (dead_letter_in e k j' err md True now s1) (\<lambda>(s2, _).
      shed_each e (Suc k) rest md now s2)))"

definition shed_new_jobs :: "env \<Rightarrow> job list \<Rightarrow> string option \<Rightarrow> unit op" where
  "shed_new_jobs e js md s =
     (case shed_reasons js of
        Inl err \<Rightarrow> (s, Inl err)
      | Inr reasons \<Rightarrow> write_transaction (\<lambda>s.
          and_then (shed_each e 0 (zip js reasons) md (now_millis e) s) (\<lambda>s'. Inr (s', ()))) s)"

section \<open>Reading the queue\<close>

definition in_namespace :: "string option \<Rightarrow> string option \<Rightarrow> bool" where
  "in_namespace row caller \<longleftrightarrow> (case caller of None \<Rightarrow> True | Some scope \<Rightarrow> row = Some scope)"

definition list_dead :: "int \<Rightarrow> int \<Rightarrow> string option \<Rightarrow> db \<Rightarrow> dead_job list" where
  "list_dead lim off ns s =
     map dead_job_from_narrow (sql_limit lim (sql_offset off (order_desc dl_failed_at
       (filter (\<lambda>d. in_namespace (dl_namespace d) ns) (dead_letter s)))))"

definition dead_past_cursor :: "(millis \<times> string) option \<Rightarrow> dead_letter_row \<Rightarrow> bool" where
  "dead_past_cursor c d =
     (case c of
        Some (t, i) \<Rightarrow> dl_failed_at d < t \<or> dl_failed_at d = t \<and> dl_id d < i
      | None \<Rightarrow> True)"

definition dead_matches ::
  "string option \<Rightarrow> string option \<Rightarrow> string option \<Rightarrow> dead_letter_row \<Rightarrow> bool" where
  "dead_matches q t ns d \<longleftrightarrow> in_namespace (dl_namespace d) ns
     \<and> (case q of Some q' \<Rightarrow> dl_queue d = q' | None \<Rightarrow> True)
     \<and> (case t of Some t' \<Rightarrow> dl_task_name d = t' | None \<Rightarrow> True)"

definition list_dead_filtered_after ::
  "string option \<Rightarrow> string option \<Rightarrow> int \<Rightarrow> (millis \<times> string) option \<Rightarrow> string option \<Rightarrow> db
     \<Rightarrow> dead_job list" where
  "list_dead_filtered_after q t lim c ns s =
     (if lim \<le> 0 then []
      else map dead_job_from_narrow (sql_limit lim (order_desc (\<lambda>d. (dl_failed_at d, dl_id d))
        (filter (\<lambda>d. dead_past_cursor c d \<and> dead_matches q t ns d) (dead_letter s)))))"

definition list_dead_after ::
  "int \<Rightarrow> (millis \<times> string) option \<Rightarrow> string option \<Rightarrow> db \<Rightarrow> dead_job list" where
  "list_dead_after lim c ns = list_dead_filtered_after None None lim c ns"

definition list_dead_by_task :: "string \<Rightarrow> int \<Rightarrow> int \<Rightarrow> string option \<Rightarrow> db \<Rightarrow> dead_job list" where
  "list_dead_by_task t lim off ns s =
     (if lim \<le> 0 then []
      else map dead_job_from_narrow (sql_limit lim (sql_offset (max off 0) (order_desc dl_failed_at
        (filter (\<lambda>d. dl_task_name d = t \<and> in_namespace (dl_namespace d) ns) (dead_letter s))))))"

definition get_dead :: "string \<Rightarrow> string option \<Rightarrow> db \<Rightarrow> dead_job option" where
  "get_dead i ns s =
     (case find (\<lambda>d. dl_id d = i) (dead_letter s) of
        Some d \<Rightarrow> if in_namespace (dl_namespace d) ns then Some (dead_job_of_row d) else None
      | None \<Rightarrow> None)"

definition retry_candidate ::
  "millis \<Rightarrow> int \<Rightarrow> string option \<Rightarrow> string list \<Rightarrow> dead_letter_row \<Rightarrow> bool" where
  "retry_candidate cutoff cap ns queues d \<longleftrightarrow>
     dl_failed_at d \<le> cutoff \<and> dl_dlq_retry_count d < cap
     \<and> dl_queue d \<in> set queues \<and> \<not> dl_shed d \<and> dl_namespace d = ns"

definition list_dead_for_retry ::
  "millis \<Rightarrow> int \<Rightarrow> string option \<Rightarrow> string list \<Rightarrow> int \<Rightarrow> db \<Rightarrow> dead_job list" where
  "list_dead_for_retry cutoff cap ns queues lim s =
     map dead_job_from_narrow (sql_limit lim (sort_key dl_failed_at
       (filter (retry_candidate cutoff cap ns queues) (dead_letter s))))"

section \<open>Resurrecting an entry\<close>

text \<open>
  The metadata of the resurrected job: the job's own blob if it is an object, with the
  attempt counter and the run the entry belongs to written in.
\<close>

definition retry_metadata :: "env \<Rightarrow> dead_letter_row \<Rightarrow> string" where
  "retry_metadata e d =
     (let next_count = wrap_i32 (dl_dlq_retry_count d + 1);
          blob = (case dl_job_metadata d of Some m \<Rightarrow> Some m | None \<Rightarrow> dl_metadata d);
          obj = (case Option.bind (Option.bind blob (parse_json e)) json_as_map of
                   Some m \<Rightarrow> m | None \<Rightarrow> []);
          obj = AList.update DLQ_RETRY_COUNT_KEY (JInt next_count) obj
      in print_json e (JObj (stamp_origin_job_id obj (dl_origin_job_id d) (dl_original_job_id d))))"

definition resurrected :: "env \<Rightarrow> dead_letter_row \<Rightarrow> new_job" where
  "resurrected e d =
     \<lparr>nj_queue = dl_queue d, nj_task_name = dl_task_name d, nj_payload = dl_payload d,
      nj_priority = dl_priority d, nj_scheduled_at = now_millis e,
      nj_max_retries = dl_max_retries d, nj_timeout_ms = dl_timeout_ms d,
      nj_unique_key = None, nj_metadata = Some (retry_metadata e d), nj_notes = dl_notes d,
      nj_depends_on = [], nj_expires_at = None, nj_result_ttl_ms = dl_result_ttl_ms d,
      nj_namespace = dl_namespace d, nj_debounce_key = None,
      nj_enqueued_by = dl_enqueued_by d\<rparr>"

definition retry_dead_tx :: "env \<Rightarrow> string \<Rightarrow> job \<Rightarrow> string tx" where
  "retry_dead_tx e i j s =
     and_then (insert_job_row (new_job_row (extract_topic_subscription e (job_notes j)) j) s) (\<lambda>s1.
       if count_where (\<lambda>d. dl_id d = i) (dead_letter s1) = 0 then Inl (Storage NotFound)
       else Inr (s1\<lparr>dead_letter := delete_where (\<lambda>d. dl_id d = i) (dead_letter s1)\<rparr>, jid j))"

definition retry_dead :: "env \<Rightarrow> string \<Rightarrow> string option \<Rightarrow> string op" where
  "retry_dead e i ns s =
     (case find (\<lambda>d. dl_id d = i) (dead_letter s) of
        None \<Rightarrow> (s, Inl (JobNotFound i))
      | Some d \<Rightarrow>
          if \<not> in_namespace (dl_namespace d) ns then (s, Inl (JobNotFound i))
          else map_err (\<lambda>err. if err = Storage NotFound then JobNotFound i else err)
                 (write_transaction
                   (retry_dead_tx e i (into_job (uuid e 0) (now_millis e) (resurrected e d))) s))"

section \<open>Purging and deleting\<close>

abbreviation put_dead :: "dead_letter_row list \<Rightarrow> db \<Rightarrow> db" where
  "put_dead t s \<equiv> s\<lparr>dead_letter := t\<rparr>"

definition purge_dead_by_task :: "string \<Rightarrow> string option \<Rightarrow> nat op" where
  "purge_dead_by_task t ns s =
     (let p = (\<lambda>d. dl_task_name d = t \<and> in_namespace (dl_namespace d) ns)
      in (s\<lparr>dead_letter := delete_where p (dead_letter s)\<rparr>,
          Inr (length (filter p (dead_letter s)))))"

definition purge_dead :: "millis \<Rightarrow> string option \<Rightarrow> nat op" where
  "purge_dead older ns = drain_batches (purge_rows_where dead_letter put_dead dl_id
     (\<lambda>d. dl_failed_at d < older \<and> in_namespace (dl_namespace d) ns))"

definition trim_dead_over :: "string option \<Rightarrow> int \<Rightarrow> nat op" where
  "trim_dead_over ns keep s =
     trim_oldest (count_where (\<lambda>d. dl_namespace d = ns) (dead_letter s) - max keep 0)
       (trim_rows_batch dead_letter put_dead dl_id (\<lambda>d. (dl_failed_at d, dl_id d))
          (\<lambda>d. dl_namespace d = ns)) s"

definition delete_dead :: "string \<Rightarrow> string option \<Rightarrow> bool op" where
  "delete_dead i ns s =
     (let p = (\<lambda>d. dl_id d = i \<and> in_namespace (dl_namespace d) ns)
      in (s\<lparr>dead_letter := delete_where p (dead_letter s)\<rparr>, Inr (0 < count_where p (dead_letter s))))"

definition dead_past_cutoff :: "millis \<Rightarrow> dead_letter_row \<Rightarrow> bool" where
  "dead_past_cutoff cutoff d \<longleftrightarrow> dl_result_ttl_ms d = None \<and> dl_failed_at d < cutoff"

definition dead_past_ttl :: "millis \<Rightarrow> dead_letter_row \<Rightarrow> bool" where
  "dead_past_ttl now d =
     (case dl_result_ttl_ms d of Some ttl \<Rightarrow> dl_failed_at d + ttl < now | None \<Rightarrow> False)"

definition purge_dead_with_ttl :: "env \<Rightarrow> millis option \<Rightarrow> nat op" where
  "purge_dead_with_ttl e cutoff s =
     (let purge = (\<lambda>p. drain_batches (purge_rows_where dead_letter put_dead dl_id p));
          (s1, r1) = (case cutoff of Some c \<Rightarrow> purge (dead_past_cutoff c) s | None \<Rightarrow> (s, Inr 0))
      in (case r1 of
            Inl err \<Rightarrow> (s1, Inl err)
          | Inr n \<Rightarrow>
              (case purge (dead_past_ttl (now_millis e)) s1 of
                 (s2, Inl err) \<Rightarrow> (s2, Inl err)
               | (s2, Inr m) \<Rightarrow> (s2, Inr (n + m)))))"

section \<open>What dead-lettering does\<close>

lemma dead_row_sel [simp]:
  "jid (dead_row now err r) = jid r" "row_status (dead_row now err r) = status_i32 Dead"
  "namespace (dead_row now err r) = namespace r" "finished (dead_row now err r)"
  "job_error (dead_row now err r) = Some err" "completed_at (dead_row now err r) = Some now"
  by (simp_all add: dead_row_def finished_def is_terminal_status_def)

lemma dlq_row_sel [simp]:
  "dl_id (dlq_row e i j err md sh now) = i"
  "dl_original_job_id (dlq_row e i j err md sh now) = jid j"
  "dl_namespace (dlq_row e i j err md sh now) = namespace j"
  "dl_shed (dlq_row e i j err md sh now) = sh"
  "dl_origin_job_id (dlq_row e i j err md sh now) = Some (run_key e j)"
  "dl_dlq_retry_count (dlq_row e i j err md sh now) = dlq_retry_count_of e (metadata j)"
  by (simp_all add: dlq_row_def Let_def)

text \<open>The entry and the archived row appear together, whether the job is still live or not.\<close>

lemma dead_letter_in_eq:
  assumes ok: "db_ok s" and fresh: "uuid e k \<notin> dl_id ` set (dead_letter s)"
  shows "dead_letter_in e k j err md sh now s =
    Inr (archive_rows (map (dead_row now err) (filter (\<lambda>r. jid r = jid j) (jobs s)))
      (s\<lparr>dead_letter := dead_letter s @ [dlq_row e (uuid e k) j err md sh now]\<rparr>), ())"
    (is "_ = Inr (archive_rows (map _ ?live) ?s1, ())")
proof -
  have ins: "insert_dead_letter (dlq_row e (uuid e k) j err md sh now) s = Inr ?s1"
    using fresh by (simp add: insert_dead_letter_def bex_key)
  have ok1: "db_ok ?s1"
    using ok fresh by (intro db_ok_dead_letter) (auto simp: ok_defs)
  show ?thesis
  proof (cases "find (\<lambda>r. jid r = jid j) (jobs s)")
    case None
    then have "?live = []" by (auto simp: find_None_iff filter_empty_conv)
    then show ?thesis using ins None by (simp add: dead_letter_in_def)
  next
    case (Some row)
    then have row: "row \<in> set (jobs s)" "jid row = jid j" by (auto dest: find_key_SomeD)
    have "?live = [row]"
      using filter_key_single [OF db_ok_distinct(1) [OF ok] row(1)] row(2) by simp
    moreover have "archive_job_row (dead_row now err row) ?s1 = Inr (archive_rows [dead_row now err row] ?s1)"
      by (rule archive_settled(1) [OF ok1, of row]) (use row in simp_all)
    ultimately show ?thesis using ins Some by (simp add: dead_letter_in_def)
  qed
qed


lemma dead_letter_in_keeps: "tx_keeps (dead_letter_in e k j err md sh now)"
proof (rule tx_keepsI)
  fix s s' and a :: unit
  assume ok: "db_ok s" and run: "dead_letter_in e k j err md sh now s = Inr (s', a)"
  have fresh: "uuid e k \<notin> dl_id ` set (dead_letter s)"
    using run by (auto simp: dead_letter_in_def insert_dead_letter_def bex_key split: if_splits)
  let ?s1 = "s\<lparr>dead_letter := dead_letter s @ [dlq_row e (uuid e k) j err md sh now]\<rparr>"
  have ok1: "db_ok ?s1"
    using ok fresh by (intro db_ok_dead_letter) (auto simp: ok_defs)
  have "db_ok (archive_rows (map (dead_row now err) (filter (\<lambda>r. jid r = jid j) (jobs ?s1))) ?s1)"
    by (rule archive_live(2) [OF ok1 refl]) simp_all
  then show "db_ok s'" using run by (auto simp: dead_letter_in_eq [OF ok fresh])
qed

text \<open>
  The whole effect of dead-lettering: the transaction, then the cascade over the
  dependents in the state it left.
\<close>

lemma dead_letter_job_eq:
  assumes ok: "db_ok s" and fresh: "uuid e 0 \<notin> dl_id ` set (dead_letter s)"
    and s1_def: "s1 = archive_rows (map (dead_row (now_millis e) err) (filter (\<lambda>r. jid r = jid j) (jobs s)))
      (s\<lparr>dead_letter := dead_letter s @ [dlq_row e (uuid e 0) j err md sh (now_millis e)]\<rparr>)"
    and rows_def: "rows = map (cancel_row (now_millis e) (DEPENDENCY_FAILED @ '': '' @ jid j))
      (cascade_rows (jid j) (namespace j) s)"
  shows "dead_letter_job e j err md sh s = (archive_rows rows s1, Inr (map job_of_row rows))"
proof -
  have tx: "dead_letter_in e 0 j err md sh (now_millis e) s = Inr (s1, ())"
    unfolding s1_def by (rule dead_letter_in_eq [OF ok fresh])
  have ok1: "db_ok s1" by (rule tx_keepsD [OF dead_letter_in_keeps ok tx])
  have "dep_edge s1 = dep_edge s"
    unfolding s1_def by (intro ext) (simp add: dep_edge_def dependents_of_def)
  then have "cascade_rows (jid j) (namespace j) s1 = cascade_rows (jid j) (namespace j) s"
    unfolding cascade_rows_def by (auto simp: s1_def delete_where_def intro!: filter_cong)
  then show ?thesis
    using cascade_cancel_eq [OF ok1 refl] tx
    by (simp add: dead_letter_job_def write_transaction_def rows_def)
qed


section \<open>What resurrecting does\<close>

lemma retry_metadata_parsed:
  assumes "serde_roundtrip e"
  shows "\<exists>obj. parse_json e (retry_metadata e d) = Some (JObj obj)
    \<and> map_of obj DLQ_RETRY_COUNT_KEY = Some (JInt (wrap_i32 (dl_dlq_retry_count d + 1)))
    \<and> (\<forall>rk. dl_origin_job_id d = Some rk \<longrightarrow> rk \<noteq> '''' \<longrightarrow> map_of obj ORIGIN_JOB_ID_KEY = Some (JStr rk))"
  using assms
  by (simp add: retry_metadata_def serde_roundtrip_def Let_def stamp_origin_job_id_def
      nonempty_def update_conv' ORIGIN_JOB_ID_KEY_def DLQ_RETRY_COUNT_KEY_def)

lemma run_key_resurrected:
  assumes "serde_roundtrip e" and "dl_origin_job_id d = Some rk" and "rk \<noteq> ''''"
    and "metadata r = Some (retry_metadata e d)"
  shows "run_key e r = rk"
  using retry_metadata_parsed [OF assms(1), of d] assms(2-4)
  by (auto simp: run_key_def origin_job_id_def)

lemma dlq_retry_count_resurrected:
  assumes "serde_roundtrip e"
  shows "dlq_retry_count_of e (Some (retry_metadata e d)) = wrap_i32 (dl_dlq_retry_count d + 1)"
proof -
  have "in_i64 (wrap_i32 n)" for n
    using in_i32_wrap [of n] by (simp add: in_i32_def i32_min_def i32_max_def i64_defs)
  then show ?thesis
    using retry_metadata_parsed [OF assms, of d] by (auto simp: dlq_retry_count_of_def)
qed

text \<open>The row the resurrected job is inserted as.\<close>

definition resurrected_row :: "env \<Rightarrow> dead_letter_row \<Rightarrow> job_row" where
  "resurrected_row e d =
     (let j = into_job (uuid e 0) (now_millis e) (resurrected e d)
      in new_job_row (extract_topic_subscription e (job_notes j)) j)"

lemma resurrected_row_sel [simp]:
  "jid (resurrected_row e d) = uuid e 0" "queue (resurrected_row e d) = dl_queue d"
  "task_name (resurrected_row e d) = dl_task_name d" "payload (resurrected_row e d) = dl_payload d"
  "priority (resurrected_row e d) = dl_priority d" "namespace (resurrected_row e d) = dl_namespace d"
  "max_retries (resurrected_row e d) = dl_max_retries d" "retry_count (resurrected_row e d) = 0"
  "timeout_ms (resurrected_row e d) = dl_timeout_ms d" "job_notes (resurrected_row e d) = dl_notes d"
  "result_ttl_ms (resurrected_row e d) = dl_result_ttl_ms d"
  "enqueued_by (resurrected_row e d) = dl_enqueued_by d"
  "metadata (resurrected_row e d) = Some (retry_metadata e d)"
  "row_status (resurrected_row e d) = status_i32 Pending" "unique_key (resurrected_row e d) = None"
  "scheduled_at (resurrected_row e d) = now_millis e" "expires_at (resurrected_row e d) = None"
  "\<not> row_has_deps (resurrected_row e d)"
  by (simp_all add: resurrected_row_def resurrected_def into_job_def new_job_row_def row_defs Let_def)

lemma retry_dead_eq:
  assumes ok: "db_ok s"
  shows "retry_dead e i ns s =
    (case find (\<lambda>d. dl_id d = i \<and> in_namespace (dl_namespace d) ns) (dead_letter s) of
       None \<Rightarrow> (s, Inl (JobNotFound i))
     | Some d \<Rightarrow>
         if uuid e 0 \<in> live_ids s then (s, Inl (Storage UniqueViolation))
         else (s\<lparr>jobs := jobs s @ [resurrected_row e d],
                 dead_letter := delete_where (\<lambda>d. dl_id d = i) (dead_letter s)\<rparr>, Inr (uuid e 0)))"
proof -
  have dist: "distinct (map dl_id (dead_letter s))" using ok by (simp add: ok_defs)
  have tx: "retry_dead_tx e i (into_job (uuid e 0) (now_millis e) (resurrected e d)) s =
      (if uuid e 0 \<in> live_ids s then Inl (Storage UniqueViolation)
       else Inr (s\<lparr>jobs := jobs s @ [resurrected_row e d],
                  dead_letter := delete_where (\<lambda>d. dl_id d = i) (dead_letter s)\<rparr>, uuid e 0))"
    if "find (\<lambda>d. dl_id d = i) (dead_letter s) = Some d" for d
  proof -
    let ?j = "into_job (uuid e 0) (now_millis e) (resurrected e d)"
    have "insert_job_row (new_job_row (extract_topic_subscription e (job_notes ?j)) ?j) s =
        (if uuid e 0 \<in> live_ids s then Inl (Storage UniqueViolation)
         else Inr (s\<lparr>jobs := jobs s @ [resurrected_row e d]\<rparr>))"
      unfolding resurrected_row_def [symmetric, unfolded Let_def]
      by (simp add: insert_job_row_def unique_indexed_def bex_key)
    moreover have "jid ?j = uuid e 0" by (simp add: into_job_def)
    moreover have "count_where (\<lambda>d. dl_id d = i) (dead_letter s) \<noteq> 0"
      using find_SomeD [OF that] by (auto simp: count_where_0)
    ultimately show ?thesis by (simp add: retry_dead_tx_def)
  qed
  show ?thesis unfolding retry_dead_def find_key_check [OF dist]
    by (auto simp: tx write_transaction_def split: option.split)
qed

section \<open>What shedding does\<close>

abbreviation shed_row :: "env \<Rightarrow> job \<Rightarrow> job_row" where
  "shed_row e j \<equiv> new_job_row (extract_topic_subscription e (job_notes j)) (without_keys j)"

lemma without_keys_sel [simp]:
  "jid (without_keys j) = jid j" "unique_key (without_keys j) = None"
  "job_notes (without_keys j) = job_notes j"
  by (simp_all add: without_keys_def)

lemma shed_one:
  "and_then (insert_job_row (shed_row e j) s) (dead_letter_in e k (without_keys j) err md True now) =
    (if jid j \<in> live_ids s \<or> uuid e k \<in> dl_id ` set (dead_letter s) \<or> jid j \<in> archived_ids s
     then Inl (Storage UniqueViolation)
     else Inr (archive_rows [dead_row now err (shed_row e j)] (s\<lparr>dead_letter := dead_letter s
            @ [dlq_row e (uuid e k) (without_keys j) err md True now]\<rparr>), ()))"
proof (cases "jid j \<in> live_ids s")
  case True
  then show ?thesis by (simp add: insert_job_row_def bex_key)
next
  case False
  let ?r = "shed_row e j"
  have ins: "insert_job_row ?r s = Inr (s\<lparr>jobs := jobs s @ [?r]\<rparr>)"
    using False by (simp add: insert_job_row_def bex_key unique_indexed_def)
  have nolive: "\<not> jid x = jid j" if "x \<in> set (jobs s)" for x
    using that False by (metis imageI)
  have f: "find (\<lambda>r. jid r = jid j) (jobs s @ [?r]) = Some ?r"
    by (rule find_snoc) (simp_all add: nolive)
  have del: "delete_where (\<lambda>x. jid x = jid j) (jobs s @ [?r]) = delete_where (\<lambda>x. jid x = jid j) (jobs s)"
    by (simp add: delete_where_def)
  show ?thesis unfolding ins
    using False f del
    by (simp add: dead_letter_in_def insert_dead_letter_def bex_key archive_job_row_eq archive_rows_def)
qed

lemma shed_each_Cons:
  "shed_each e k ((j, err) # rest) md now s =
     and_then (and_then (insert_job_row (shed_row e j) s) (dead_letter_in e k (without_keys j) err md True now))
       (\<lambda>(s2, _). shed_each e (Suc k) rest md now s2)"
  by (simp add: Let_def and_then_assoc)

lemma shed_each_keeps: "db_ok s \<Longrightarrow> shed_each e k xs md now s = Inr s' \<Longrightarrow> db_ok s'"
proof (induction xs arbitrary: k s)
  case (Cons x xs)
  obtain j err where x: "x = (j, err)" by (cases x)
  let ?s = "s\<lparr>dead_letter := dead_letter s @ [dlq_row e (uuid e k) (without_keys j) err md True now]\<rparr>"
  let ?s1 = "archive_rows [dead_row now err (shed_row e j)] ?s"
  from Cons.prems(2) have new: "jid j \<notin> live_ids s" "uuid e k \<notin> dl_id ` set (dead_letter s)"
    "jid j \<notin> archived_ids s" and rest: "shed_each e (Suc k) xs md now ?s1 = Inr s'"
    unfolding x shed_each_Cons shed_one by (auto simp: res_simps split: if_splits)
  have "db_ok ?s" using Cons.prems(1) new(2) by (intro db_ok_dead_letter) (auto simp: ok_defs)
  then have "db_ok ?s1" using new by (intro archive_row_keeps) simp_all
  then show ?case using Cons.IH rest by blast
qed simp

text \<open>The rows of a whole batch: nothing is ever live, one archived row and one entry per job.\<close>

lemma shed_each_eq:
  assumes "inj (uuid e)"
  shows "distinct (map (jid \<circ> fst) xs) \<Longrightarrow> (\<forall>x\<in>set xs. jid (fst x) \<notin> live_ids s \<union> archived_ids s) \<Longrightarrow>
    (\<forall>n\<ge>k. uuid e n \<notin> dl_id ` set (dead_letter s)) \<Longrightarrow>
    \<exists>s'. shed_each e k xs md now s = Inr s' \<and> jobs s' = jobs s
      \<and> archived_jobs s' = archived_jobs s @ map (\<lambda>(j, err). archived_of_row (dead_row now err (shed_row e j))) xs
      \<and> dead_letter s' = dead_letter s
          @ map2 (\<lambda>n (j, err). dlq_row e (uuid e n) (without_keys j) err md True now) [k..<k + length xs] xs"
proof (induction xs arbitrary: k s)
  case (Cons x xs)
  obtain j err where x: "x = (j, err)" by (cases x)
  let ?d = "dlq_row e (uuid e k) (without_keys j) err md True now"
  let ?s1 = "archive_rows [dead_row now err (shed_row e j)] (s\<lparr>dead_letter := dead_letter s @ [?d]\<rparr>)"
  have new: "jid j \<notin> live_ids s" "uuid e k \<notin> dl_id ` set (dead_letter s)" "jid j \<notin> archived_ids s"
    using Cons.prems x by auto
  have live: "jobs ?s1 = jobs s"
    using delete_where_fresh [OF new(1)] by simp
  have "\<forall>x\<in>set xs. jid (fst x) \<notin> live_ids ?s1 \<union> archived_ids ?s1"
    unfolding live
  proof
    fix y
    assume y: "y \<in> set xs"
    have "jid j \<notin> (jid \<circ> fst) ` set xs" using Cons.prems(1) x by simp
    then have "jid (fst y) \<noteq> jid j" using imageI [OF y, of "jid \<circ> fst"] by (auto simp only: comp_apply)
    then show "jid (fst y) \<notin> live_ids s \<union> archived_ids ?s1" using Cons.prems(2) y by auto
  qed
  moreover have "\<forall>n\<ge>Suc k. uuid e n \<notin> dl_id ` set (dead_letter ?s1)"
    using Cons.prems(3) assms by (auto simp: inj_eq)
  ultimately obtain s' where "shed_each e (Suc k) xs md now ?s1 = Inr s'" "jobs s' = jobs ?s1"
    "archived_jobs s' = archived_jobs ?s1 @ map (\<lambda>(j, err). archived_of_row (dead_row now err (shed_row e j))) xs"
    "dead_letter s' = dead_letter ?s1
       @ map2 (\<lambda>n (j, err). dlq_row e (uuid e n) (without_keys j) err md True now) [Suc k..<Suc k + length xs] xs"
    using Cons.IH [of ?s1 "Suc k"] Cons.prems(1) by auto
  moreover have "[k..<k + length (x # xs)] = k # [Suc k..<Suc k + length xs]"
    by (simp add: upt_conv_Cons del: upt_Suc)
  ultimately show ?case unfolding x shed_each_Cons shed_one using new live
    by (simp del: upt_Suc)
qed simp


section \<open>The contracts the queue provides\<close>

interpretation dlq_table: purged_table db_ok dead_letter put_dead dl_id
proof
  show "distinct (map dl_id (dead_letter s))" if "db_ok s" for s
    using that by (simp add: ok_defs)
  then show "db_ok (put_dead (delete_where p (dead_letter s)) s)" if "db_ok s" for s p
    using that by (intro db_ok_dead_letter distinct_map_delete_where) simp_all
qed simp_all

abbreviation dead_key :: "dead_job \<Rightarrow> millis \<times> string" where
  "dead_key d \<equiv> (dj_failed_at d, dj_id d)"

definition matching_dead ::
  "string option \<Rightarrow> string option \<Rightarrow> string option \<Rightarrow> db \<Rightarrow> dead_job list" where
  "matching_dead q t ns s = map dead_job_from_narrow (filter (dead_matches q t ns) (dead_letter s))"

lemma dead_job_sel [simp]:
  "dj_id (dead_job_from_narrow d) = dl_id d" "dj_failed_at (dead_job_from_narrow d) = dl_failed_at d"
  "dj_dlq_retry_count (dead_job_from_narrow d) = dl_dlq_retry_count d"
  by (simp_all add: dead_job_from_narrow_def dead_job_of_row_def)

lemma dead_past_cursor_iff: "dead_past_cursor c d \<longleftrightarrow> after_cursor c (dl_failed_at d, dl_id d)"
  by (cases c) (auto simp: dead_past_cursor_def)

interpretation dead_pages: keyset_listing db_ok "matching_dead q t ns" dead_key
  "\<lambda>s n c. list_dead_filtered_after q t n c ns s" for q t ns
proof
  fix s :: db and n :: int and c :: "(millis \<times> string) option"
  assume "db_ok s" and n: "0 < n"
  have "filter (\<lambda>d. dead_past_cursor c d \<and> dead_matches q t ns d) (dead_letter s)
      = filter (\<lambda>d. after_cursor c (dl_failed_at d, dl_id d)) (filter (dead_matches q t ns) (dead_letter s))"
    by (simp add: dead_past_cursor_iff conj_commute)
  then show "list_dead_filtered_after q t n c ns s =
      take (nat n) (order_desc dead_key (filter (\<lambda>r. after_cursor c (dead_key r)) (matching_dead q t ns s)))"
    using n by (simp add: list_dead_filtered_after_def sql_limit_def matching_dead_def order_desc_map
        filter_map comp_def take_map del: filter_filter)
next
  fix s :: db
  assume "db_ok s"
  then have "distinct (map dl_id (filter (dead_matches q t ns) (dead_letter s)))"
    by (simp add: ok_defs distinct_map_filter)
  then show "distinct (map dead_key (matching_dead q t ns s))"
    by (auto simp: matching_dead_def distinct_map inj_on_def)
qed

section \<open>The operations keep the invariant\<close>

lemma dead_letter_job_keeps: "db_ok s \<Longrightarrow> db_ok (fst (dead_letter_job e j err md sh s))"
  using op_keepsD [OF op_keeps_write [OF dead_letter_in_keeps], of s e 0 j err md sh "now_millis e"]
  by (auto simp: dead_letter_job_def cascade_cancel_keeps split: prod.splits sum.splits)

lemma discard_result_fst [simp]: "fst (discard_result f s) = fst (f s)"
  by (simp add: discard_result_def split: prod.split)

lemma shed_new_jobs_keeps: "db_ok s \<Longrightarrow> db_ok (fst (shed_new_jobs e js md s))"
  by (auto simp: shed_new_jobs_def res_simps split: sum.split
      intro!: write_transaction_keeps elim: shed_each_keeps)

lemma row_ok_resurrected: "row_ok (resurrected_row e d)"
  by (simp add: row_ok_def resurrected_row_def Let_def into_job_def)

lemma db_ok_delete_dead: "db_ok s \<Longrightarrow> db_ok (put_dead (delete_where p (dead_letter s)) s)"
  by (rule dlq_table.ok_delete)

lemma retry_dead_keeps:
  assumes ok: "db_ok s" and "fresh_ids e s"
  shows "db_ok (fst (retry_dead e i ns s))"
proof -
  have "db_ok (s\<lparr>jobs := jobs s @ [resurrected_row e d],
      dead_letter := delete_where (\<lambda>d. dl_id d = i) (dead_letter s)\<rparr>)"
    if new: "uuid e 0 \<notin> live_ids s" for d
  proof -
    let ?s1 = "s\<lparr>jobs := jobs s @ [resurrected_row e d]\<rparr>"
    have "insert_job_row (resurrected_row e d) s = Inr ?s1"
      using new by (simp add: insert_job_row_def unique_indexed_def bex_key)
    then have "db_ok ?s1"
      by (rule insert_job_row_keeps [OF _ ok row_ok_resurrected]) (use assms(2) in simp)
    from db_ok_delete_dead [OF this, of "\<lambda>d. dl_id d = i"] show ?thesis by simp
  qed
  then show ?thesis unfolding retry_dead_eq [OF ok] using ok by (simp split: option.split)
qed

lemma purge_dead_drain_keeps:
  "db_ok s \<Longrightarrow> db_ok (fst (drain_batches (purge_rows_where dead_letter put_dead dl_id p) s))"
  using dlq_table.purge.drain_total [of s p] by auto

lemma dead_sweeps_keep:
  assumes "db_ok s"
  shows "db_ok (fst (purge_dead older ns s))" and "db_ok (fst (purge_dead_by_task t ns s))"
    and "db_ok (fst (trim_dead_over ns keep s))" and "db_ok (fst (delete_dead i ns s))"
    and "db_ok (fst (purge_dead_with_ttl e cutoff s))"
proof -
  show "db_ok (fst (purge_dead older ns s))"
    unfolding purge_dead_def by (rule purge_dead_drain_keeps [OF assms])
  show "db_ok (fst (purge_dead_by_task t ns s))" "db_ok (fst (delete_dead i ns s))"
    using db_ok_delete_dead [OF assms] by (simp_all add: purge_dead_by_task_def delete_dead_def Let_def)
  show "db_ok (fst (trim_dead_over ns keep s))"
    unfolding trim_dead_over_def
    by (rule trim_oldest_keeps [OF _ assms]) (simp add: rows_batch_fst db_ok_delete_dead)
  show "db_ok (fst (purge_dead_with_ttl e cutoff s))"
  proof -
    let ?P = "\<lambda>p. drain_batches (purge_rows_where dead_letter put_dead dl_id p)"
    obtain s1 r1 where 1: "(case cutoff of Some c \<Rightarrow> ?P (dead_past_cutoff c) s | None \<Rightarrow> (s, Inr 0)) = (s1, r1)"
      by fastforce
    have "db_ok s1" using 1 assms purge_dead_drain_keeps [OF assms]
      by (cases cutoff) (auto, metis fst_conv)
    then have "db_ok (fst (?P (dead_past_ttl (now_millis e)) s1))" by (rule purge_dead_drain_keeps)
    then show ?thesis using 1 \<open>db_ok s1\<close>
      by (auto simp: purge_dead_with_ttl_def Let_def split: sum.splits prod.splits)
  qed
qed

lemmas dead_letter_all_keep = dead_letter_job_keeps shed_new_jobs_keeps retry_dead_keeps dead_sweeps_keep


section \<open>Properties\<close>

text \<open>
  C9. Dead-lettering a job always succeeds and is complete: one entry with the job's data is
  added, the job (if still live) leaves the live table and appears in the archive as \<open>Dead\<close>
  with the error, its step memo and its claim are gone, and every pending transitive
  dependent in the job's namespace is archived as cancelled with the failed job named.
\<close>

theorem dead_letter_effect:
  assumes "db_ok s" and "uuid e 0 \<notin> dl_id ` set (dead_letter s)"
  shows "dead_letter_job e j err md sh s =
    (let dead = map (dead_row (now_millis e) err) (filter (\<lambda>r. jid r = jid j) (jobs s));
         deps = map (cancel_row (now_millis e) (DEPENDENCY_FAILED @ '': '' @ jid j))
           (filter (\<lambda>r. ((dep_edge s)\<^sup>*\<^sup>* (jid j) (jid r) \<and> jid r \<noteq> jid j)
              \<and> row_status r = status_i32 Pending \<and> job_in_namespace (namespace r) (namespace j)) (jobs s))
     in (archive_rows (dead @ deps) (s\<lparr>dead_letter := dead_letter s
           @ [dlq_row e (uuid e 0) j err md sh (now_millis e)]\<rparr>), Inr (map job_of_row deps)))"
  unfolding dead_letter_job_eq [OF assms refl refl] Let_def archive_rows_append
  by (simp add: cascade_rows_def)

lemma no_edges: "(dep_edge (live_db rows))\<^sup>*\<^sup>* x y \<longleftrightarrow> y = x"
proof
  show "(dep_edge (live_db rows))\<^sup>*\<^sup>* x y \<Longrightarrow> y = x"
    by (induction rule: rtranclp_induct) (auto simp: dep_edge_def dependents_of_def)
qed simp

theorem dead_letter_effect_witness:
  "\<exists>s'. dead_letter_job (plain_env 9) (job_of_row (plain_row ''a'' ''q'' 0 5)) ''boom'' None False (live_db demo_rows)
      = (s', Inr []) \<and> map dl_error (dead_letter s') = [Some ''boom'']"
  using dead_letter_effect [OF demo_ok, of "plain_env 9" "job_of_row (plain_row ''a'' ''q'' 0 5)" "''boom''" None False]
  by (simp add: no_edges dlq_row_def Let_def cong: conj_cong)

text \<open>
  C22. A job that dies and is resurrected continues the same run: if a job is dead-lettered,
  with or without replacement metadata, and the entry is retried, the new pending job
  carries the old payload, task, queue and tenant, its run key (hence every idempotency key
  of its steps) is that of the dead job, and its attempt counter is one higher. The id
  source must be fresh and \<open>serde_json\<close> must read back what it printed.
\<close>

theorem dlq_round_trip_keeps_run:
  assumes "db_ok s" and "uuid e 0 \<notin> dl_id ` set (dead_letter s)" and "jid j \<noteq> ''''"
    and "serde_roundtrip e'" and "s1 = fst (dead_letter_job e j err md sh s)"
    and "uuid e' 0 \<notin> live_ids s1"
  shows "\<exists>r. retry_dead e' (uuid e 0) (namespace j) s1 =
      (s1\<lparr>jobs := jobs s1 @ [r], dead_letter := delete_where (\<lambda>d. dl_id d = uuid e 0) (dead_letter s1)\<rparr>,
       Inr (uuid e' 0))
    \<and> row_status r = status_i32 Pending \<and> queue r = queue j \<and> task_name r = task_name j
    \<and> payload r = payload j \<and> namespace r = namespace j \<and> job_notes r = job_notes j
    \<and> max_retries r = max_retries j \<and> timeout_ms r = timeout_ms j \<and> enqueued_by r = enqueued_by j
    \<and> (\<forall>k. idempotency_key (run_key e' r) k = idempotency_key (run_key e j) k)
    \<and> dlq_retry_count_of e' (metadata r) = wrap_i32 (dlq_retry_count_of e (metadata j) + 1)"
proof -
  let ?d = "dlq_row e (uuid e 0) j err md sh (now_millis e)"
  have s1: "dead_letter s1 = dead_letter s @ [?d]"
    using assms(5) by (simp add: dead_letter_job_eq [OF assms(1,2) refl refl])
  have ok1: "db_ok s1" unfolding assms(5) by (rule dead_letter_job_keeps [OF assms(1)])
  have f: "find (\<lambda>d. dl_id d = uuid e 0 \<and> in_namespace (dl_namespace d) (namespace j)) (dead_letter s1) = Some ?d"
    by (rule find_key_conj) (use ok1 s1 in \<open>simp_all add: ok_defs in_namespace_def split: option.split\<close>)
  have "run_key e j \<noteq> ''''"
    using assms(3) by (auto simp: run_key_def origin_job_id_def split: option.splits if_splits)
  then have "run_key e' (resurrected_row e' ?d) = run_key e j"
    by (intro run_key_resurrected [OF assms(4), of ?d]) simp_all
  then show ?thesis
    using assms(6) dlq_retry_count_resurrected [OF assms(4), of ?d]
    by (intro exI [of _ "resurrected_row e' ?d"])
       (simp add: retry_dead_eq [OF ok1] f, simp add: dlq_row_def Let_def)
qed

lemma demo_dead:
  "\<exists>s1. dead_letter_job (coded_env 9) (job_of_row (plain_row ''a'' ''q'' 0 5)) ''boom'' (Some ''why'') False
      (live_db demo_rows) = (s1, Inr []) \<and> ''u'' \<notin> live_ids s1"
  using dead_letter_job_eq [OF demo_ok _ refl refl, of "coded_env 9" "job_of_row (plain_row ''a'' ''q'' 0 5)"
      "''boom''" "Some ''why''" False]
  by (auto simp: no_edges cascade_rows_def delete_where_def demo_rows_def cong: conj_cong)

theorem dlq_round_trip_keeps_run_witness:
  "\<exists>s1 s2 r. dead_letter_job (coded_env 9) (job_of_row (plain_row ''a'' ''q'' 0 5)) ''boom'' (Some ''why'') False
        (live_db demo_rows) = (s1, Inr [])
    \<and> retry_dead (coded_env 20) ''u'' None s1 = (s2, Inr ''u'') \<and> r \<in> set (jobs s2)
    \<and> idempotency_key (run_key (coded_env 20) r) ''step'' = ''a:step''"
proof -
  obtain s1 where s1: "dead_letter_job (coded_env 9) (job_of_row (plain_row ''a'' ''q'' 0 5)) ''boom''
      (Some ''why'') False (live_db demo_rows) = (s1, Inr [])" "''u'' \<notin> live_ids s1"
    using demo_dead by blast
  have "run_key (coded_env 9) (job_of_row (plain_row ''a'' ''q'' 0 5)) = ''a''"
    by (simp add: run_key_def origin_job_id_def)
  then show ?thesis
    using s1 dlq_round_trip_keeps_run [OF demo_ok, of "coded_env 9" "job_of_row (plain_row ''a'' ''q'' 0 5)"
        "coded_env 20" s1 "''boom''" "Some ''why''" False]
    by (auto simp: idempotency_key_def)
qed

text \<open>
  An entry is resurrected at most once. A successful retry consumes exactly the entry it
  names, adds exactly one job, and every later retry of the same id, by any tenant, is
  refused with \<open>JobNotFound\<close> and changes nothing.
\<close>

theorem retry_dead_once:
  assumes "db_ok s" and "fresh_ids e s" and "retry_dead e i ns s = (s', Inr new)"
  shows "(\<exists>d. d \<in> set (dead_letter s) \<and> dl_id d = i \<and> in_namespace (dl_namespace d) ns
      \<and> jobs s' = jobs s @ [resurrected_row e d])
    \<and> dead_letter s' = filter (\<lambda>d. dl_id d \<noteq> i) (dead_letter s)
    \<and> new \<notin> live_ids s \<and> new \<notin> archived_ids s
    \<and> retry_dead e2 i ns2 s' = (s', Inl (JobNotFound i))"
proof -
  obtain d where d: "find (\<lambda>d. dl_id d = i \<and> in_namespace (dl_namespace d) ns) (dead_letter s) = Some d"
    and new: "uuid e 0 \<notin> live_ids s" "new = uuid e 0"
    and s': "s' = s\<lparr>jobs := jobs s @ [resurrected_row e d],
      dead_letter := delete_where (\<lambda>d. dl_id d = i) (dead_letter s)\<rparr>"
    using assms(3) by (auto simp: retry_dead_eq [OF assms(1)] split: option.splits if_splits)
  have "retry_dead e2 i ns2 s' = (s', Inl (JobNotFound i))"
    by (auto simp: retry_dead_def s' delete_where_def find_None_iff split: option.split dest: find_key_SomeD)
  then show ?thesis using find_SomeD [OF d] new assms(2) by (auto simp: s' delete_where_def)
qed

theorem retry_dead_once_witness:
  "\<exists>s1 s2. retry_dead (coded_env 20) ''u'' None s1 = (s2, Inr ''u'')
     \<and> retry_dead (coded_env 21) ''u'' (Some ''t'') s2 = (s2, Inl (JobNotFound ''u''))"
proof -
  let ?d = "dlq_row (plain_env 9) ''u'' (job_of_row (plain_row ''a'' ''q'' 0 5)) ''boom'' None False 9"
  let ?s = "(live_db [])\<lparr>dead_letter := [?d]\<rparr>"
  have ok: "db_ok ?s" by (rule db_ok_dead_letter) (simp_all add: db_ok_live_db unique_ok_def)
  have "retry_dead (coded_env 20) ''u'' None ?s =
      (?s\<lparr>jobs := [resurrected_row (coded_env 20) ?d], dead_letter := []\<rparr>, Inr ''u'')"
    by (simp add: retry_dead_eq [OF ok] in_namespace_def delete_where_def)
  from this retry_dead_once [OF ok _ this, of "coded_env 21" "Some ''t''"] show ?thesis
    by (intro exI conjI) (auto simp: fresh_ids_def)
qed


definition dead_view :: "string \<Rightarrow> db \<Rightarrow> db" where
  "dead_view n s = s\<lparr>dead_letter := filter (\<lambda>d. dl_namespace d = Some n) (dead_letter s)\<rparr>"

definition foreign_dead :: "string \<Rightarrow> db \<Rightarrow> dead_letter_row list" where
  "foreign_dead n s = filter (\<lambda>d. dl_namespace d \<noteq> Some n) (dead_letter s)"

lemma in_namespace_Some [simp]: "in_namespace r (Some n) \<longleftrightarrow> r = Some n"
  by (simp add: in_namespace_def)

lemma dead_view_ok: "db_ok s \<Longrightarrow> db_ok (dead_view n s)"
  unfolding dead_view_def by (rule db_ok_dead_letter) (simp_all add: ok_defs distinct_map_filter)

lemma dead_view_sel [simp]:
  "dead_letter (dead_view n s) = filter (\<lambda>d. dl_namespace d = Some n) (dead_letter s)"
  "jobs (dead_view n s) = jobs s"
  by (simp_all add: dead_view_def)

text \<open>
  C23. Tenants cannot see or touch each other's dead letters. Every operation called for the
  namespace \<open>n\<close> answers exactly as if the entries of all other namespaces did not exist (an
  id that belongs to someone else is indistinguishable from an unknown one), and leaves
  those entries in place.
\<close>

theorem dead_letters_hide_other_tenants:
  assumes "db_ok s"
  shows "get_dead i (Some n) s = get_dead i (Some n) (dead_view n s)
    \<and> list_dead lim off (Some n) s = list_dead lim off (Some n) (dead_view n s)
    \<and> list_dead_filtered_after q t lim c (Some n) s = list_dead_filtered_after q t lim c (Some n) (dead_view n s)
    \<and> snd (retry_dead e i (Some n) s) = snd (retry_dead e i (Some n) (dead_view n s))
    \<and> snd (delete_dead i (Some n) s) = snd (delete_dead i (Some n) (dead_view n s))
    \<and> snd (purge_dead_by_task tk (Some n) s) = snd (purge_dead_by_task tk (Some n) (dead_view n s))
    \<and> foreign_dead n (fst (retry_dead e i (Some n) s)) = foreign_dead n s
    \<and> foreign_dead n (fst (delete_dead i (Some n) s)) = foreign_dead n s
    \<and> foreign_dead n (fst (purge_dead_by_task tk (Some n) s)) = foreign_dead n s"
proof -
  have dist: "distinct (map dl_id (dead_letter s))" using assms by (simp add: ok_defs)
  have get: "get_dead i (Some n) s' = map_option dead_job_of_row
      (find (\<lambda>d. dl_id d = i \<and> dl_namespace d = Some n) (dead_letter s'))" if "db_ok s'" for s'
    using that by (auto simp: get_dead_def find_key_check ok_defs split: option.split)
  have lookup: "find (\<lambda>d. dl_id d = i \<and> dl_namespace d = Some n) (dead_letter (dead_view n s))
      = find (\<lambda>d. dl_id d = i \<and> dl_namespace d = Some n) (dead_letter s)"
    by (simp add: find_filter)
  have "snd (retry_dead e i (Some n) s) = snd (retry_dead e i (Some n) (dead_view n s))"
    unfolding retry_dead_eq [OF assms] retry_dead_eq [OF dead_view_ok [OF assms]] in_namespace_Some lookup
    by (simp split: option.split)
  moreover have "foreign_dead n (fst (retry_dead e i (Some n) s)) = foreign_dead n s"
  proof (cases "find (\<lambda>d. dl_id d = i \<and> dl_namespace d = Some n) (dead_letter s)")
    case (Some d)
    then have d: "d \<in> set (dead_letter s)" "dl_id d = i" "dl_namespace d = Some n"
      using find_SomeD [OF Some] by auto
    have "dl_id x = i \<Longrightarrow> dl_namespace x = Some n" if "x \<in> set (dead_letter s)" for x
      using distinct_map_key [OF dist d(1) that] d(2,3) by simp
    then show ?thesis
      by (auto simp: retry_dead_eq [OF assms] Some foreign_dead_def delete_where_def intro!: filter_cong)
  qed (simp add: retry_dead_eq [OF assms])
  ultimately show ?thesis
    using get [OF assms] get [OF dead_view_ok [OF assms]] lookup
    by (auto simp: list_dead_def list_dead_filtered_after_def dead_matches_def delete_dead_def
        purge_dead_by_task_def foreign_dead_def delete_where_def count_where_def Let_def conj_ac
        cong: conj_cong intro!: filter_cong arg_cong [where f = length])
qed


definition two_tenants :: db where
  "two_tenants = (live_db [])\<lparr>dead_letter :=
     [dlq_row (plain_env 9) ''d1'' ((job_of_row (plain_row ''a'' ''q'' 0 5))\<lparr>namespace := Some ''n''\<rparr>) ''boom'' None False 9,
      dlq_row (plain_env 9) ''d2'' ((job_of_row (plain_row ''b'' ''q'' 0 5))\<lparr>namespace := Some ''m''\<rparr>) ''boom'' None False 9]\<rparr>"

lemma two_tenants_ok: "db_ok two_tenants"
  unfolding two_tenants_def by (rule db_ok_dead_letter) (simp_all add: db_ok_live_db unique_ok_def)

theorem dead_letters_hide_other_tenants_witness:
  "get_dead ''d2'' (Some ''n'') two_tenants = None
   \<and> snd (retry_dead (plain_env 10) ''d2'' (Some ''n'') two_tenants) = Inl (JobNotFound ''d2'')
   \<and> map dl_id (foreign_dead ''n'' (fst (purge_dead_by_task ''t'' (Some ''n'') two_tenants))) = [''d2'']"
proof -
  note hide = dead_letters_hide_other_tenants [OF two_tenants_ok, of "''d2''" "''n''" 0 0 None None None "plain_env 10" "''t''"]
  have "get_dead ''d2'' (Some ''n'') (dead_view ''n'' two_tenants) = None"
    "snd (retry_dead (plain_env 10) ''d2'' (Some ''n'') (dead_view ''n'' two_tenants)) = Inl (JobNotFound ''d2'')"
    by (simp_all add: get_dead_def retry_dead_def two_tenants_def)
  moreover have "map dl_id (foreign_dead ''n'' two_tenants) = [''d2'']"
    by (simp add: foreign_dead_def two_tenants_def)
  ultimately show ?thesis using hide by simp
qed

lemma shed_reasons_eq:
  "shed_reasons js =
     (case find (\<lambda>j. job_error j = None) js of
        Some j \<Rightarrow> Inl (Other (''shed job '' @ jid j @ '' carries no dead-letter reason''))
      | None \<Rightarrow> Inr (map (\<lambda>j. the (job_error j)) js))"
  by (induction js) (auto split: option.splits)

text \<open>
  C24. A job shed at the door is never live. With a reason on every job and fresh ids,
  \<open>shed_new_jobs\<close> succeeds, leaves the live table as it was, archives every job as \<open>Dead\<close>
  under its reason and adds one entry per job, flagged so that the automatic retry never
  lists it; a job without a reason makes it fail before anything is written.
\<close>

theorem shed_new_jobs_never_live:
  assumes "distinct (map jid js)" and "\<forall>j\<in>set js. jid j \<notin> live_ids s \<union> archived_ids s"
    and "inj (uuid e)" and "\<forall>n. uuid e n \<notin> dl_id ` set (dead_letter s)"
  shows "(if \<forall>j\<in>set js. job_error j \<noteq> None
     then \<exists>s'. shed_new_jobs e js md s = (s', Inr ()) \<and> jobs s' = jobs s
       \<and> map (\<lambda>a. (jid a, arch_status a, job_error a)) (archived_jobs s')
         = map (\<lambda>a. (jid a, arch_status a, job_error a)) (archived_jobs s)
           @ map (\<lambda>j. (jid j, status_i32 Dead, job_error j)) js
       \<and> map dl_original_job_id (dead_letter s') = map dl_original_job_id (dead_letter s) @ map jid js
       \<and> list_dead_for_retry cutoff cap ns qs lim s' = list_dead_for_retry cutoff cap ns qs lim s
     else \<exists>err. shed_new_jobs e js md s = (s, Inl err))"
proof (cases "\<forall>j\<in>set js. job_error j \<noteq> None")
  case False
  then obtain j where "find (\<lambda>j. job_error j = None) js = Some j"
    by (cases "find (\<lambda>j. job_error j = None) js") (auto simp: find_None_iff)
  then show ?thesis using False by (simp add: shed_new_jobs_def shed_reasons_eq)
next
  case True
  let ?f = "\<lambda>j. the (job_error j)"
  let ?xs = "zip js (map ?f js)"
  have xs: "?xs = map (\<lambda>j. (j, ?f j)) js" by (simp add: zip_map2 zip_same_conv_map)
  have reasons: "shed_reasons js = Inr (map ?f js)"
    using True by (auto simp: shed_reasons_eq find_None_iff split: option.split dest: find_SomeD)
  let ?D = "\<lambda>n (j, err). dlq_row e (uuid e n) (without_keys j) err md True (now_millis e)"
  obtain s' where s': "shed_each e 0 ?xs md (now_millis e) s = Inr s'" "jobs s' = jobs s"
    "archived_jobs s' = archived_jobs s
       @ map (\<lambda>(j, err). archived_of_row (dead_row (now_millis e) err (shed_row e j))) ?xs"
    "dead_letter s' = dead_letter s @ map2 ?D [0..<0 + length ?xs] ?xs"
    using shed_each_eq [OF assms(3), of ?xs s 0 md "now_millis e"] assms(1,2,4)
    by (auto simp: xs comp_def)
  have "map dl_original_job_id (map2 ?D [0..<length js] ?xs) = map jid js"
    unfolding xs by (rule nth_equalityI) simp_all
  moreover have "filter (retry_candidate cutoff cap ns qs) (map2 ?D [0..<length js] ?xs) = []"
    unfolding xs by (auto simp: filter_empty_conv retry_candidate_def)
  moreover have "shed_new_jobs e js md s = (s', Inr ())"
    using s'(1) by (simp add: shed_new_jobs_def reasons write_transaction_def)
  ultimately show ?thesis using True s'(2-4) unfolding xs
    by (auto simp: list_dead_for_retry_def)
qed


theorem shed_new_jobs_never_live_witness:
  "\<exists>s'. shed_new_jobs (plain_env 9) [(job_of_row (plain_row ''z'' ''q'' 0 5))\<lparr>job_error := Some ''over quota''\<rparr>]
        None (live_db demo_rows) = (s', Inr ())
    \<and> jobs s' = demo_rows \<and> map dl_original_job_id (dead_letter s') = [''z'']"
  using shed_new_jobs_never_live [of "[(job_of_row (plain_row ''z'' ''q'' 0 5))\<lparr>job_error := Some ''over quota''\<rparr>]"
      "live_db demo_rows" "plain_env 9" None 0 0 None "[]" 0]
  by (auto simp: inj_plain_env demo_rows_def)

end
