(* ===== verification/Claims.thy ===== *)
theory Claims
  imports Dead_Letter
begin

text \<open>
  Who may act on a running job. Distributed locks and execution claims
  (\<open>diesel_common/locks.rs\<close>, \<open>sqlite/locks.rs\<close>), the leases that identify one claim
  (\<open>lease.rs\<close>), and the fence on owner, attempt and epoch that every write of an attempt
  passes (\<open>resolve_attempt_fence\<close> of \<open>diesel_common/steps.rs\<close>).
\<close>

section \<open>Leases\<close>

text \<open>\<open>(rand::random::<u64>() >> 1) as i64\<close>: the bits of the word read as a signed integer.\<close>

definition mint_claim_epoch :: "64 word \<Rightarrow> int" where
  "mint_claim_epoch u = sint (drop_bit 1 u)"

fun epochs_agree :: "int option \<Rightarrow> int option \<Rightarrow> bool" where
  "epochs_agree (Some claim) (Some result) \<longleftrightarrow> claim = result"
| "epochs_agree _ _ \<longleftrightarrow> True"

fun lease_authorizes :: "int option \<Rightarrow> int option \<Rightarrow> bool" where
  "lease_authorizes (Some claim) (Some presented) \<longleftrightarrow> claim = presented"
| "lease_authorizes _ _ \<longleftrightarrow> False"

text \<open>\<open>i64::to_be_bytes\<close> and \<open>i64::from_be_bytes\<close>.\<close>

definition to_be_bytes :: "int \<Rightarrow> bytes" where
  "to_be_bytes x = map (\<lambda>i. word_of_int (x div 2 ^ (8 * i))) [7, 6, 5, 4, 3, 2, 1, 0]"

definition from_be_bytes :: "bytes \<Rightarrow> int" where
  "from_be_bytes bs = wrap_i64 (foldl (\<lambda>acc b. acc * 256 + uint b) 0 bs)"

text \<open>
  \<open>Lease::from_epoch\<close> and \<open>Lease::epoch\<close>. The base64 crate is a pair of functions, an
  encoder and a partial decoder.
\<close>

type_synonym lease = string

definition from_epoch :: "(bytes \<Rightarrow> string) \<Rightarrow> int \<Rightarrow> lease" where
  "from_epoch encode epoch = encode (to_be_bytes epoch)"

definition lease_epoch :: "(string \<Rightarrow> bytes option) \<Rightarrow> lease \<Rightarrow> int option" where
  "lease_epoch decode l =
     (case decode l of
        None \<Rightarrow> None
      | Some bs \<Rightarrow> if length bs = 8 then Some (from_be_bytes bs) else None)"

text \<open>
  \<open>Lease::from_wire\<close>: the text if it is UTF-8 (\<open>utf8\<close> is \<open>std::str::from_utf8\<close>) and names an
  epoch.
\<close>

definition from_wire :: "(bytes \<Rightarrow> string option) \<Rightarrow> (string \<Rightarrow> bytes option) \<Rightarrow> bytes \<Rightarrow> lease option" where
  "from_wire utf8 decode bs =
     (case utf8 bs of
        None \<Rightarrow> None
      | Some token \<Rightarrow> if lease_epoch decode token \<noteq> None then Some token else None)"

text \<open>\<open>LeaseBook\<close>: the lease of each job's current dispatch.\<close>

type_synonym lease_book = "string \<rightharpoonup> lease"

definition issue :: "string \<Rightarrow> lease \<Rightarrow> lease_book \<Rightarrow> lease_book" where
  "issue i l book = book(i \<mapsto> l)"

definition current :: "string \<Rightarrow> lease_book \<Rightarrow> lease option" where
  "current i book = book i"

definition is_current :: "string \<Rightarrow> lease \<Rightarrow> lease_book \<Rightarrow> bool" where
  "is_current i l book \<longleftrightarrow> (case book i of Some held \<Rightarrow> held = l | None \<Rightarrow> False)"

definition retire :: "string \<Rightarrow> lease \<Rightarrow> lease_book \<Rightarrow> lease_book" where
  "retire i l book = (if (case book i of Some held \<Rightarrow> held = l | None \<Rightarrow> False) then book(i := None) else book)"

definition forget :: "string \<Rightarrow> lease_book \<Rightarrow> lease_book" where
  "forget i book = book(i := None)"

section \<open>Distributed locks\<close>

text \<open>The deadline is a plain \<open>i64\<close> addition, \<open>now + ttl_ms\<close>.\<close>

definition acquire_lock :: "env \<Rightarrow> string \<Rightarrow> string \<Rightarrow> int \<Rightarrow> bool op" where
  "acquire_lock e n owner ttl = write_transaction (\<lambda>s.
     let now = now_millis e;
         held = (case find (\<lambda>l. lk_lock_name l = n) (distributed_locks s) of
                   Some l \<Rightarrow> lk_expires_at l > now | None \<Rightarrow> False)
     in if held then Inr (s, False)
        else Inr (s\<lparr>distributed_locks := delete_where (\<lambda>l. lk_lock_name l = n) (distributed_locks s)
                    @ [\<lparr>lk_lock_name = n, lk_owner_id = owner, lk_acquired_at = now,
                        lk_expires_at = wrap_i64 (now + ttl)\<rparr>]\<rparr>, True))"

definition release_lock :: "string \<Rightarrow> string \<Rightarrow> bool op" where
  "release_lock n owner s =
     (let p = (\<lambda>l. lk_lock_name l = n \<and> lk_owner_id l = owner)
      in (s\<lparr>distributed_locks := delete_where p (distributed_locks s)\<rparr>,
          Inr (0 < count_where p (distributed_locks s))))"

definition extend_lock :: "env \<Rightarrow> string \<Rightarrow> string \<Rightarrow> int \<Rightarrow> bool op" where
  "extend_lock e n owner ttl s =
     (let p = (\<lambda>l. lk_lock_name l = n \<and> lk_owner_id l = owner)
      in (s\<lparr>distributed_locks := update_where p
             (\<lambda>l. l\<lparr>lk_expires_at := wrap_i64 (now_millis e + ttl)\<rparr>) (distributed_locks s)\<rparr>,
          Inr (0 < count_where p (distributed_locks s))))"

definition get_lock_info :: "string \<Rightarrow> db \<Rightarrow> lock_row option" where
  "get_lock_info n s = find (\<lambda>l. lk_lock_name l = n) (distributed_locks s)"

definition reap_expired_locks :: "millis \<Rightarrow> nat op" where
  "reap_expired_locks now s =
     (let p = (\<lambda>l. lk_expires_at l \<le> now)
      in (s\<lparr>distributed_locks := delete_where p (distributed_locks s)\<rparr>,
          Inr (length (filter p (distributed_locks s)))))"

section \<open>Execution claims\<close>

definition insert_claim :: "string \<Rightarrow> string \<Rightarrow> millis \<Rightarrow> int option \<Rightarrow> db \<Rightarrow> queue_error + db" where
  "insert_claim i w now ep s =
     (if \<exists>c\<in>set (execution_claims s). cl_job_id c = i then Inl (Storage UniqueViolation)
      else Inr (s\<lparr>execution_claims := execution_claims s @
             [\<lparr>cl_job_id = i, cl_worker_id = w, cl_claimed_at = now, cl_epoch = ep,
               cl_settle_deadline_ms = None\<rparr>]\<rparr>))"

definition claim_execution :: "env \<Rightarrow> string \<Rightarrow> string \<Rightarrow> int option op" where
  "claim_execution e i w s =
     (let epoch = mint_claim_epoch (rand_u64 e 0)
      in (case insert_claim i w (now_millis e) (Some epoch) s of
            Inr s' \<Rightarrow> (s', Inr (Some epoch))
          | Inl err \<Rightarrow> (s, if err = Storage UniqueViolation then Inr None else Inl err)))"

fun claim_each :: "env \<Rightarrow> nat \<Rightarrow> string list \<Rightarrow> string \<Rightarrow> int option list tx" where
  "claim_each e k [] w s = Inr (s, [])"
| "claim_each e k (i # is) w s =
     (let epoch = mint_claim_epoch (rand_u64 e k)
      in (case insert_claim i w (now_millis e) (Some epoch) s of
            Inr s' \<Rightarrow> and_then (claim_each e (Suc k) is w s') (\<lambda>(s2, cs). Inr (s2, Some epoch # cs))
          | Inl err \<Rightarrow>
              if err = Storage UniqueViolation
              then and_then (claim_each e (Suc k) is w s) (\<lambda>(s2, cs). Inr (s2, None # cs))
              else Inl err))"

definition claim_execution_batch :: "env \<Rightarrow> string list \<Rightarrow> string \<Rightarrow> int option list op" where
  "claim_execution_batch e is w s =
     (if is = [] then (s, Inr []) else write_transaction (claim_each e 0 is w) s)"

definition complete_execution :: "string \<Rightarrow> string option \<Rightarrow> unit op" where
  "complete_execution i ns s =
     (if ns \<noteq> None \<and> get_job i ns s = None then (s, Inr ())
      else (s\<lparr>execution_claims := delete_where (\<lambda>c. cl_job_id c = i) (execution_claims s)\<rparr>, Inr ()))"

definition reclaim_execution :: "env \<Rightarrow> string \<Rightarrow> string \<Rightarrow> string \<Rightarrow> int option op" where
  "reclaim_execution e i expected new s =
     (let epoch = mint_claim_epoch (rand_u64 e 0);
          p = (\<lambda>c. cl_job_id c = i \<and> cl_worker_id c = expected)
      in (s\<lparr>execution_claims := update_where p
             (\<lambda>c. c\<lparr>cl_worker_id := new, cl_claimed_at := now_millis e, cl_epoch := Some epoch\<rparr>)
             (execution_claims s)\<rparr>,
          Inr (if 0 < count_where p (execution_claims s) then Some epoch else None)))"

definition purge_execution_claims :: "env \<Rightarrow> millis \<Rightarrow> nat op" where
  "purge_execution_claims e older s =
     (let p = (\<lambda>c. cl_claimed_at c < older
                 \<and> (case cl_settle_deadline_ms c of None \<Rightarrow> True | Some d \<Rightarrow> d < now_millis e))
      in (s\<lparr>execution_claims := delete_where p (execution_claims s)\<rparr>,
          Inr (length (filter p (execution_claims s)))))"

section \<open>The fence\<close>

definition lock_job_for_step_fence :: "string \<Rightarrow> db \<Rightarrow> (int \<times> int \<times> string option) option" where
  "lock_job_for_step_fence i s =
     map_option (\<lambda>r. (row_status r, retry_count r, namespace r)) (find (\<lambda>r. jid r = i) (jobs s))"

definition resolve_attempt_fence ::
  "env \<Rightarrow> string \<Rightarrow> string \<Rightarrow> int \<Rightarrow> int option \<Rightarrow> string option \<Rightarrow> bool \<Rightarrow> string option tx" where
  "resolve_attempt_fence e i owner attempt epoch ns reassert s =
     (case lock_job_for_step_fence i s of
        None \<Rightarrow> Inl (ClaimLost i)
      | Some (st, rc, job_ns) \<Rightarrow>
          let visible = (case ns of None \<Rightarrow> True | Some scope \<Rightarrow> job_ns = Some scope)
          in if \<not> visible \<or> st \<noteq> status_i32 Running \<or> rc \<noteq> attempt then Inl (ClaimLost i)
             else (case find (\<lambda>c. cl_job_id c = i) (execution_claims s) of
                     Some c \<Rightarrow>
                       if cl_worker_id c = owner \<and> \<not> epochs_agree (cl_epoch c) epoch then Inl (ClaimLost i)
                       else if cl_worker_id c = owner then Inr (s, job_ns)
                       else Inl (ClaimLost i)
                   | None \<Rightarrow>
                       if reassert
                       then and_then (insert_claim i owner (now_millis e) epoch s) (\<lambda>s'. Inr (s', job_ns))
                       else Inr (s, job_ns)))"

datatype attempt_fence = Authorized | Superseded

definition authorize_attempt ::
  "env \<Rightarrow> string \<Rightarrow> string \<Rightarrow> int \<Rightarrow> int option \<Rightarrow> string option \<Rightarrow> db \<Rightarrow> queue_error + attempt_fence" where
  "authorize_attempt e i owner attempt epoch ns s =
     (case resolve_attempt_fence e i owner attempt epoch ns False s of
        Inr _ \<Rightarrow> Inr Authorized
      | Inl (ClaimLost _) \<Rightarrow> Inr Superseded
      | Inl other \<Rightarrow> Inl other)"

section \<open>Dispatches accepted out of band\<close>

definition await_settle ::
  "env \<Rightarrow> string \<Rightarrow> string \<Rightarrow> int \<Rightarrow> int option \<Rightarrow> millis \<Rightarrow> string option \<Rightarrow> millis option op" where
  "await_settle e i owner attempt epoch deadline ns = write_transaction (\<lambda>s.
     case resolve_attempt_fence e i owner attempt epoch ns True s of
       Inl (ClaimLost _) \<Rightarrow> Inr (s, None)
     | Inl other \<Rightarrow> Inl other
     | Inr (s1, _) \<Rightarrow>
         let held = Option.bind (find (\<lambda>c. cl_job_id c = i) (execution_claims s1)) cl_settle_deadline_ms;
             d = (case held of None \<Rightarrow> deadline | Some h \<Rightarrow> max h deadline)
         in Inr (s1\<lparr>execution_claims := update_where (\<lambda>c. cl_job_id c = i)
                      (\<lambda>c. c\<lparr>cl_settle_deadline_ms := Some d\<rparr>) (execution_claims s1)\<rparr>, Some d))"

datatype settle_claimant = ByLease int | Expired millis | Abandoned
datatype settle_grant = Granted | Refused

definition may_settle :: "settle_claimant \<Rightarrow> claim_row \<Rightarrow> bool" where
  "may_settle who c =
     (case cl_settle_deadline_ms c of
        None \<Rightarrow> False
      | Some d \<Rightarrow> (case who of
            ByLease ep \<Rightarrow> cl_epoch c = Some ep
          | Expired now \<Rightarrow> d \<le> now
          | Abandoned \<Rightarrow> True))"

definition claim_settle :: "string \<Rightarrow> settle_claimant \<Rightarrow> string option \<Rightarrow> settle_grant op" where
  "claim_settle i who ns = write_transaction (\<lambda>s.
     if (case ns of
           None \<Rightarrow> False
         | Some scope \<Rightarrow> Option.bind (find (\<lambda>r. jid r = i) (jobs s)) namespace \<noteq> Some scope)
     then Inr (s, Refused)
     else (let p = (\<lambda>c. cl_job_id c = i \<and> may_settle who c)
           in Inr (s\<lparr>execution_claims := update_where p (\<lambda>c. c\<lparr>cl_settle_deadline_ms := None\<rparr>)
                       (execution_claims s)\<rparr>,
                   if 0 < count_where p (execution_claims s) then Granted else Refused)))"

section \<open>Leases identify one claim\<close>

lemma mint_claim_epoch_bounds: "0 \<le> mint_claim_epoch u \<and> mint_claim_epoch u \<le> i64_max"
proof -
  have "uint (drop_bit 1 u) = uint u div 2" by (simp add: uint_div_distrib drop_bit_Suc flip: drop_bit_eq_div)
  moreover have "0 \<le> uint u" "uint u < 2 ^ 64" using uint_bounded [of u] by simp_all
  ultimately have b: "0 \<le> uint (drop_bit 1 u)" "uint (drop_bit 1 u) < 2 ^ 63" by auto
  have "sint (drop_bit 1 u) = uint (drop_bit 1 u)"
  proof -
    have "- (2 ^ 63) \<le> uint (drop_bit 1 u)" by (rule order_trans [OF _ b(1)]) simp
    then show ?thesis unfolding sint_uint using b(2) by (simp add: signed_take_bit_int_eq_self)
  qed
  then show ?thesis using b by (simp add: mint_claim_epoch_def i64_max_def)
qed

lemma foldl_be_bytes:
  "foldl (\<lambda>acc b. acc * 256 + uint b) 0 (map (\<lambda>i. word_of_int (x div 256 ^ i) :: 8 word) (rev [0..<n]))
     = x mod 256 ^ n"
proof (induction n arbitrary: x)
  case (Suc n)
  have r: "rev [0..<Suc n] = map Suc (rev [0..<n]) @ [0]"
    by (simp add: rev_map [symmetric] map_Suc_upt upt_conv_Cons del: upt_Suc)
  have "x mod (256 * 256 ^ n) = 256 * (x div 256 mod 256 ^ n) + x mod 256" by (rule zmod_zmult2_eq) simp
  then show ?case unfolding r using Suc [of "x div 256"]
    by (simp add: comp_def zdiv_zmult2_eq uint_word_of_int)
qed simp

lemma be_bytes_roundtrip:
  assumes "in_i64 x"
  shows "from_be_bytes (to_be_bytes x) = x"
proof -
  have "to_be_bytes x = map (\<lambda>i. word_of_int (x div 256 ^ i)) (rev [0..<8])"
    by (simp add: to_be_bytes_def upt_rec)
  then have "foldl (\<lambda>acc b. acc * 256 + uint b) 0 (to_be_bytes x) = x mod 2 ^ 64"
    using foldl_be_bytes [of x 8] by simp
  moreover have "wrap_i64 (x mod 2 ^ 64) = x"
  proof -
    have "(x mod 2 ^ 64 + 2 ^ 63) mod 2 ^ 64 = (x + 2 ^ 63) mod 2 ^ 64" by (simp add: mod_simps)
    also have "\<dots> = x + 2 ^ 63" using assms by (intro mod_pos_pos_trivial) (simp_all add: i64_defs)
    finally show ?thesis by (simp add: wrap_i64_def)
  qed
  ultimately show ?thesis by (simp add: from_be_bytes_def)
qed

lemma length_to_be_bytes [simp]: "length (to_be_bytes x) = 8"
  by (simp add: to_be_bytes_def)


section \<open>Locks exclude each other\<close>

datatype lock_call =
    CallAcquire env string string int
  | CallRelease string string
  | CallExtend env string string int
  | CallReap millis

fun lock_step :: "lock_call \<Rightarrow> db \<Rightarrow> db" where
  "lock_step (CallAcquire e n owner ttl) s = fst (acquire_lock e n owner ttl s)"
| "lock_step (CallRelease n owner) s = fst (release_lock n owner s)"
| "lock_step (CallExtend e n owner ttl) s = fst (extend_lock e n owner ttl s)"
| "lock_step (CallReap now) s = fst (reap_expired_locks now s)"

text \<open>The clock a call reads is before \<open>d\<close>; the call acts as the holder of the lock.\<close>

fun clock_before :: "millis \<Rightarrow> lock_call \<Rightarrow> bool" where
  "clock_before d (CallAcquire e n owner ttl) \<longleftrightarrow> now_millis e < d"
| "clock_before d (CallReap now) \<longleftrightarrow> now < d"
| "clock_before d _ \<longleftrightarrow> True"

fun acts_as :: "string \<Rightarrow> string \<Rightarrow> lock_call \<Rightarrow> bool" where
  "acts_as n owner (CallRelease n' owner') \<longleftrightarrow> n' = n \<and> owner' = owner"
| "acts_as n owner (CallExtend e n' owner' ttl) \<longleftrightarrow> n' = n \<and> owner' = owner"
| "acts_as n owner _ \<longleftrightarrow> False"

definition holds_lock :: "lock_row \<Rightarrow> db \<Rightarrow> bool" where
  "holds_lock l s \<longleftrightarrow> l \<in> set (distributed_locks s) \<and> distinct (map lk_lock_name (distributed_locks s))"

lemma holds_lock_find:
  "holds_lock l s \<Longrightarrow> find (\<lambda>x. lk_lock_name x = n) (distributed_locks s) = Some l \<longleftrightarrow> lk_lock_name l = n"
  by (auto simp: holds_lock_def find_key_Some)

lemma acquire_lock_eq:
  "acquire_lock e n owner ttl s =
     (if \<exists>l. get_lock_info n s = Some l \<and> now_millis e < lk_expires_at l then (s, Inr False)
      else (s\<lparr>distributed_locks := delete_where (\<lambda>l. lk_lock_name l = n) (distributed_locks s)
              @ [\<lparr>lk_lock_name = n, lk_owner_id = owner, lk_acquired_at = now_millis e,
                  lk_expires_at = wrap_i64 (now_millis e + ttl)\<rparr>]\<rparr>, Inr True))"
  by (auto simp: acquire_lock_def write_transaction_def get_lock_info_def Let_def split: option.splits)

lemma acquire_free:
  assumes "\<And>l. get_lock_info n s = Some l \<Longrightarrow> lk_expires_at l \<le> now_millis e"
  shows "\<exists>s'. acquire_lock e n owner ttl s = (s', Inr True)
    \<and> get_lock_info n s' = Some \<lparr>lk_lock_name = n, lk_owner_id = owner, lk_acquired_at = now_millis e,
        lk_expires_at = wrap_i64 (now_millis e + ttl)\<rparr>"
proof -
  have "find (\<lambda>l. lk_lock_name l = n) (delete_where (\<lambda>l. lk_lock_name l = n) t @ [l]) = Some l"
    if "lk_lock_name l = n" for t :: "lock_row list" and l
    using that by (induction t) (auto simp: delete_where_def)
  then show ?thesis using assms by (fastforce simp: acquire_lock_eq get_lock_info_def)
qed

lemma wrap_i64_above:
  assumes "in_i64 x" and "in_i64 y" and "i64_max < x + y"
  shows "wrap_i64 (x + y) = x + y - 2 ^ 64"
proof -
  have "(x + y + 2 ^ 63) mod 2 ^ 64 = (x + y + 2 ^ 63 - 2 ^ 64) mod 2 ^ 64"
    by (rule minus_mod_self2 [symmetric])
  also have "\<dots> = x + y + 2 ^ 63 - 2 ^ 64" using assms by (intro mod_pos_pos_trivial) (simp_all add: i64_defs)
  finally show ?thesis by (simp add: wrap_i64_def)
qed

lemma acquire_lock_holds:
  assumes "distinct (map lk_lock_name (distributed_locks s))" and "acquire_lock e n owner ttl s = (s', Inr True)"
  shows "holds_lock \<lparr>lk_lock_name = n, lk_owner_id = owner, lk_acquired_at = now_millis e,
     lk_expires_at = wrap_i64 (now_millis e + ttl)\<rparr> s'"
  using assms by (auto simp: acquire_lock_eq holds_lock_def set_delete_where distinct_map_delete_where split: if_splits)

lemma holds_lock_step:
  assumes h: "holds_lock l s" and "clock_before (lk_expires_at l) c"
    and "\<not> acts_as (lk_lock_name l) (lk_owner_id l) c"
  shows "holds_lock l (lock_step c s)"
proof (cases c)
  case (CallAcquire e n owner ttl)
  show ?thesis
  proof (cases "n = lk_lock_name l")
    case True
    then have "get_lock_info n s = Some l" using holds_lock_find [OF h] by (simp add: get_lock_info_def)
    then show ?thesis using assms(2) h CallAcquire by (simp add: acquire_lock_eq)
  next
    case False
    then show ?thesis using h CallAcquire
      by (auto simp: acquire_lock_eq holds_lock_def set_delete_where distinct_map_delete_where)
  qed
next
  case (CallRelease n owner)
  then show ?thesis using assms
    by (auto simp: release_lock_def holds_lock_def set_delete_where distinct_map_delete_where Let_def)
next
  case (CallExtend e n owner ttl)
  let ?p = "\<lambda>l. lk_lock_name l = n \<and> lk_owner_id l = owner"
  have "map lk_lock_name (update_where ?p (\<lambda>l. l\<lparr>lk_expires_at := t\<rparr>) (distributed_locks s))
      = map lk_lock_name (distributed_locks s)" for t
    by (rule map_update_where) simp
  then show ?thesis using assms CallExtend
    by (auto simp: extend_lock_def holds_lock_def Let_def intro!: in_update_where)
next
  case (CallReap now)
  then show ?thesis using assms
    by (auto simp: reap_expired_locks_def holds_lock_def set_delete_where distinct_map_delete_where Let_def)
qed

lemma holds_lock_run:
  "holds_lock l s \<Longrightarrow> (\<forall>c\<in>set cs. clock_before (lk_expires_at l) c \<and> \<not> acts_as (lk_lock_name l) (lk_owner_id l) c)
     \<Longrightarrow> holds_lock l (fold lock_step cs s)"
  by (induction cs arbitrary: s) (simp_all add: holds_lock_step)

lemma lock_calls_keep:
  assumes ok: "db_ok s"
  shows "db_ok (lock_step c s)"
proof -
  have d: "distinct (map lk_lock_name (distributed_locks s))" using ok by (simp add: ok_defs)
  show ?thesis
    by (cases c) (auto simp: acquire_lock_eq release_lock_def extend_lock_def reap_expired_locks_def Let_def
        set_delete_where map_update_where d ok intro!: db_ok_locks [OF ok] distinct_map_delete_where)
qed

section \<open>Claims and the fence\<close>

lemma insert_claim_eq:
  "insert_claim i w now ep s =
     (if i \<in> cl_job_id ` set (execution_claims s) then Inl (Storage UniqueViolation)
      else Inr (s\<lparr>execution_claims := execution_claims s @
             [\<lparr>cl_job_id = i, cl_worker_id = w, cl_claimed_at = now, cl_epoch = ep,
               cl_settle_deadline_ms = None\<rparr>]\<rparr>))"
  by (simp add: insert_claim_def bex_key)

lemma claim_execution_eq:
  "claim_execution e i w s =
     (if i \<in> cl_job_id ` set (execution_claims s) then (s, Inr None)
      else (s\<lparr>execution_claims := execution_claims s @
             [\<lparr>cl_job_id = i, cl_worker_id = w, cl_claimed_at = now_millis e,
               cl_epoch = Some (mint_claim_epoch (rand_u64 e 0)), cl_settle_deadline_ms = None\<rparr>]\<rparr>,
            Inr (Some (mint_claim_epoch (rand_u64 e 0)))))"
  by (simp add: claim_execution_def insert_claim_eq Let_def)

lemma insert_claim_keeps: "db_ok s \<Longrightarrow> insert_claim i w now ep s = Inr s' \<Longrightarrow> db_ok s'"
  by (auto simp: insert_claim_eq db_ok_distinct split: if_splits intro!: db_ok_claims)

lemma find_claim:
  "db_ok s \<Longrightarrow> find (\<lambda>c. cl_job_id c = i) (execution_claims s) = Some c
     \<longleftrightarrow> c \<in> set (execution_claims s) \<and> cl_job_id c = i"
  by (simp add: find_key_Some db_ok_distinct)

text \<open>
  When the fence lets an attempt through: the job is running at that attempt in a visible
  namespace, and a claim on it, if there is one, is the caller's under an agreeing epoch.
\<close>

definition fence_open :: "string \<Rightarrow> string \<Rightarrow> int \<Rightarrow> int option \<Rightarrow> string option \<Rightarrow> db \<Rightarrow> bool" where
  "fence_open i owner attempt epoch ns s \<longleftrightarrow>
     (\<exists>r\<in>set (jobs s). jid r = i \<and> job_in_namespace (namespace r) ns
        \<and> row_status r = status_i32 Running \<and> retry_count r = attempt)
     \<and> (\<forall>c\<in>set (execution_claims s). cl_job_id c = i \<longrightarrow>
          cl_worker_id c = owner \<and> epochs_agree (cl_epoch c) epoch)"

lemma resolve_fence_eq:
  assumes ok: "db_ok s" and r: "r \<in> set (jobs s)" "jid r = i"
  shows "resolve_attempt_fence e i owner attempt epoch ns reassert s =
     (if \<not> fence_open i owner attempt epoch ns s then Inl (ClaimLost i)
      else if i \<in> cl_job_id ` set (execution_claims s) \<or> \<not> reassert then Inr (s, namespace r)
      else Inr (s\<lparr>execution_claims := execution_claims s @
             [\<lparr>cl_job_id = i, cl_worker_id = owner, cl_claimed_at = now_millis e,
               cl_epoch = epoch, cl_settle_deadline_ms = None\<rparr>]\<rparr>, namespace r))"
proof -
  have job: "lock_job_for_step_fence i s = Some (row_status r, retry_count r, namespace r)"
  proof -
    have "find (\<lambda>r. jid r = i) (jobs s) = Some r" using db_ok_find_live [OF ok] r by blast
    then show ?thesis by (simp add: lock_job_for_step_fence_def)
  qed
  have uniq: "x = r" if "x \<in> set (jobs s)" "jid x = i" for x
    using distinct_map_key [OF db_ok_distinct(1) [OF ok] that(1) r(1)] that(2) r(2) by simp
  have vis: "(case ns of None \<Rightarrow> True | Some scope \<Rightarrow> namespace r = Some scope)
      = job_in_namespace (namespace r) ns" by (simp add: job_in_namespace_def split: option.split)
  let ?open = "job_in_namespace (namespace r) ns \<and> row_status r = status_i32 Running \<and> retry_count r = attempt"
  have ex: "(\<exists>r\<in>set (jobs s). jid r = i \<and> job_in_namespace (namespace r) ns
      \<and> row_status r = status_i32 Running \<and> retry_count r = attempt) \<longleftrightarrow> ?open"
    using r uniq by blast
  show ?thesis
  proof (cases "find (\<lambda>c. cl_job_id c = i) (execution_claims s)")
    case None
    then have no: "i \<notin> cl_job_id ` set (execution_claims s)" by (auto simp: find_None_iff)
    then have "\<forall>c\<in>set (execution_claims s). cl_job_id c \<noteq> i" by (metis imageI)
    then show ?thesis using None no ex
      by (simp add: resolve_attempt_fence_def job vis fence_open_def insert_claim_eq Let_def)
  next
    case (Some c)
    then have c: "c \<in> set (execution_claims s)" "cl_job_id c = i" by (auto simp: find_claim [OF ok])
    then have i: "i \<in> cl_job_id ` set (execution_claims s)" by blast
    have "x = c" if "x \<in> set (execution_claims s)" "cl_job_id x = i" for x
      using distinct_map_key [OF db_ok_distinct(4) [OF ok] that(1) c(1)] that(2) c(2) by simp
    then have "(\<forall>c\<in>set (execution_claims s). cl_job_id c = i \<longrightarrow>
        cl_worker_id c = owner \<and> epochs_agree (cl_epoch c) epoch)
      \<longleftrightarrow> cl_worker_id c = owner \<and> epochs_agree (cl_epoch c) epoch"
      using c by blast
    then show ?thesis using Some i ex
      by (simp add: resolve_attempt_fence_def job vis fence_open_def Let_def)
  qed
qed

lemma resolve_fence_lost:
  assumes "db_ok s" and "i \<notin> live_ids s"
  shows "resolve_attempt_fence e i owner attempt epoch ns reassert s = Inl (ClaimLost i)"
proof -
  have "find (\<lambda>r. jid r = i) (jobs s) = None" by (rule find_none) (use assms(2) in \<open>metis imageI\<close>)
  then show ?thesis by (simp add: resolve_attempt_fence_def lock_job_for_step_fence_def)
qed

lemma fence_open_live: "fence_open i owner attempt epoch ns s \<Longrightarrow> i \<in> live_ids s"
  by (auto simp: fence_open_def)

text \<open>Reading the fence never fails: it authorizes exactly the open one.\<close>

lemma authorize_attempt_eq:
  assumes "db_ok s"
  shows "authorize_attempt e i owner attempt epoch ns s =
    Inr (if fence_open i owner attempt epoch ns s then Authorized else Superseded)"
proof (cases "i \<in> live_ids s")
  case True
  then obtain r where r: "r \<in> set (jobs s)" "jid r = i" by blast
  show ?thesis by (simp add: authorize_attempt_def resolve_fence_eq [OF assms r])
next
  case False
  then show ?thesis using fence_open_live
    by (auto simp: authorize_attempt_def resolve_fence_lost [OF assms])
qed

lemma resolve_fence_keeps: "tx_keeps (resolve_attempt_fence e i owner attempt epoch ns reassert)"
proof (rule tx_keepsI)
  fix s s' n
  assume ok: "db_ok s" and run: "resolve_attempt_fence e i owner attempt epoch ns reassert s = Inr (s', n)"
  have "i \<in> live_ids s" using run resolve_fence_lost [OF ok] by (cases "i \<in> live_ids s") auto
  then obtain r where r: "r \<in> set (jobs s)" "jid r = i" by blast
  show "db_ok s'" using run ok
    by (auto simp: resolve_fence_eq [OF ok r] db_ok_distinct split: if_splits intro!: db_ok_claims)
qed

text \<open>
  Whoever is entitled to the settle marker of a job: the claimant sees the job, the job has
  a claim with a marker, and the claimant's proof fits it.
\<close>

definition entitled :: "string \<Rightarrow> settle_claimant \<times> string option \<Rightarrow> db \<Rightarrow> bool" where
  "entitled i w s \<longleftrightarrow>
     (case snd w of
        None \<Rightarrow> True
      | Some scope \<Rightarrow> \<exists>r\<in>set (jobs s). jid r = i \<and> namespace r = Some scope)
     \<and> (\<exists>c\<in>set (execution_claims s). cl_job_id c = i \<and> may_settle (fst w) c)"

definition without_marker :: "string \<Rightarrow> db \<Rightarrow> db" where
  "without_marker i s = s\<lparr>execution_claims := update_where (\<lambda>c. cl_job_id c = i)
     (\<lambda>c. c\<lparr>cl_settle_deadline_ms := None\<rparr>) (execution_claims s)\<rparr>"

lemma claim_settle_eq:
  assumes ok: "db_ok s"
  shows "claim_settle i who ns s =
    (if entitled i (who, ns) s then (without_marker i s, Inr Granted) else (s, Inr Refused))"
proof -
  let ?p = "\<lambda>c. cl_job_id c = i \<and> may_settle who c"
  have guard: "(case ns of None \<Rightarrow> False
      | Some scope \<Rightarrow> Option.bind (find (\<lambda>r. jid r = i) (jobs s)) namespace \<noteq> Some scope)
    \<longleftrightarrow> \<not> (case ns of None \<Rightarrow> True | Some scope \<Rightarrow> \<exists>r\<in>set (jobs s). jid r = i \<and> namespace r = Some scope)"
  proof (cases ns)
    case (Some scope)
    have "Option.bind (find (\<lambda>r. jid r = i) (jobs s)) namespace = Some scope
        \<longleftrightarrow> (\<exists>r. find (\<lambda>r. jid r = i) (jobs s) = Some r \<and> namespace r = Some scope)"
      by (auto simp: bind_eq_Some_conv)
    then show ?thesis using Some by (auto simp: db_ok_find_live [OF ok])
  qed simp
  show ?thesis
  proof (cases "\<exists>c\<in>set (execution_claims s). ?p c")
    case True
    then obtain c where c: "c \<in> set (execution_claims s)" "?p c" by blast
    have "x = c" if "x \<in> set (execution_claims s)" "cl_job_id x = i" for x
      using distinct_map_key [OF db_ok_distinct(4) [OF ok] that(1) c(1)] that(2) c(2) by simp
    then have "?p x \<longleftrightarrow> cl_job_id x = i" if "x \<in> set (execution_claims s)" for x
      using c that by blast
    then have "update_where ?p f (execution_claims s) = update_where (\<lambda>c. cl_job_id c = i) f (execution_claims s)" for f
      by (rule update_where_cong)
    moreover have "0 < count_where ?p (execution_claims s)"
      using True by (auto simp: count_where_def filter_empty_conv)
    ultimately show ?thesis using True
      by (simp add: claim_settle_def guard write_transaction_def entitled_def without_marker_def Let_def)
  next
    case False
    then have "update_where ?p f (execution_claims s) = execution_claims s" for f
      by (intro update_where_cong_id) blast
    moreover have "count_where ?p (execution_claims s) = 0"
      using False by (auto simp: count_where_0)
    ultimately show ?thesis using False
      by (auto simp: claim_settle_def guard write_transaction_def entitled_def Let_def)
  qed
qed

lemma not_entitled_without_marker: "\<not> entitled i w (without_marker i s)"
proof
  assume "entitled i w (without_marker i s)"
  then obtain c where c: "c \<in> set (execution_claims (without_marker i s))" "cl_job_id c = i" "may_settle (fst w) c"
    unfolding entitled_def by blast
  from c(1) have "(\<exists>x. c = x\<lparr>cl_settle_deadline_ms := None\<rparr>) \<or> cl_job_id c \<noteq> i"
    unfolding without_marker_def update_where_def by (simp add: image_iff) blast
  then have "cl_settle_deadline_ms c = None" using c(2) by fastforce
  then show False using c(3) by (simp add: may_settle_def)
qed

text \<open>Claimants that race for one job, in the order the database serves them.\<close>

fun settle_all :: "string \<Rightarrow> (settle_claimant \<times> string option) list \<Rightarrow> db \<Rightarrow> db \<times> (queue_error + settle_grant) list" where
  "settle_all i [] s = (s, [])"
| "settle_all i ((who, ns) # ws) s =
     (let (s1, g) = claim_settle i who ns s; (s2, gs) = settle_all i ws s1 in (s2, g # gs))"

lemma without_marker_keeps: "db_ok s \<Longrightarrow> db_ok (without_marker i s)"
  unfolding without_marker_def by (rule db_ok_update_claims) simp_all

lemma settle_all_none:
  "db_ok s \<Longrightarrow> (\<And>w. \<not> entitled i w s) \<Longrightarrow> settle_all i ws s = (s, replicate (length ws) (Inr Refused))"
  by (induction ws) (auto simp: claim_settle_eq)

lemma settle_all_eq:
  assumes "db_ok s"
  shows "snd (settle_all i ws s) = map Inr
    (map (\<lambda>k. if entitled i (ws ! k) s \<and> (\<forall>j<k. \<not> entitled i (ws ! j) s) then Granted else Refused) [0..<length ws])"
  using assms
proof (induction ws)
  case (Cons w ws)
  obtain who ns where w: "w = (who, ns)" by (cases w)
  have up: "[0..<length (w # ws)] = 0 # map Suc [0..<length ws]"
    by (simp add: map_Suc_upt upt_conv_Cons del: upt_Suc)
  show ?case
  proof (cases "entitled i w s")
    case True
    have "settle_all i ws (without_marker i s) = (without_marker i s, replicate (length ws) (Inr Refused))"
      by (rule settle_all_none [OF without_marker_keeps [OF Cons.prems] not_entitled_without_marker])
    then have "snd (settle_all i (w # ws) s) = Inr Granted # replicate (length ws) (Inr Refused)"
      using True by (simp add: w claim_settle_eq [OF Cons.prems])
    moreover have "(if entitled i (ws ! k) s \<and> (\<forall>j<Suc k. \<not> entitled i ((w # ws) ! j) s)
        then Granted else Refused) = Refused" for k using True by (metis nth_Cons_0 zero_less_Suc)
    ultimately show ?thesis using True unfolding up
      by (simp add: comp_def map_replicate_const)
  next
    case False
    have "snd (settle_all i (w # ws) s) = Inr Refused # snd (settle_all i ws s)"
      using False by (simp add: w claim_settle_eq [OF Cons.prems] case_prod_unfold Let_def)
    moreover have "(\<forall>j<Suc k. \<not> entitled i ((w # ws) ! j) s) \<longleftrightarrow> (\<forall>j<k. \<not> entitled i (ws ! j) s)" for k
      using False by (auto simp: less_Suc_eq_0_disj)
    ultimately show ?thesis using Cons False unfolding up by (simp add: comp_def)
  qed
qed simp

section \<open>The operations keep the invariant\<close>

lemma claim_each_keeps: "db_ok s \<Longrightarrow> claim_each e k is w s = Inr (s', cs) \<Longrightarrow> db_ok s'"
proof (induction "is" arbitrary: k s cs)
  case (Cons i "is")
  show ?case
  proof (cases "insert_claim i w (now_millis e) (Some (mint_claim_epoch (rand_u64 e k))) s")
    case (Inl err)
    then show ?thesis using Cons by (auto simp: res_simps Let_def split: if_splits)
  next
    case (Inr s1)
    then have "db_ok s1" by (rule insert_claim_keeps [OF Cons.prems(1)])
    then show ?thesis using Inr Cons by (auto simp: res_simps Let_def)
  qed
qed simp

lemma await_settle_eq:
  assumes ok: "db_ok s"
  shows "await_settle e i owner attempt epoch deadline ns s =
    (case resolve_attempt_fence e i owner attempt epoch ns True s of
       Inl _ \<Rightarrow> (s, Inr None)
     | Inr (s1, _) \<Rightarrow>
         let d = (case Option.bind (find (\<lambda>c. cl_job_id c = i) (execution_claims s1)) cl_settle_deadline_ms of
                    None \<Rightarrow> deadline | Some h \<Rightarrow> max h deadline)
         in (s1\<lparr>execution_claims := update_where (\<lambda>c. cl_job_id c = i)
                   (\<lambda>c. c\<lparr>cl_settle_deadline_ms := Some d\<rparr>) (execution_claims s1)\<rparr>, Inr (Some d)))"
proof (cases "i \<in> live_ids s")
  case True
  then obtain r where r: "r \<in> set (jobs s)" "jid r = i" by blast
  show ?thesis
    by (auto simp: await_settle_def write_transaction_def resolve_fence_eq [OF ok r] Let_def)
next
  case False
  then show ?thesis by (simp add: await_settle_def write_transaction_def resolve_fence_lost [OF ok])
qed

lemma claim_ops_keep:
  assumes ok: "db_ok s"
  shows "db_ok (fst (claim_execution e i w s))" and "db_ok (fst (claim_execution_batch e is w s))"
    and "db_ok (fst (complete_execution i ns s))" and "db_ok (fst (reclaim_execution e i expected new s))"
    and "db_ok (fst (purge_execution_claims e older s))"
    and "db_ok (fst (await_settle e i owner attempt epoch deadline ns s))"
    and "db_ok (fst (claim_settle i who ns s))"
proof -
  show "db_ok (fst (claim_execution e i w s))"
    using ok by (auto simp: claim_execution_eq db_ok_distinct intro!: db_ok_claims)
  show "db_ok (fst (claim_execution_batch e is w s))"
    unfolding claim_execution_batch_def using ok by (auto intro!: write_transaction_keeps elim: claim_each_keeps)
  show "db_ok (fst (complete_execution i ns s))" "db_ok (fst (purge_execution_claims e older s))"
    using ok by (auto simp: complete_execution_def purge_execution_claims_def Let_def db_ok_delete_claims)
  show "db_ok (fst (reclaim_execution e i expected new s))"
    using ok by (simp add: reclaim_execution_def Let_def db_ok_update_claims)
  show "db_ok (fst (claim_settle i who ns s))"
    using ok by (simp add: claim_settle_eq [OF ok] without_marker_keeps)
  show "db_ok (fst (await_settle e i owner attempt epoch deadline ns s))"
    using ok tx_keepsD [OF resolve_fence_keeps ok]
    by (auto simp: await_settle_eq [OF ok] Let_def intro!: db_ok_update_claims split: sum.split)
qed

lemmas claims_all_keep = lock_calls_keep claim_ops_keep

section \<open>Properties\<close>

text \<open>
  C8. Distributed locks exclude each other. After an acquire succeeded, whatever other calls
  interleave before its deadline (acquires by anyone, releases and extensions by others,
  the expiry sweep), the holder keeps the lock and every further acquire is refused. The
  deadline must not overflow.
\<close>

theorem lock_mutual_exclusion:
  assumes "db_ok s" and "acquire_lock e n owner ttl s = (s1, Inr True)" and "in_i64 (now_millis e + ttl)"
    and "\<forall>c\<in>set calls. clock_before (now_millis e + ttl) c \<and> \<not> acts_as n owner c"
    and "now_millis e' < now_millis e + ttl"
  shows "map_option lk_owner_id (get_lock_info n (fold lock_step calls s1)) = Some owner
    \<and> acquire_lock e' n other ttl' (fold lock_step calls s1) = (fold lock_step calls s1, Inr False)"
proof -
  let ?l = "\<lparr>lk_lock_name = n, lk_owner_id = owner, lk_acquired_at = now_millis e,
     lk_expires_at = wrap_i64 (now_millis e + ttl)\<rparr>"
  let ?s = "fold lock_step calls s1"
  have "holds_lock ?l s1"
    by (rule acquire_lock_holds [OF _ assms(2)]) (use assms(1) in \<open>simp add: ok_defs\<close>)
  then have "holds_lock ?l ?s"
    by (rule holds_lock_run) (use assms(3,4) in simp)
  from holds_lock_find [OF this, of n] have "get_lock_info n ?s = Some ?l" by (simp add: get_lock_info_def)
  then show ?thesis using assms(3,5) by (simp add: acquire_lock_eq)
qed

theorem lock_mutual_exclusion_witness:
  "\<exists>s1. acquire_lock (plain_env 10) ''l'' ''a'' 100 empty_db = (s1, Inr True)
     \<and> acquire_lock (plain_env 50) ''l'' ''c'' 5
         (fold lock_step [CallAcquire (plain_env 20) ''l'' ''b'' 7, CallRelease ''l'' ''b'', CallReap 30] s1)
       = (fold lock_step [CallAcquire (plain_env 20) ''l'' ''b'' 7, CallRelease ''l'' ''b'', CallReap 30] s1, Inr False)"
proof -
  obtain s1 where s1: "acquire_lock (plain_env 10) ''l'' ''a'' 100 empty_db = (s1, Inr True)"
    by (simp add: acquire_lock_eq get_lock_info_def empty_db_def)
  from lock_mutual_exclusion [OF db_ok_empty s1, of
      "[CallAcquire (plain_env 20) ''l'' ''b'' 7, CallRelease ''l'' ''b'', CallReap 30]" "plain_env 50" "''c''" 5]
  show ?thesis using s1 by (simp add: i64_defs)
qed

text \<open>
  C25. A lock taken with a huge time to live excludes nobody. The deadline \<open>now + ttl_ms\<close> is a
  plain \<open>i64\<close> addition: whenever it exceeds the largest \<open>i64\<close> it wraps to the past in a release
  build. The acquire of a free lock still reports success and records its owner, and from that
  very instant on any other owner takes the same lock.
\<close>

theorem lock_ttl_wraps:
  assumes "in_i64 (now_millis e)" and "in_i64 ttl" and "i64_max < now_millis e + ttl"
    and "\<And>l. get_lock_info n s = Some l \<Longrightarrow> lk_expires_at l \<le> now_millis e"
    and "now_millis e \<le> now_millis e'"
  shows "\<exists>s1 s2. acquire_lock e n a ttl s = (s1, Inr True) \<and> map_option lk_owner_id (get_lock_info n s1) = Some a
     \<and> acquire_lock e' n b ttl' s1 = (s2, Inr True) \<and> map_option lk_owner_id (get_lock_info n s2) = Some b"
proof -
  have "wrap_i64 (now_millis e + ttl) = now_millis e + ttl - 2 ^ 64"
    using assms(1-3) by (simp add: wrap_i64_above)
  then have past: "wrap_i64 (now_millis e + ttl) \<le> now_millis e'" using assms(2,5) by (simp add: i64_defs)
  obtain s1 where s1: "acquire_lock e n a ttl s = (s1, Inr True)"
    "get_lock_info n s1 = Some \<lparr>lk_lock_name = n, lk_owner_id = a, lk_acquired_at = now_millis e,
       lk_expires_at = wrap_i64 (now_millis e + ttl)\<rparr>"
    using acquire_free [of n s e a ttl] assms(4) by blast
  then obtain s2 where "acquire_lock e' n b ttl' s1 = (s2, Inr True)"
    "get_lock_info n s2 = Some \<lparr>lk_lock_name = n, lk_owner_id = b, lk_acquired_at = now_millis e',
       lk_expires_at = wrap_i64 (now_millis e' + ttl')\<rparr>"
    using acquire_free [of n s1 e' b ttl'] past by auto
  then show ?thesis using s1 by auto
qed

theorem lock_ttl_wraps_witness:
  "\<exists>s1 s2. acquire_lock (plain_env 10) ''l'' ''a'' i64_max empty_db = (s1, Inr True)
     \<and> acquire_lock (plain_env 10) ''l'' ''b'' 1000 s1 = (s2, Inr True)"
  using lock_ttl_wraps [of "plain_env 10" i64_max "''l''" empty_db "plain_env 10" "''a''" "''b''" 1000]
  by (auto simp: i64_defs empty_db_def get_lock_info_def)

text \<open>
  C26. A lease names exactly one claim: the token made from a minted epoch is accepted back and
  names that epoch, and a token that does not decode to eight bytes names none. The base64
  codec must decode what it encoded.
\<close>

theorem lease_roundtrip:
  assumes "\<And>bs. decode (encode bs) = Some bs"
  shows "lease_epoch decode (from_epoch encode (mint_claim_epoch u)) = Some (mint_claim_epoch u)
    \<and> (utf8 bs = Some (from_epoch encode (mint_claim_epoch u)) \<longrightarrow>
         from_wire utf8 decode bs = Some (from_epoch encode (mint_claim_epoch u)))
    \<and> (length raw \<noteq> 8 \<longrightarrow> lease_epoch decode (encode raw) = None)"
proof -
  have "in_i64 (mint_claim_epoch u)" using mint_claim_epoch_bounds [of u] by (simp add: i64_defs)
  then have "lease_epoch decode (from_epoch encode (mint_claim_epoch u)) = Some (mint_claim_epoch u)"
    by (simp add: lease_epoch_def from_epoch_def assms be_bytes_roundtrip)
  then show ?thesis by (simp add: from_wire_def) (simp add: lease_epoch_def assms)
qed

definition plain_encode :: "bytes \<Rightarrow> string" where
  "plain_encode = map (\<lambda>b. char_of (unat b))"

definition plain_decode :: "string \<Rightarrow> bytes option" where
  "plain_decode t = Some (map (\<lambda>c. of_nat (of_char c)) t)"

lemma plain_codec: "plain_decode (plain_encode bs) = Some bs"
proof -
  have "word_of_nat (unat b mod 256) = b" for b :: "8 word"
  proof -
    have "unat b < 256" using unsigned_less [of b, where 'a = nat] by simp
    then show ?thesis by simp
  qed
  then show ?thesis by (simp add: plain_decode_def plain_encode_def comp_def map_idI)
qed

theorem lease_roundtrip_witness:
  "lease_epoch plain_decode (from_epoch plain_encode (mint_claim_epoch 85)) = Some 42"
proof -
  have "mint_claim_epoch 85 = 42" by (simp add: mint_claim_epoch_def)
  then show ?thesis using lease_roundtrip [of plain_decode plain_encode 85, OF plain_codec] by simp
qed

text \<open>
  C27. The epoch separates two dispatches of one attempt. When an operator requeues a stuck
  job, the stalled executor is superseded at once; when the job is dispatched again, even to
  the same worker at the same attempt number, the new claim is won, its holder is
  authorized, and every result that presents another epoch is superseded whatever owner
  and attempt it names.
\<close>

theorem epoch_fences_requeued_dispatch:
  assumes "db_ok s" and "requeue_stuck i now s = (s1, Inr True)"
    and "dequeue_ordered_reporting q now' ns order s1 = (s2, Inr d)" and "claimed d = Some j" and "jid j = i"
    and "claim_execution e i w s2 = (s3, res)" and "ep = mint_claim_epoch (rand_u64 e 0)" and "old \<noteq> ep"
  shows "authorize_attempt e' i owner attempt (Some old) ns' s1 = Inr Superseded
    \<and> res = Inr (Some ep) \<and> authorize_attempt e' i w (retry_count j) (Some ep) None s3 = Inr Authorized
    \<and> authorize_attempt e' i owner attempt (Some old) ns' s3 = Inr Superseded"
proof -
  let ?p = "\<lambda>r. jid r = i \<and> row_status r = status_i32 Running"
  have ok1: "db_ok s1" using requeue_stuck_keeps [OF assms(1), of i now] assms(2) by simp
  have ok2: "db_ok s2" using dequeue_ordered_keeps [OF ok1, of q now' ns order] assms(3) by simp
  have ok3: "db_ok s3" using claim_ops_keep(1) [OF ok2, of e i w] assms(6) by simp
  have s1: "s1 = revoke_claim i (s\<lparr>jobs := update_where ?p (requeue_row now) (jobs s)\<rparr>)"
    using assms(2) by (auto simp: requeue_stuck_def write_transaction_def Let_def split: if_splits)
  have "row_status r \<noteq> status_i32 Running" if "r \<in> set (jobs s1)" "jid r = i" for r
  proof -
    have "r \<in> set (update_where ?p (requeue_row now) (jobs s))" using that(1) by (simp add: s1 revoke_claim_def)
    then obtain y where "r = (if ?p y then requeue_row now y else y)" unfolding set_update_where by blast
    then show ?thesis using that(2) by (cases "?p y") (auto simp: requeue_row_def)
  qed
  then have closed: "\<not> fence_open i owner attempt (Some old) ns' s1" by (auto simp: fence_open_def)
  have none2: "i \<notin> cl_job_id ` set (execution_claims s2)"
    using dequeue_ordered_started(2) [OF ok1 assms(3,4)]
    by (auto simp: s1 revoke_claim_def set_delete_where)
  obtain r where r: "start_row now' r \<in> set (jobs s2)" "j = job_of_row (start_row now' r)"
    using dequeue_ordered_started(1) [OF ok1 assms(3,4)] by blast
  let ?c = "\<lparr>cl_job_id = i, cl_worker_id = w, cl_claimed_at = now_millis e, cl_epoch = Some ep,
    cl_settle_deadline_ms = None\<rparr>"
  have s3: "s3 = s2\<lparr>execution_claims := execution_claims s2 @ [?c]\<rparr>" "res = Inr (Some ep)"
    using assms(6,7) none2 by (simp_all add: claim_execution_eq)
  have "\<forall>c\<in>set (execution_claims s2). cl_job_id c \<noteq> i" using none2 by (metis imageI)
  moreover have "jid (start_row now' r) = i" "retry_count (start_row now' r) = retry_count j"
    using r(2) assms(5) by (simp_all add: start_row_def)
  ultimately have "fence_open i w (retry_count j) (Some ep) None s3"
    using r(1) unfolding fence_open_def s3
    by (auto simp: job_in_namespace_def start_row_def intro!: bexI [of _ "start_row now' r"])
  moreover have "\<not> fence_open i owner attempt (Some old) ns' s3"
    using assms(8) by (auto simp: fence_open_def s3)
  ultimately show ?thesis
    using closed s3(2) by (simp add: authorize_attempt_eq ok1 ok3)
qed

definition stuck_db :: db where
  "stuck_db = (live_db [start_row 5 (plain_row ''a'' ''q'' 0 5)])\<lparr>execution_claims :=
     [\<lparr>cl_job_id = ''a'', cl_worker_id = ''w'', cl_claimed_at = 5, cl_epoch = Some 7, cl_settle_deadline_ms = None\<rparr>]\<rparr>"

lemma stuck_ok: "db_ok stuck_db"
  unfolding stuck_db_def
  by (rule db_ok_claims) (simp_all add: db_ok_live_db unique_ok_def unique_indexed_def row_ok_def start_row_def)

theorem epoch_fences_requeued_dispatch_witness:
  "\<exists>s1 s2 s3 d. requeue_stuck ''a'' 9 stuck_db = (s1, Inr True)
     \<and> dequeue_ordered_reporting ''q'' 10 None Fifo s1 = (s2, Inr d)
     \<and> claim_execution (plain_env 11) ''a'' ''w'' s2 = (s3, Inr (Some 0))
     \<and> authorize_attempt (plain_env 12) ''a'' ''w'' 0 (Some 0) None s3 = Inr Authorized
     \<and> authorize_attempt (plain_env 12) ''a'' ''w'' 0 (Some 7) None s3 = Inr Superseded"
proof -
  let ?r = "requeue_row 9 (start_row 5 (plain_row ''a'' ''q'' 0 5))"
  have s1: "requeue_stuck ''a'' 9 stuck_db = (live_db [?r], Inr True)"
    by (simp add: requeue_stuck_def write_transaction_def stuck_db_def count_where_def update_where_def
        revoke_claim_def start_row_def delete_where_def) (simp add: live_db_def empty_db_def)
  have ok1: "db_ok (live_db [?r])" using requeue_stuck_keeps [OF stuck_ok, of "''a''" 9] s1 by simp
  have "\<exists>s2. dequeue_ordered_reporting ''q'' 10 None Fifo (live_db [?r])
      = (s2, Inr \<lparr>claimed = Some (job_of_row (start_row 10 ?r)), expired = []\<rparr>)"
    unfolding dequeue_ordered_eq [OF ok1]
    by (simp add: scan_dequeue_candidates_def due_def sql_limit_def ready_def past_expiry_def requeue_row_def
        start_row_def Let_def)
  then obtain s2 where s2: "dequeue_ordered_reporting ''q'' 10 None Fifo (live_db [?r])
      = (s2, Inr \<lparr>claimed = Some (job_of_row (start_row 10 ?r)), expired = []\<rparr>)" ..
  obtain s3 res where s3: "claim_execution (plain_env 11) ''a'' ''w'' s2 = (s3, res)" by fastforce
  have j: "jid (job_of_row (start_row 10 ?r)) = ''a''" "retry_count (job_of_row (start_row 10 ?r)) = 0"
    by (simp_all add: requeue_row_def start_row_def)
  have "mint_claim_epoch (rand_u64 (plain_env 11) 0) = 0" by (simp add: mint_claim_epoch_def)
  then show ?thesis
    using epoch_fences_requeued_dispatch [OF stuck_ok s1 s2 _ _ s3, of "job_of_row (start_row 10 ?r)" 0 7
        "plain_env 12" "''w''" 0 None] s1 s2 s3 j by simp
qed

text \<open>
  C28. A dispatch accepted out of band is settled at most once. Of all the claimants that ask
  for its marker, in whatever order the database serves them, exactly the first entitled
  one is granted it: a peer with the right lease, the scheduler once the deadline passed, or
  the owner giving up; everybody else is refused and changes nothing.
\<close>

theorem settle_exactly_once:
  assumes "db_ok s" and "k < length ws"
  shows "snd (settle_all i ws s) ! k =
      Inr (if entitled i (ws ! k) s \<and> (\<forall>j<k. \<not> entitled i (ws ! j) s) then Granted else Refused)
    \<and> length (filter (\<lambda>g. g = Inr Granted) (snd (settle_all i ws s))) \<le> 1"
proof -
  let ?f = "\<lambda>k. if entitled i (ws ! k) s \<and> (\<forall>j<k. \<not> entitled i (ws ! j) s) then Granted else Refused"
  let ?win = "\<lambda>k. entitled i (ws ! k) s \<and> (\<forall>j<k. \<not> entitled i (ws ! j) s)"
  have eq: "snd (settle_all i ws s) = map Inr (map ?f [0..<length ws])" by (rule settle_all_eq [OF assms(1)])
  have "length (filter ?win [0..<length ws]) \<le> 1"
  proof (rule ccontr)
    assume "\<not> length (filter ?win [0..<length ws]) \<le> 1"
    then obtain a b rest where ab: "filter ?win [0..<length ws] = a # b # rest"
      by (cases "filter ?win [0..<length ws]" rule: remdups_adj.cases) auto
    have "distinct (filter ?win [0..<length ws])" by simp
    then have "a \<noteq> b" unfolding ab by simp
    moreover have "a \<in> set (filter ?win [0..<length ws])" "b \<in> set (filter ?win [0..<length ws])"
      unfolding ab by simp_all
    ultimately show False by (cases a b rule: linorder_cases) auto
  qed
  moreover have "length (filter (\<lambda>g. g = Inr Granted) (snd (settle_all i ws s)))
      = length (filter ?win [0..<length ws])"
    unfolding eq by (simp add: filter_map comp_def cong: filter_cong)
  ultimately show ?thesis using assms(2) by (simp add: eq)
qed

definition accepted_db :: db where
  "accepted_db = stuck_db\<lparr>execution_claims :=
     update_where (\<lambda>c. True) (\<lambda>c. c\<lparr>cl_settle_deadline_ms := Some 50\<rparr>) (execution_claims stuck_db)\<rparr>"

theorem settle_exactly_once_witness:
  "snd (settle_all ''a'' [(ByLease 3, None), (Expired 40, None), (ByLease 7, None), (Abandoned, None)] accepted_db) ! 2
     = Inr Granted"
proof -
  have ok: "db_ok accepted_db" unfolding accepted_db_def by (rule db_ok_update_claims [OF stuck_ok]) simp
  have "entitled ''a'' (who, None) accepted_db \<longleftrightarrow>
      (case who of ByLease ep \<Rightarrow> ep = 7 | Expired now \<Rightarrow> 50 \<le> now | Abandoned \<Rightarrow> True)" for who
    by (auto simp: entitled_def accepted_db_def stuck_db_def update_where_def may_settle_def
        split: settle_claimant.split)
  then show ?thesis
    using settle_exactly_once [OF ok, of 2 "[(ByLease 3, None), (Expired 40, None), (ByLease 7, None), (Abandoned, None)]" "''a''"]
    by (simp add: numeral_2_eq_2 less_Suc_eq)
qed

end
