(* ===== verification/Steps.thy ===== *)
theory Steps
  imports Claims
begin

text \<open>
  Durable steps: the memo of a job (\<open>diesel_common/steps.rs\<close>), the caps it is held to
  (\<open>step/limits.rs\<close>) and the records the step store exchanges (\<open>storage/records.rs\<close>). A
  step commits a value or a deadline at the next free position of its job's sequence, behind
  the fence of \<open>Claims\<close>; a sleep also releases the claim and reschedules the job, in the
  same transaction.
\<close>

section \<open>Records\<close>

datatype step_kind = Run | Sleep

fun kind_as_str :: "step_kind \<Rightarrow> string" where
  "kind_as_str Run = ''run''"
| "kind_as_str Sleep = ''sleep''"

definition kind_from_wire :: "string \<Rightarrow> step_kind" where
  "kind_from_wire v = (if v = ''sleep'' then Sleep else Run)"

record job_step =
  js_job_id :: string
  js_seq :: int
  js_step_key :: string
  js_kind :: step_kind
  js_result :: "bytes option"
  js_wake_at :: "millis option"
  js_created_at :: millis

record new_job_step =
  ns_job_id :: string
  ns_seq :: int
  ns_step_key :: string
  ns_kind :: step_kind
  ns_result :: "bytes option"

datatype step_commit = Committed | AlreadyCommitted

datatype sleep_outcome = Slept millis | AlreadySleeping millis

fun outcome_wake_at :: "sleep_outcome \<Rightarrow> millis" where
  "outcome_wake_at (Slept w) = w"
| "outcome_wake_at (AlreadySleeping w) = w"

definition job_step_of_row :: "step_row \<Rightarrow> job_step" where
  "job_step_of_row r = \<lparr>js_job_id = st_job_id r, js_seq = st_seq r, js_step_key = st_step_key r,
     js_kind = kind_from_wire (st_kind r), js_result = st_result r, js_wake_at = st_wake_at r,
     js_created_at = st_created_at r\<rparr>"

section \<open>Limits\<close>

record step_limits =
  max_step_bytes :: nat
  max_total_bytes :: nat
  max_steps :: nat

definition DEFAULT_MAX_STEP_BYTES :: nat where "DEFAULT_MAX_STEP_BYTES = 256 * 1024"
definition DEFAULT_MAX_TOTAL_BYTES :: nat where "DEFAULT_MAX_TOTAL_BYTES = 4 * 1024 * 1024"
definition DEFAULT_MAX_STEPS :: nat where "DEFAULT_MAX_STEPS = 1000"
definition MAX_STEP_BYTES_CEILING :: nat where "MAX_STEP_BYTES_CEILING = 1024 * 1024"
definition MAX_TOTAL_BYTES_CEILING :: nat where "MAX_TOTAL_BYTES_CEILING = 64 * 1024 * 1024"
definition MAX_STEPS_CEILING :: nat where "MAX_STEPS_CEILING = 100000"

definition default_limits :: step_limits where
  "default_limits = \<lparr>max_step_bytes = DEFAULT_MAX_STEP_BYTES, max_total_bytes = DEFAULT_MAX_TOTAL_BYTES,
     max_steps = DEFAULT_MAX_STEPS\<rparr>"

definition clamped :: "step_limits \<Rightarrow> step_limits" where
  "clamped l = \<lparr>max_step_bytes = min (max_step_bytes l) MAX_STEP_BYTES_CEILING,
     max_total_bytes = min (max_total_bytes l) MAX_TOTAL_BYTES_CEILING,
     max_steps = min (max_steps l) MAX_STEPS_CEILING\<rparr>"

section \<open>The memo table\<close>

text \<open>\<open>step_totals\<close>: a count, and a sum that is \<open>NULL\<close> on no rows.\<close>

definition step_totals :: "string \<Rightarrow> db \<Rightarrow> int \<times> int" where
  "step_totals i s = (count_where (\<lambda>x. st_job_id x = i) (job_steps s),
     sum_list (map st_result_len (filter (\<lambda>x. st_job_id x = i) (job_steps s))))"

definition check_step_position :: "string \<Rightarrow> int \<Rightarrow> string \<Rightarrow> int \<Rightarrow> db \<Rightarrow> queue_error + unit" where
  "check_step_position i q key committed s =
     (case find (\<lambda>x. st_job_id x = i \<and> st_step_key x = key) (job_steps s) of
        Some x \<Rightarrow> Inl (StepDiverged i q ''an unused step key''
          (CHR 0x27 # key @ CHR 0x27 # '', already committed at position '' @ show_int (st_seq x)))
      | None \<Rightarrow>
          if q \<noteq> committed
          then Inl (StepDiverged i q (''position '' @ show_int committed) (''position '' @ show_int q))
          else Inr ())"

definition check_step_count :: "int \<Rightarrow> string \<Rightarrow> step_limits \<Rightarrow> queue_error + unit" where
  "check_step_count committed key l =
     (if committed + 1 > int (max_steps l)
      then Inl (StepLimitExceeded key ''step count'' (committed + 1) (int (max_steps l)))
      else Inr ())"

text \<open>
  The insert, under the primary key on \<open>id\<close> and the unique indexes of \<open>m0013_job_steps\<close> on
  position and on key. The length column is an \<open>i32\<close>.
\<close>

definition step_payload :: "new_job_step \<Rightarrow> bytes" where
  "step_payload st = (case ns_result st of None \<Rightarrow> [] | Some b \<Rightarrow> b)"

definition new_step_row :: "env \<Rightarrow> new_job_step \<Rightarrow> string option \<Rightarrow> millis option \<Rightarrow> step_row" where
  "new_step_row e st job_ns wake =
     \<lparr>st_id = uuid e 0, st_job_id = ns_job_id st, st_namespace = job_ns, st_step_key = ns_step_key st,
      st_seq = ns_seq st, st_kind = kind_as_str (ns_kind st), st_result = ns_result st,
      st_result_len = wrap_i32 (int (length (step_payload st))), st_wake_at = wake,
      st_created_at = now_millis e\<rparr>"

definition insert_step_row :: "env \<Rightarrow> new_job_step \<Rightarrow> string option \<Rightarrow> millis option \<Rightarrow> unit tx" where
  "insert_step_row e st job_ns wake s =
     (let r = new_step_row e st job_ns wake
      in if \<exists>x\<in>set (job_steps s). st_id x = st_id r
            \<or> st_job_id x = st_job_id r \<and> (st_seq x = st_seq r \<or> st_step_key x = st_step_key r)
         then Inl (Storage UniqueViolation)
         else Inr (s\<lparr>job_steps := job_steps s @ [r]\<rparr>, ()))"

definition supports_steps :: bool where "supports_steps = True"

definition get_job_steps :: "string \<Rightarrow> string option \<Rightarrow> db \<Rightarrow> job_step list" where
  "get_job_steps i ns s =
     map job_step_of_row (sort_key st_seq (filter (\<lambda>x. st_job_id x = i
        \<and> (case ns of None \<Rightarrow> True | Some n \<Rightarrow> st_namespace x = Some n)) (job_steps s)))"

text \<open>What is stored at a position of a job's sequence.\<close>

definition step_at :: "string \<Rightarrow> int \<Rightarrow> db \<Rightarrow> step_row option" where
  "step_at i q s = find (\<lambda>x. st_job_id x = i \<and> st_seq x = q) (job_steps s)"

definition kind_and_key :: "string \<Rightarrow> string \<Rightarrow> string" where
  "kind_and_key kind key = ''a '' @ kind @ '' step '' @ CHR 0x27 # key @ [CHR 0x27]"

definition record_step_result ::
  "env \<Rightarrow> new_job_step \<Rightarrow> string \<Rightarrow> int \<Rightarrow> int option \<Rightarrow> step_limits \<Rightarrow> string option \<Rightarrow> step_commit op" where
  "record_step_result e st owner attempt epoch lims ns s =
     (let l = clamped lims; p = step_payload st; i = ns_job_id st
      in if length p > max_step_bytes l
         then (s, Inl (StepLimitExceeded (ns_step_key st) ''step bytes'' (int (length p)) (int (max_step_bytes l))))
         else write_transaction (\<lambda>s.
           and_then (resolve_attempt_fence e i owner attempt epoch ns True s) (\<lambda>(s, job_ns).
             case step_at i (ns_seq st) s of
               Some x \<Rightarrow>
                 if st_step_key x \<noteq> ns_step_key st \<or> st_kind x \<noteq> kind_as_str (ns_kind st)
                 then Inl (StepDiverged i (ns_seq st) (kind_and_key (st_kind x) (st_step_key x))
                        (kind_and_key (kind_as_str (ns_kind st)) (ns_step_key st)))
                 else if (case st_result x of None \<Rightarrow> [] | Some b \<Rightarrow> b) = p then Inr (s, AlreadyCommitted)
                 else Inl (StepDiverged i (ns_seq st)
                        (''the stored result of '' @ CHR 0x27 # st_step_key x @ [CHR 0x27])
                        ''a different result for the same step'')
             | None \<Rightarrow>
                 let (committed, stored_bytes) = step_totals i s
                 in and_then (check_step_position i (ns_seq st) (ns_step_key st) committed s) (\<lambda>_.
                    and_then (check_step_count committed (ns_step_key st) l) (\<lambda>_.
                      let total = stored_bytes + int (length p)
                      in if total > int (max_total_bytes l)
                         then Inl (StepLimitExceeded (ns_step_key st) ''total bytes'' total (int (max_total_bytes l)))
                         else and_then (insert_step_row e st job_ns None s) (\<lambda>(s, _). Inr (s, Committed)))))) s)"

definition wake_row :: "millis \<Rightarrow> job_row \<Rightarrow> job_row" where
  "wake_row w r = r\<lparr>row_status := status_i32 Pending, scheduled_at := w, started_at := None,
     completed_at := None, job_error := None\<rparr>"

text \<open>The row a sleep commits or finds, with the deadline that results.\<close>

definition sleep_step ::
  "env \<Rightarrow> new_job_step \<Rightarrow> millis \<Rightarrow> step_limits \<Rightarrow> string option \<Rightarrow> sleep_outcome tx" where
  "sleep_step e st wake l job_ns s =
     (let i = ns_job_id st
      in case step_at i (ns_seq st) s of
           Some x \<Rightarrow>
             if st_step_key x \<noteq> ns_step_key st \<or> st_kind x \<noteq> kind_as_str Sleep
             then Inl (StepDiverged i (ns_seq st) (kind_and_key (st_kind x) (st_step_key x))
                    (kind_and_key ''sleep'' (ns_step_key st)))
             else (case st_wake_at x of
                 None \<Rightarrow> Inl (StepDiverged i (ns_seq st) ''a sleep step with a deadline''
                   (CHR 0x27 # st_step_key x @ CHR 0x27 # '' with none''))
               | Some d \<Rightarrow> Inr (s, AlreadySleeping d))
         | None \<Rightarrow>
             let (committed, _) = step_totals i s
             in and_then (check_step_position i (ns_seq st) (ns_step_key st) committed s) (\<lambda>_.
                and_then (check_step_count committed (ns_step_key st) l) (\<lambda>_.
                and_then (insert_step_row e st job_ns (Some wake) s) (\<lambda>(s, _). Inr (s, Slept wake)))))"

definition sleep_job ::
  "env \<Rightarrow> new_job_step \<Rightarrow> string \<Rightarrow> int \<Rightarrow> int option \<Rightarrow> millis \<Rightarrow> step_limits \<Rightarrow> string option \<Rightarrow> sleep_outcome op" where
  "sleep_job e st owner attempt epoch wake lims ns =
     (let l = clamped lims; i = ns_job_id st
      in write_transaction (\<lambda>s.
        and_then (resolve_attempt_fence e i owner attempt epoch ns True s) (\<lambda>(s, job_ns).
        and_then (sleep_step e st wake l job_ns s) (\<lambda>(s, outcome).
          let s = s\<lparr>execution_claims := delete_where (\<lambda>c. cl_job_id c = i) (execution_claims s)\<rparr>;
              p = (\<lambda>r. jid r = i \<and> row_status r = status_i32 Running)
          in if count_where p (jobs s) = 0 then Inl (ClaimLost i)
             else Inr (s\<lparr>jobs := update_where p (wake_row (outcome_wake_at outcome)) (jobs s)\<rparr>, outcome)))))"

definition delete_job_steps :: "string \<Rightarrow> string option \<Rightarrow> nat op" where
  "delete_job_steps i ns s =
     (let p = (\<lambda>x. st_job_id x = i \<and> (case ns of None \<Rightarrow> True | Some n \<Rightarrow> st_namespace x = Some n))
      in (s\<lparr>job_steps := delete_where p (job_steps s)\<rparr>, Inr (length (filter p (job_steps s)))))"

section \<open>Failures of a step\<close>

datatype step_failure = Retryable | Permanent | SupersededStep

definition failure_should_retry :: "step_failure \<Rightarrow> bool" where
  "failure_should_retry f \<longleftrightarrow> f = Retryable"

definition classify_step_failure :: "queue_error \<Rightarrow> step_failure" where
  "classify_step_failure err =
     (case err of
        ClaimLost _ \<Rightarrow> SupersededStep
      | StepDiverged _ _ _ _ \<Rightarrow> Permanent
      | StepSequenceDiverged _ \<Rightarrow> Permanent
      | StepLimitExceeded _ _ _ _ \<Rightarrow> Permanent
      | Serialization _ \<Rightarrow> Permanent
      | Json _ \<Rightarrow> Permanent
      | Config _ \<Rightarrow> Permanent
      | TaskNotRegistered _ \<Rightarrow> Permanent
      | ContractTooOld _ _ \<Rightarrow> Permanent
      | StepRefused _ \<Rightarrow> Permanent
      | Storage d \<Rightarrow>
          (if d = UniqueViolation \<or> d = ForeignKeyViolation \<or> d = NotNullViolation \<or> d = CheckViolation
           then Permanent else Retryable)
      | _ \<Rightarrow> Retryable)"

definition refusal_error :: "string \<Rightarrow> string option \<Rightarrow> step_failure option \<Rightarrow> queue_error" where
  "refusal_error i msg failure =
     (let m = (case msg of Some t \<Rightarrow> t
               | None \<Rightarrow> ''a step commit for job '' @ i @ '' was refused without saying why'')
      in case (case failure of Some f \<Rightarrow> f | None \<Rightarrow> Retryable) of
           SupersededStep \<Rightarrow> ClaimLost i
         | Permanent \<Rightarrow> StepRefused m
         | Retryable \<Rightarrow> Other m)"

section \<open>The memo of a job\<close>

lemma steps_of_append [simp]:
  "steps_of (s\<lparr>job_steps := job_steps s @ [r]\<rparr>) i = steps_of s i @ (if st_job_id r = i then [r] else [])"
  by (simp add: steps_of_def)

lemma steps_of_claims [simp]: "steps_of (s\<lparr>execution_claims := c\<rparr>) i = steps_of s i"
  by (simp add: steps_of_def)

lemma steps_of_jobs [simp]: "steps_of (s\<lparr>jobs := j\<rparr>) i = steps_of s i"
  by (simp add: steps_of_def)

lemma db_ok_memo: "db_ok s \<Longrightarrow> memo_ok (steps_of s i)"
  by (simp add: db_ok_def steps_ok_def)

lemma memo_seq: "memo_ok m \<Longrightarrow> k < length m \<Longrightarrow> st_seq (m ! k) = int k"
  unfolding memo_ok_def by (metis add_0 length_map nth_map nth_upt)

lemma find_seq:
  assumes "memo_ok m"
  shows "find (\<lambda>x. st_seq x = q) m = (if 0 \<le> q \<and> q < int (length m) then Some (m ! nat q) else None)"
proof (cases "0 \<le> q \<and> q < int (length m)")
  case True
  then have k: "nat q < length m" by auto
  have "distinct (map st_seq m)" using assms by (simp add: memo_ok_def distinct_map)
  then have "find (\<lambda>x. st_seq x = q) m = Some (m ! nat q)"
    using memo_seq [OF assms k] True k by (simp add: find_key_Some)
  then show ?thesis using True by simp
next
  case False
  have "st_seq x \<noteq> q" if "x \<in> set m" for x
    using that False memo_seq [OF assms] by (auto simp: in_set_conv_nth)
  then have "find (\<lambda>x. st_seq x = q) m = None" by (simp add: find_none)
  then show ?thesis using False by simp
qed

lemma step_at_eq:
  assumes "memo_ok (steps_of s i)"
  shows "step_at i q s =
    (if 0 \<le> q \<and> q < int (length (steps_of s i)) then Some (steps_of s i ! nat q) else None)"
proof -
  have "step_at i q s = find (\<lambda>x. st_seq x = q) (steps_of s i)"
    by (simp add: step_at_def steps_of_def find_filter conj_commute)
  then show ?thesis using find_seq [OF assms] by simp
qed

lemma memo_ok_snoc:
  "memo_ok m \<Longrightarrow> st_seq r = int (length m) \<Longrightarrow> st_step_key r \<notin> st_step_key ` set m \<Longrightarrow> memo_ok (m @ [r])"
  by (simp add: memo_ok_def)

lemma step_totals_eq:
  "step_totals i s = (int (length (steps_of s i)), sum_list (map st_result_len (steps_of s i)))"
  by (simp add: step_totals_def steps_of_def count_where_def)

lemma check_step_position_Inr:
  "check_step_position i q key n s = Inr u \<longleftrightarrow> key \<notin> st_step_key ` set (steps_of s i) \<and> q = n"
proof -
  have "find (\<lambda>x. st_job_id x = i \<and> st_step_key x = key) (job_steps s) = None
      \<longleftrightarrow> key \<notin> st_step_key ` set (steps_of s i)"
    by (auto simp: find_None_iff steps_of_def)
  then show ?thesis by (auto simp: check_step_position_def split: option.splits)
qed

lemma check_step_count_Inr: "check_step_count n key l = Inr u \<longleftrightarrow> n < int (max_steps l)"
  by (auto simp: check_step_count_def)

lemma insert_step_row_Inr:
  "insert_step_row e st job_ns wake s = Inr (s', u) \<Longrightarrow>
     s' = s\<lparr>job_steps := job_steps s @ [new_step_row e st job_ns wake]\<rparr>"
  by (auto simp: insert_step_row_def Let_def split: if_splits)

lemma new_step_row_sel [simp]:
  "st_job_id (new_step_row e st n w) = ns_job_id st" "st_seq (new_step_row e st n w) = ns_seq st"
  "st_step_key (new_step_row e st n w) = ns_step_key st" "st_namespace (new_step_row e st n w) = n"
  "st_kind (new_step_row e st n w) = kind_as_str (ns_kind st)" "st_result (new_step_row e st n w) = ns_result st"
  "st_wake_at (new_step_row e st n w) = w"
  "st_result_len (new_step_row e st n w) = wrap_i32 (int (length (step_payload st)))"
  by (simp_all add: new_step_row_def)

text \<open>Committing a row at the next position, under a fresh key, keeps the invariant.\<close>

lemma append_step_keeps:
  assumes ok: "db_ok s" and r: "r \<in> set (jobs s)" "jid r = ns_job_id st" "namespace r = n"
    and q: "ns_seq st = int (length (steps_of s (ns_job_id st)))"
    and key: "ns_step_key st \<notin> st_step_key ` set (steps_of s (ns_job_id st))"
  shows "db_ok (s\<lparr>job_steps := job_steps s @ [new_step_row e st n w]\<rparr>)"
proof -
  let ?s = "s\<lparr>job_steps := job_steps s @ [new_step_row e st n w]\<rparr>"
  have "memo_ok (steps_of ?s i)" for i
    using db_ok_memo [OF ok, of i] q key by (auto intro!: memo_ok_snoc)
  moreover have "\<forall>x\<in>set (job_steps ?s). \<exists>r\<in>set (jobs ?s). jid r = st_job_id x \<and> namespace r = st_namespace x"
    using ok r by (auto simp: db_ok_def steps_ok_def)
  ultimately have "steps_ok ?s" by (simp add: steps_ok_def)
  then show ?thesis using ok by (simp add: ok_defs)
qed

section \<open>The fence of a step\<close>

text \<open>What a write behind an open fence starts from: the claim is there, put back if it was swept.\<close>

definition asserted :: "env \<Rightarrow> string \<Rightarrow> string \<Rightarrow> int option \<Rightarrow> db \<Rightarrow> db" where
  "asserted e i owner epoch s =
     (if i \<in> cl_job_id ` set (execution_claims s) then s
      else s\<lparr>execution_claims := execution_claims s @
             [\<lparr>cl_job_id = i, cl_worker_id = owner, cl_claimed_at = now_millis e,
               cl_epoch = epoch, cl_settle_deadline_ms = None\<rparr>]\<rparr>)"

lemma asserted_sel [simp]:
  "jobs (asserted e i owner epoch s) = jobs s" "job_steps (asserted e i owner epoch s) = job_steps s"
  "steps_of (asserted e i owner epoch s) j = steps_of s j"
  by (simp_all add: asserted_def steps_of_def)

lemma fence_open_asserted [simp]:
  "fence_open i owner attempt epoch ns (asserted e i owner epoch s) = fence_open i owner attempt epoch ns s"
proof -
  have "epochs_agree epoch epoch" by (cases epoch) auto
  then show ?thesis by (auto simp: fence_open_def asserted_def)
qed

lemma asserted_twice [simp]: "asserted e' i owner' epoch' (asserted e i owner epoch s) = asserted e i owner epoch s"
  by (auto simp: asserted_def)

lemma fence_job:
  assumes "db_ok s" and "fence_open i owner attempt epoch ns s"
  obtains r where "r \<in> set (jobs s)" "jid r = i" "row_status r = status_i32 Running" "retry_count r = attempt"
    "\<And>e. resolve_attempt_fence e i owner attempt epoch ns True s = Inr (asserted e i owner epoch s, namespace r)"
proof -
  obtain r where r: "r \<in> set (jobs s)" "jid r = i" "row_status r = status_i32 Running" "retry_count r = attempt"
    using assms(2) by (auto simp: fence_open_def)
  then show ?thesis using that assms(2)
    by (auto simp: resolve_fence_eq [OF assms(1) r(1,2)] asserted_def)
qed

lemma fence_closed:
  assumes "db_ok s" and "\<not> fence_open i owner attempt epoch ns s"
  shows "resolve_attempt_fence e i owner attempt epoch ns reassert s = Inl (ClaimLost i)"
proof (cases "i \<in> live_ids s")
  case True
  then obtain r where "r \<in> set (jobs s)" "jid r = i" by blast
  then show ?thesis using assms by (simp add: resolve_fence_eq)
qed (simp add: resolve_fence_lost [OF assms(1)])

lemma fence_Inr_open:
  "db_ok s \<Longrightarrow> resolve_attempt_fence e i owner attempt epoch ns reassert s = Inr x \<Longrightarrow>
     fence_open i owner attempt epoch ns s"
  by (metis fence_closed Inl_Inr_False)

lemma asserted_keeps:
  assumes "db_ok s" and "fence_open i owner attempt epoch ns s"
  shows "db_ok (asserted e i owner epoch s)"
  by (rule fence_job [OF assms]) (blast intro: tx_keepsD [OF resolve_fence_keeps assms(1)])

section \<open>Committing a step\<close>

text \<open>The three outcomes of a commit behind an open fence, by what the position holds.\<close>

lemma record_step_stored:
  assumes ok: "db_ok s" and opn: "fence_open (ns_job_id st) owner attempt epoch ns s"
    and small: "length (step_payload st) \<le> max_step_bytes (clamped lims)"
    and x: "step_at (ns_job_id st) (ns_seq st) s = Some x"
    and same: "st_step_key x = ns_step_key st" "st_kind x = kind_as_str (ns_kind st)"
  shows "record_step_result e st owner attempt epoch lims ns s =
    (if (case st_result x of None \<Rightarrow> [] | Some b \<Rightarrow> b) = step_payload st
     then (asserted e (ns_job_id st) owner epoch s, Inr AlreadyCommitted)
     else (s, Inl (StepDiverged (ns_job_id st) (ns_seq st)
            (''the stored result of '' @ CHR 0x27 # st_step_key x @ [CHR 0x27])
            ''a different result for the same step'')))"
proof -
  obtain r where "r \<in> set (jobs s)" and r: "resolve_attempt_fence e (ns_job_id st) owner attempt epoch ns True s
      = Inr (asserted e (ns_job_id st) owner epoch s, namespace r)"
    by (rule fence_job [OF ok opn]) blast
  have "step_at (ns_job_id st) (ns_seq st) (asserted e (ns_job_id st) owner epoch s) = Some x"
    using x by (simp add: step_at_def)
  then show ?thesis using small same r
    by (simp add: record_step_result_def write_transaction_def Let_def)
qed

lemma record_step_fence:
  assumes ok: "db_ok s" and run: "record_step_result e st owner attempt epoch lims ns s = (s', Inr c)"
  shows "length (step_payload st) \<le> max_step_bytes (clamped lims)"
    and "fence_open (ns_job_id st) owner attempt epoch ns s"
proof -
  show small: "length (step_payload st) \<le> max_step_bytes (clamped lims)"
    using run by (auto simp: record_step_result_def Let_def split: if_splits)
  show "fence_open (ns_job_id st) owner attempt epoch ns s"
  proof (rule ccontr)
    assume "\<not> ?thesis"
    then show False using run small
      by (simp add: record_step_result_def write_transaction_def Let_def fence_closed [OF ok])
  qed
qed

lemma record_step_Already:
  assumes ok: "db_ok s" and run: "record_step_result e st owner attempt epoch lims ns s = (s', Inr AlreadyCommitted)"
  shows "s' = asserted e (ns_job_id st) owner epoch s"
proof -
  note fence = record_step_fence [OF ok run]
  obtain r where "r \<in> set (jobs s)" "resolve_attempt_fence e (ns_job_id st) owner attempt epoch ns True s
      = Inr (asserted e (ns_job_id st) owner epoch s, namespace r)"
    by (rule fence_job [OF ok fence(2)]) blast
  then show ?thesis using run fence(1)
    by (auto simp: record_step_result_def write_transaction_cases Let_def and_then_eq_Inr
        split: if_splits option.splits prod.splits)
qed

lemma record_step_Committed:
  assumes ok: "db_ok s" and run: "record_step_result e st owner attempt epoch lims ns s = (s', Inr Committed)"
  obtains r where "r \<in> set (jobs s)" "jid r = ns_job_id st" "fence_open (ns_job_id st) owner attempt epoch ns s"
    "s' = (asserted e (ns_job_id st) owner epoch s)\<lparr>job_steps := job_steps s @ [new_step_row e st (namespace r) None]\<rparr>"
    "ns_seq st = int (length (steps_of s (ns_job_id st)))"
    "ns_step_key st \<notin> st_step_key ` set (steps_of s (ns_job_id st))"
    "length (step_payload st) \<le> max_step_bytes (clamped lims)"
    "int (length (steps_of s (ns_job_id st))) < int (max_steps (clamped lims))"
    "sum_list (map st_result_len (steps_of s (ns_job_id st))) + int (length (step_payload st))
       \<le> int (max_total_bytes (clamped lims))"
proof -
  let ?i = "ns_job_id st"
  let ?a = "asserted e ?i owner epoch s"
  note small = record_step_fence(1) [OF ok run] and opn = record_step_fence(2) [OF ok run]
  obtain r where r: "r \<in> set (jobs s)" "jid r = ?i"
    and f: "resolve_attempt_fence e ?i owner attempt epoch ns True s = Inr (?a, namespace r)"
    by (rule fence_job [OF ok opn]) blast
  have none: "step_at ?i (ns_seq st) ?a = None"
    using run small f
    by (auto simp: record_step_result_def write_transaction_def Let_def split: option.splits if_splits)
  let ?l = "clamped lims"
  let ?m = "steps_of s ?i"
  have body: "and_then (check_step_position ?i (ns_seq st) (ns_step_key st) (int (length ?m)) ?a) (\<lambda>_.
      and_then (check_step_count (int (length ?m)) (ns_step_key st) ?l) (\<lambda>_.
        if int (max_total_bytes ?l) < sum_list (map st_result_len ?m) + int (length (step_payload st))
        then Inl (StepLimitExceeded (ns_step_key st) ''total bytes''
               (sum_list (map st_result_len ?m) + int (length (step_payload st))) (int (max_total_bytes ?l)))
        else and_then (insert_step_row e st (namespace r) None ?a) (\<lambda>(s, _). Inr (s, Committed))))
    = Inr (s', Committed)"
    using run small f none
    by (simp add: record_step_result_def write_transaction_cases Let_def step_totals_eq)
  then obtain u1 u2 where p: "check_step_position ?i (ns_seq st) (ns_step_key st) (int (length ?m)) ?a = Inr u1"
    and c: "check_step_count (int (length ?m)) (ns_step_key st) ?l = Inr u2"
    by (auto simp: and_then_eq_Inr)
  from body p c obtain u3 where b: "sum_list (map st_result_len ?m) + int (length (step_payload st)) \<le> int (max_total_bytes ?l)"
    and ins: "insert_step_row e st (namespace r) None ?a = Inr (s', u3)"
    by (auto simp: and_then_eq_Inr split: if_splits prod.splits)
  show ?thesis
    using that [OF r opn] insert_step_row_Inr [OF ins] p c b small
    by (simp add: check_step_position_Inr check_step_count_Inr)
qed

lemma record_step_keeps: "db_ok s \<Longrightarrow> db_ok (fst (record_step_result e st owner attempt epoch lims ns s))"
proof -
  assume ok: "db_ok s"
  let ?i = "ns_job_id st"
  obtain s' res where run: "record_step_result e st owner attempt epoch lims ns s = (s', res)" by fastforce
  show ?thesis
  proof (cases res)
    case (Inl err)
    then have "s' = s" using run
      by (auto simp: record_step_result_def write_transaction_cases Let_def split: if_splits)
    then show ?thesis using ok run by simp
  next
    case (Inr c)
    note fence = record_step_fence(2) [OF ok run [unfolded Inr]]
    show ?thesis
    proof (cases c)
      case Committed
      then obtain r where r: "r \<in> set (jobs s)" "jid r = ?i"
        and s': "s' = (asserted e ?i owner epoch s)\<lparr>job_steps := job_steps s @ [new_step_row e st (namespace r) None]\<rparr>"
        and q: "ns_seq st = int (length (steps_of s ?i))" "ns_step_key st \<notin> st_step_key ` set (steps_of s ?i)"
        using run Inr by (auto elim: record_step_Committed [OF ok])
      show ?thesis
        using append_step_keeps [OF asserted_keeps [OF ok fence, of e], of r st "namespace r" e None] r q s' run
        by simp
    next
      case AlreadyCommitted
      have "s' = asserted e ?i owner epoch s"
        by (rule record_step_Already [OF ok run [unfolded Inr AlreadyCommitted]])
      then show ?thesis using asserted_keeps [OF ok fence, of e] run by simp
    qed
  qed
qed

section \<open>Sleeping\<close>

lemma sleep_step_Inr:
  assumes "sleep_step e st wake l n s = Inr (s', out)"
  shows "(\<exists>x d. step_at (ns_job_id st) (ns_seq st) s = Some x \<and> st_step_key x = ns_step_key st
      \<and> st_kind x = ''sleep'' \<and> st_wake_at x = Some d \<and> out = AlreadySleeping d \<and> s' = s)
    \<or> (step_at (ns_job_id st) (ns_seq st) s = None \<and> out = Slept wake
      \<and> ns_seq st = int (length (steps_of s (ns_job_id st)))
      \<and> ns_step_key st \<notin> st_step_key ` set (steps_of s (ns_job_id st))
      \<and> int (length (steps_of s (ns_job_id st))) < int (max_steps l)
      \<and> s' = s\<lparr>job_steps := job_steps s @ [new_step_row e st n (Some wake)]\<rparr>)"
proof (cases "step_at (ns_job_id st) (ns_seq st) s")
  case None
  with assms obtain u1 u2 u3 where
    "check_step_position (ns_job_id st) (ns_seq st) (ns_step_key st) (int (length (steps_of s (ns_job_id st)))) s = Inr u1"
    "check_step_count (int (length (steps_of s (ns_job_id st)))) (ns_step_key st) l = Inr u2"
    "insert_step_row e st n (Some wake) s = Inr (s', u3)" "out = Slept wake"
    by (auto simp: sleep_step_def Let_def step_totals_eq and_then_eq_Inr)
  then show ?thesis using None insert_step_row_Inr
    by (auto simp: check_step_position_Inr check_step_count_Inr)
next
  case (Some x)
  then show ?thesis using assms
    by (auto simp: sleep_step_def Let_def split: if_splits option.splits)
qed

lemma sleep_job_Inr:
  assumes ok: "db_ok s" and run: "sleep_job e st owner attempt epoch wake lims ns s = (s', Inr out)"
  obtains r s1 where "r \<in> set (jobs s)" "jid r = ns_job_id st" "row_status r = status_i32 Running"
    "fence_open (ns_job_id st) owner attempt epoch ns s"
    "sleep_step e st wake (clamped lims) (namespace r) (asserted e (ns_job_id st) owner epoch s) = Inr (s1, out)"
    "s' = s1\<lparr>execution_claims := delete_where (\<lambda>c. cl_job_id c = ns_job_id st) (execution_claims s1),
       jobs := update_where (\<lambda>r. jid r = ns_job_id st \<and> row_status r = status_i32 Running)
         (wake_row (outcome_wake_at out)) (jobs s1)\<rparr>"
proof -
  let ?i = "ns_job_id st"
  have opn: "fence_open ?i owner attempt epoch ns s"
  proof (rule ccontr)
    assume "\<not> ?thesis"
    then show False using run by (simp add: sleep_job_def write_transaction_def Let_def fence_closed [OF ok])
  qed
  obtain r where r: "r \<in> set (jobs s)" "jid r = ?i" "row_status r = status_i32 Running"
    and f: "resolve_attempt_fence e ?i owner attempt epoch ns True s
      = Inr (asserted e ?i owner epoch s, namespace r)"
    by (rule fence_job [OF ok opn]) blast
  from run f obtain s1 where
    "sleep_step e st wake (clamped lims) (namespace r) (asserted e ?i owner epoch s) = Inr (s1, out)"
    and "s' = s1\<lparr>execution_claims := delete_where (\<lambda>c. cl_job_id c = ?i) (execution_claims s1),
       jobs := update_where (\<lambda>r. jid r = ?i \<and> row_status r = status_i32 Running)
         (wake_row (outcome_wake_at out)) (jobs s1)\<rparr>"
    by (auto simp: sleep_job_def write_transaction_cases Let_def and_then_eq_Inr split: if_splits)
  then show ?thesis using that [OF r opn] by blast
qed

lemma wake_row_ok: "row_update_ok (wake_row w) r"
  by (auto simp: row_update_ok_def wake_row_def row_ok_def)

lemma sleep_step_keeps:
  assumes "db_ok s" and "sleep_step e st wake l n s = Inr (s1, out)"
    and "r \<in> set (jobs s)" "jid r = ns_job_id st" "namespace r = n"
  shows "db_ok s1" and "jobs s1 = jobs s" and "execution_claims s1 = execution_claims s"
  using sleep_step_Inr [OF assms(2)] assms(1) append_step_keeps [OF assms(1,3-5)] by auto

lemma sleep_job_keeps: "db_ok s \<Longrightarrow> db_ok (fst (sleep_job e st owner attempt epoch wake lims ns s))"
proof -
  assume ok: "db_ok s"
  let ?i = "ns_job_id st"
  obtain s' res where run: "sleep_job e st owner attempt epoch wake lims ns s = (s', res)" by fastforce
  show ?thesis
  proof (cases res)
    case (Inl err)
    then have "s' = s" using run by (auto simp: sleep_job_def write_transaction_cases Let_def)
    then show ?thesis using ok run by simp
  next
    case (Inr out)
    obtain r s1 where r: "r \<in> set (jobs s)" "jid r = ?i" "fence_open ?i owner attempt epoch ns s"
      and st: "sleep_step e st wake (clamped lims) (namespace r) (asserted e ?i owner epoch s) = Inr (s1, out)"
      and s': "s' = s1\<lparr>execution_claims := delete_where (\<lambda>c. cl_job_id c = ?i) (execution_claims s1),
        jobs := update_where (\<lambda>r. jid r = ?i \<and> row_status r = status_i32 Running)
          (wake_row (outcome_wake_at out)) (jobs s1)\<rparr>"
      by (rule sleep_job_Inr [OF ok run [unfolded Inr]]) blast
    have "db_ok s1" using sleep_step_keeps(1) [OF asserted_keeps [OF ok r(3)] st] r by simp
    then have "db_ok (s1\<lparr>execution_claims := delete_where (\<lambda>c. cl_job_id c = ?i) (execution_claims s1)\<rparr>)"
      by (rule db_ok_delete_claims)
    then have "db_ok s'" unfolding s'
      using update_jobs_keeps [OF _ wake_row_ok, of "s1\<lparr>execution_claims :=
        delete_where (\<lambda>c. cl_job_id c = ?i) (execution_claims s1)\<rparr>"] by simp
    then show ?thesis using run by simp
  qed
qed

text \<open>
  A job's rows all carry its namespace, so a scoped delete removes the whole memo or nothing.
\<close>

lemma delete_job_steps_keeps: "db_ok s \<Longrightarrow> db_ok (fst (delete_job_steps i ns s))"
proof -
  assume ok: "db_ok s"
  let ?p = "\<lambda>x. st_job_id x = i \<and> (case ns of None \<Rightarrow> True | Some n \<Rightarrow> st_namespace x = Some n)"
  let ?s = "s\<lparr>job_steps := delete_where ?p (job_steps s)\<rparr>"
  have same: "st_namespace x = st_namespace y" if "x \<in> set (job_steps s)" "y \<in> set (job_steps s)"
    "st_job_id x = st_job_id y" for x y
  proof -
    obtain r r' where "r \<in> set (jobs s)" "jid r = st_job_id x" "namespace r = st_namespace x"
      "r' \<in> set (jobs s)" "jid r' = st_job_id y" "namespace r' = st_namespace y"
      using ok \<open>x \<in> _\<close> \<open>y \<in> _\<close> unfolding db_ok_def steps_ok_def by metis
    moreover from this have "r = r'"
      using distinct_map_key [OF db_ok_distinct(1) [OF ok]] \<open>st_job_id x = st_job_id y\<close> by metis
    ultimately show ?thesis by simp
  qed
  have "memo_ok (steps_of ?s j)" for j
  proof -
    have other: "steps_of ?s j = steps_of s j" if "j \<noteq> i"
      using that by (auto simp: steps_of_def delete_where_def intro!: filter_cong)
    have "steps_of ?s i = [] \<or> steps_of ?s i = steps_of s i"
    proof (cases "\<exists>x\<in>set (job_steps s). ?p x")
      case True
      then obtain x where x: "x \<in> set (job_steps s)" "?p x" by blast
      have "?p y" if "y \<in> set (job_steps s)" "st_job_id y = i" for y
        using same [OF that(1) x(1)] x(2) that(2) by (simp split: option.splits)
      then have "steps_of ?s i = []" by (auto simp: steps_of_def filter_empty_conv set_delete_where)
      then show ?thesis ..
    next
      case False
      then have "delete_where ?p (job_steps s) = job_steps s" by (intro delete_where_id) blast
      then show ?thesis by (simp add: steps_of_def)
    qed
    with other have "steps_of ?s j = [] \<or> steps_of ?s j = steps_of s j" by (cases "j = i") auto
    then show ?thesis using db_ok_memo [OF ok, of j] by auto
  qed
  moreover have "\<forall>x\<in>set (job_steps ?s). \<exists>r\<in>set (jobs ?s). jid r = st_job_id x \<and> namespace r = st_namespace x"
    using ok by (auto simp: db_ok_def steps_ok_def set_delete_where)
  ultimately have "steps_ok ?s" unfolding steps_ok_def by blast
  then have "db_ok ?s" using ok by (simp add: ok_defs)
  then show ?thesis by (simp add: delete_job_steps_def Let_def)
qed

lemmas steps_all_keep = record_step_keeps sleep_job_keeps delete_job_steps_keeps

section \<open>What a successful sleep leaves\<close>

lemma sleep_job_effect:
  assumes ok: "db_ok s" and kind: "ns_kind st = Sleep"
    and run: "sleep_job e st owner attempt epoch wake lims ns s = (s1, Inr out)"
  shows "\<exists>r\<in>set (jobs s1). jid r = ns_job_id st \<and> row_status r = status_i32 Pending
      \<and> scheduled_at r = outcome_wake_at out \<and> started_at r = None"
    and "ns_job_id st \<notin> cl_job_id ` set (execution_claims s1)"
    and "\<not> fence_open (ns_job_id st) owner' attempt' epoch' ns' s1"
    and "\<exists>x. step_at (ns_job_id st) (ns_seq st) s1 = Some x \<and> st_step_key x = ns_step_key st
      \<and> st_kind x = ''sleep'' \<and> st_wake_at x = Some (outcome_wake_at out)"
    and "\<And>i. i \<noteq> ns_job_id st \<Longrightarrow> steps_of s1 i = steps_of s i"
    and "\<exists>m. steps_of s1 (ns_job_id st) = steps_of s (ns_job_id st) @ m"
proof -
  let ?i = "ns_job_id st"
  let ?p = "\<lambda>r. jid r = ?i \<and> row_status r = status_i32 Running"
  let ?a = "asserted e ?i owner epoch s"
  obtain r s0 where r: "r \<in> set (jobs s)" "jid r = ?i" "row_status r = status_i32 Running"
    and fo: "fence_open ?i owner attempt epoch ns s"
    and st: "sleep_step e st wake (clamped lims) (namespace r) ?a = Inr (s0, out)"
    and s1: "s1 = s0\<lparr>execution_claims := delete_where (\<lambda>c. cl_job_id c = ?i) (execution_claims s0),
      jobs := update_where ?p (wake_row (outcome_wake_at out)) (jobs s0)\<rparr>"
    by (rule sleep_job_Inr [OF ok run]) blast
  have ok_a: "db_ok ?a" by (rule asserted_keeps [OF ok fo])
  have jobs0: "jobs s0 = jobs s" using sleep_step_keeps(2) [OF ok_a st] r by simp
  have ok1: "db_ok s1" using sleep_job_keeps [OF ok, of e st owner attempt epoch wake lims ns] run by simp
  have "wake_row (outcome_wake_at out) r \<in> set (jobs s1)"
    unfolding s1 using r jobs0 by (auto simp: set_update_where intro!: bexI [of _ r])
  then show woken: "\<exists>r\<in>set (jobs s1). jid r = ?i \<and> row_status r = status_i32 Pending
      \<and> scheduled_at r = outcome_wake_at out \<and> started_at r = None"
    using r(2) by (intro bexI [of _ "wake_row (outcome_wake_at out) r"]) (simp_all add: wake_row_def)
  show "?i \<notin> cl_job_id ` set (execution_claims s1)" by (auto simp: s1 set_delete_where)
  show "\<not> fence_open ?i owner' attempt' epoch' ns' s1"
  proof
    assume "fence_open ?i owner' attempt' epoch' ns' s1"
    then obtain x where "x \<in> set (jobs s1)" "jid x = ?i" "row_status x = status_i32 Running"
      by (auto simp: fence_open_def)
    with woken show False using distinct_map_key [OF db_ok_distinct(1) [OF ok1]] by fastforce
  qed
  have at: "step_at ?i (ns_seq st) s1 = step_at ?i (ns_seq st) s0" by (simp add: s1 step_at_def)
  from sleep_step_Inr [OF st]
  show "\<exists>x. step_at ?i (ns_seq st) s1 = Some x \<and> st_step_key x = ns_step_key st
      \<and> st_kind x = ''sleep'' \<and> st_wake_at x = Some (outcome_wake_at out)"
  proof
    assume "step_at ?i (ns_seq st) ?a = None \<and> out = Slept wake
      \<and> ns_seq st = int (length (steps_of ?a ?i)) \<and> ns_step_key st \<notin> st_step_key ` set (steps_of ?a ?i)
      \<and> int (length (steps_of ?a ?i)) < int (max_steps (clamped lims))
      \<and> s0 = ?a\<lparr>job_steps := job_steps ?a @ [new_step_row e st (namespace r) (Some wake)]\<rparr>"
    then have new: "step_at ?i (ns_seq st) ?a = None" "out = Slept wake"
      "s0 = ?a\<lparr>job_steps := job_steps ?a @ [new_step_row e st (namespace r) (Some wake)]\<rparr>" by blast+
    have "step_at ?i (ns_seq st) s0 = Some (new_step_row e st (namespace r) (Some wake))"
      using new(1) by (auto simp: new(3) step_at_def find_None_iff intro!: find_snoc)
    then show ?thesis using kind by (simp add: at new(2))
  qed (auto simp: at)
  show "steps_of s1 i = steps_of s i" if "i \<noteq> ?i" for i
    using sleep_step_Inr [OF st] that by (auto simp: s1 steps_of_def)
  show "\<exists>m. steps_of s1 ?i = steps_of s ?i @ m"
    using sleep_step_Inr [OF st] by (auto simp: s1 steps_of_def)
qed

text \<open>A position once written is found again in every later memo.\<close>

lemma step_at_prefix:
  assumes "db_ok s1" and "db_ok s2" and "steps_of s2 i = steps_of s1 i @ m" and "step_at i q s1 = Some x"
  shows "step_at i q s2 = Some x"
  using assms(3,4) by (auto simp: step_at_eq [OF db_ok_memo] assms(1,2) nth_append split: if_splits)

section \<open>Ceilings\<close>

definition row_bytes :: "step_row \<Rightarrow> nat" where
  "row_bytes x = length (case st_result x of None \<Rightarrow> [] | Some b \<Rightarrow> b)"

definition memo_within :: "step_row list \<Rightarrow> bool" where
  "memo_within m \<longleftrightarrow> length m \<le> MAX_STEPS_CEILING \<and> sum_list (map row_bytes m) \<le> MAX_TOTAL_BYTES_CEILING
     \<and> (\<forall>x\<in>set m. row_bytes x \<le> MAX_STEP_BYTES_CEILING \<and> st_result_len x = int (row_bytes x))"

text \<open>The writes a step session makes: a value, or a deadline without a value.\<close>

datatype step_call =
    CommitStep env new_job_step string int "int option" step_limits "string option"
  | SleepStep env string int string string int "int option" millis step_limits "string option"

definition sleep_request :: "string \<Rightarrow> int \<Rightarrow> string \<Rightarrow> new_job_step" where
  "sleep_request i q key = \<lparr>ns_job_id = i, ns_seq = q, ns_step_key = key, ns_kind = Sleep, ns_result = None\<rparr>"

fun step_write :: "step_call \<Rightarrow> db \<Rightarrow> db" where
  "step_write (CommitStep e st owner attempt epoch lims ns) s =
     fst (record_step_result e st owner attempt epoch lims ns s)"
| "step_write (SleepStep e i q key owner attempt epoch wake lims ns) s =
     fst (sleep_job e (sleep_request i q key) owner attempt epoch wake lims ns s)"

lemma step_write_keeps: "db_ok s \<Longrightarrow> db_ok (step_write c s)"
  by (cases c) (simp_all add: steps_all_keep)

lemma row_bytes_new [simp]: "row_bytes (new_step_row e st n w) = length (step_payload st)"
  by (simp add: row_bytes_def step_payload_def)

lemma clamped_ceilings:
  "max_step_bytes (clamped l) \<le> MAX_STEP_BYTES_CEILING" "max_total_bytes (clamped l) \<le> MAX_TOTAL_BYTES_CEILING"
  "max_steps (clamped l) \<le> MAX_STEPS_CEILING"
  by (simp_all add: clamped_def)

lemma result_len_exact:
  "length p \<le> MAX_STEP_BYTES_CEILING \<Longrightarrow> wrap_i32 (int (length p)) = int (length p)"
  by (rule wrap_i32_id) (simp add: in_i32_def i32_min_def i32_max_def MAX_STEP_BYTES_CEILING_def)

lemma memo_within_snoc:
  assumes "memo_within m" and "length m < MAX_STEPS_CEILING"
    and "row_bytes x \<le> MAX_STEP_BYTES_CEILING" and "st_result_len x = int (row_bytes x)"
    and "sum_list (map row_bytes m) + row_bytes x \<le> MAX_TOTAL_BYTES_CEILING"
  shows "memo_within (m @ [x])"
  using assms by (simp add: memo_within_def)

lemma memo_len_sum: "memo_within m \<Longrightarrow> sum_list (map st_result_len m) = int (sum_list (map row_bytes m))"
  by (induction m) (auto simp: memo_within_def)

lemma step_write_within:
  assumes ok: "db_ok s" and within: "\<forall>i. memo_within (steps_of s i)"
  shows "memo_within (steps_of (step_write c s) i)"
proof (cases c)
  case (CommitStep e st owner attempt epoch lims ns)
  obtain s' res where run: "record_step_result e st owner attempt epoch lims ns s = (s', res)" by fastforce
  consider (same) "job_steps s' = job_steps s" | (new) "res = Inr Committed"
  proof (cases res)
    case (Inl err)
    then have "s' = s" using run
      by (auto simp: record_step_result_def write_transaction_cases Let_def split: if_splits)
    then show thesis using that(1) by simp
  next
    case (Inr k)
    then show thesis using that record_step_Already [OF ok] run
      by (cases k) (metis asserted_sel(2))+
  qed
  then show ?thesis
  proof cases
    case same
    then show ?thesis using within CommitStep run by (simp add: steps_of_def)
  next
    case new
    let ?m = "steps_of s (ns_job_id st)"
    obtain r where s': "s' = (asserted e (ns_job_id st) owner epoch s)\<lparr>job_steps := job_steps s @ [new_step_row e st (namespace (r :: job_row)) None]\<rparr>"
      and caps: "length (step_payload st) \<le> max_step_bytes (clamped lims)"
        "int (length ?m) < int (max_steps (clamped lims))"
        "sum_list (map st_result_len ?m) + int (length (step_payload st)) \<le> int (max_total_bytes (clamped lims))"
      by (rule record_step_Committed [OF ok run [unfolded new]]) blast
    have len: "length (step_payload st) \<le> MAX_STEP_BYTES_CEILING" using caps(1) clamped_ceilings(1) le_trans by blast
    have "memo_within (?m @ [new_step_row e st (namespace r) None])"
    proof (rule memo_within_snoc)
      show "length ?m < MAX_STEPS_CEILING" using caps(2) clamped_ceilings(3) [of lims] by linarith
      show "sum_list (map row_bytes ?m) + row_bytes (new_step_row e st (namespace r) None) \<le> MAX_TOTAL_BYTES_CEILING"
        using caps(3) clamped_ceilings(2) [of lims] within by (simp add: memo_len_sum)
    qed (use within len in \<open>simp_all add: result_len_exact\<close>)
    then show ?thesis using within CommitStep run s' by (auto simp: steps_of_def)
  qed
next
  case (SleepStep e i' q key owner attempt epoch wake lims ns)
  let ?st = "sleep_request i' q key"
  obtain s' res where run: "sleep_job e ?st owner attempt epoch wake lims ns s = (s', res)" by fastforce
  show ?thesis
  proof (cases res)
    case (Inl err)
    then have "s' = s" using run by (auto simp: sleep_job_def write_transaction_cases Let_def)
    then show ?thesis using within SleepStep run by simp
  next
    case (Inr out)
    let ?a = "asserted e i' owner epoch s"
    obtain r s0 where "sleep_step e ?st wake (clamped lims) (namespace (r :: job_row)) ?a = Inr (s0, out)"
      and same: "steps_of s' i = steps_of s0 i"
      by (rule sleep_job_Inr [OF ok run [unfolded Inr]]) (auto simp: sleep_request_def steps_of_def)
    from sleep_step_Inr [OF this(1)] consider "s0 = ?a"
      | "length (steps_of s i') < max_steps (clamped lims)"
        "s0 = ?a\<lparr>job_steps := job_steps s @ [new_step_row e ?st (namespace r) (Some wake)]\<rparr>"
      by (auto simp: sleep_request_def)
    then have "memo_within (steps_of s0 i)"
    proof cases
      case 2
      have "memo_within (steps_of s i' @ [new_step_row e ?st (namespace r) (Some wake)])"
      proof (rule memo_within_snoc)
        show "length (steps_of s i') < MAX_STEPS_CEILING" using 2(1) clamped_ceilings(3) less_le_trans by blast
        show "sum_list (map row_bytes (steps_of s i')) + row_bytes (new_step_row e ?st (namespace r) (Some wake))
          \<le> MAX_TOTAL_BYTES_CEILING" using within by (simp add: memo_within_def sleep_request_def step_payload_def)
      qed (use within in \<open>simp_all add: sleep_request_def step_payload_def in_i32_def i32_min_def i32_max_def\<close>)
      then show ?thesis using within by (auto simp: 2(2) steps_of_def sleep_request_def)
    qed (use within in simp)
    then show ?thesis using SleepStep run same by simp
  qed
qed

section \<open>Properties\<close>

lemma authorize_open: "db_ok s \<Longrightarrow> authorize_attempt e i owner attempt epoch ns s = Inr Authorized \<longleftrightarrow>
    fence_open i owner attempt epoch ns s"
  by (simp add: authorize_attempt_eq)

text \<open>
  C29. A step commits exactly once. A successful commit appends one row at the end of its
  job's memo and touches no other memo. From then on, in every later state of that memo, an
  attempt the fence authorizes that sends the same step again is told it is already committed
  and the memo does not change, and one that sends another result for it is refused.
\<close>

theorem step_commit_once:
  assumes "db_ok s" and "record_step_result e st owner attempt epoch lims ns s = (s1, Inr Committed)"
    and "db_ok s2" and "steps_of s2 (ns_job_id st) = steps_of s1 (ns_job_id st) @ m"
    and "authorize_attempt e' (ns_job_id st) owner' attempt' epoch' ns' s2 = Inr Authorized"
    and "length b \<le> max_step_bytes (clamped lims)" and "b \<noteq> step_payload st"
  shows "(\<exists>x. steps_of s1 (ns_job_id st) = steps_of s (ns_job_id st) @ [x] \<and> st_seq x = ns_seq st
        \<and> st_step_key x = ns_step_key st \<and> st_result x = ns_result st)
    \<and> (\<forall>i. i \<noteq> ns_job_id st \<longrightarrow> steps_of s1 i = steps_of s i)
    \<and> (\<exists>s3. record_step_result e' st owner' attempt' epoch' lims ns' s2 = (s3, Inr AlreadyCommitted)
        \<and> job_steps s3 = job_steps s2)
    \<and> (\<exists>expected found. record_step_result e' (st\<lparr>ns_result := Some b\<rparr>) owner' attempt' epoch' lims ns' s2
        = (s2, Inl (StepDiverged (ns_job_id st) (ns_seq st) expected found)))"
proof -
  let ?i = "ns_job_id st"
  obtain r where s1: "s1 = (asserted e ?i owner epoch s)\<lparr>job_steps := job_steps s @ [new_step_row e st (namespace (r :: job_row)) None]\<rparr>"
    and q: "ns_seq st = int (length (steps_of s ?i))"
    by (rule record_step_Committed [OF assms(1,2)]) blast
  note small = record_step_fence(1) [OF assms(1,2)]
  let ?x = "new_step_row e st (namespace r) None"
  have m1: "steps_of s1 ?i = steps_of s ?i @ [?x]" "\<forall>i. i \<noteq> ?i \<longrightarrow> steps_of s1 i = steps_of s i"
    by (auto simp: s1 steps_of_def)
  have opn: "fence_open ?i owner' attempt' epoch' ns' s2" using assms(3,5) by (simp add: authorize_open)
  have at: "step_at ?i (ns_seq st) s2 = Some ?x"
    using assms(4) q by (simp add: step_at_eq [OF db_ok_memo [OF assms(3)]] m1 nth_append)
  have same: "(case st_result ?x of None \<Rightarrow> [] | Some b \<Rightarrow> b) = step_payload st" by (simp add: step_payload_def)
  have again: "record_step_result e' st owner' attempt' epoch' lims ns' s2
      = (asserted e' ?i owner' epoch' s2, Inr AlreadyCommitted)"
    using record_step_stored [OF assms(3) opn small at, of e'] same by simp
  let ?st = "st\<lparr>ns_result := Some b\<rparr>"
  have "step_payload ?st = b" by (simp add: step_payload_def)
  then have other: "\<exists>expected found. record_step_result e' ?st owner' attempt' epoch' lims ns' s2
        = (s2, Inl (StepDiverged ?i (ns_seq st) expected found))"
    using record_step_stored [of s2 ?st owner' attempt' epoch' ns' lims ?x e'] assms(3,6,7) opn at same by simp
  show ?thesis using m1 again other by simp
qed

definition charge_step :: "bytes \<Rightarrow> new_job_step" where
  "charge_step b = \<lparr>ns_job_id = ''a'', ns_seq = 0, ns_step_key = ''charge#0'', ns_kind = Run, ns_result = Some b\<rparr>"

lemma charge_commit_any:
  assumes "epochs_agree (Some 7) ep"
  shows "record_step_result (plain_env 9) (charge_step [1]) ''w'' 0 ep default_limits None stuck_db
    = (stuck_db\<lparr>job_steps := [new_step_row (plain_env 9) (charge_step [1]) None None]\<rparr>, Inr Committed)"
proof -
  have "resolve_attempt_fence (plain_env 9) ''a'' ''w'' 0 ep None True stuck_db = Inr (stuck_db, None)"
    using assms by (simp add: resolve_attempt_fence_def lock_job_for_step_fence_def stuck_db_def start_row_def)
  moreover have "job_steps stuck_db = []" by (simp add: stuck_db_def)
  ultimately show ?thesis
    by (simp add: record_step_result_def write_transaction_def charge_step_def step_payload_def clamped_def
        default_limits_def DEFAULT_MAX_STEP_BYTES_def MAX_STEP_BYTES_CEILING_def DEFAULT_MAX_TOTAL_BYTES_def
        MAX_TOTAL_BYTES_CEILING_def DEFAULT_MAX_STEPS_def MAX_STEPS_CEILING_def step_at_def step_totals_def
        count_where_def check_step_position_def check_step_count_def insert_step_row_def Let_def)
qed

lemma charge_commit:
  "record_step_result (plain_env 9) (charge_step [1]) ''w'' 0 (Some 7) default_limits None stuck_db
    = (stuck_db\<lparr>job_steps := [new_step_row (plain_env 9) (charge_step [1]) None None]\<rparr>, Inr Committed)"
  by (rule charge_commit_any) simp

theorem step_commit_once_witness:
  "\<exists>s1 expected found. record_step_result (plain_env 9) (charge_step [1]) ''w'' 0 (Some 7) default_limits None stuck_db
      = (s1, Inr Committed)
    \<and> record_step_result (plain_env 9) ((charge_step [1])\<lparr>ns_result := Some [2]\<rparr>) ''w'' 0 (Some 7) default_limits None s1
      = (s1, Inl (StepDiverged ''a'' 0 expected found))"
proof -
  let ?s1 = "stuck_db\<lparr>job_steps := [new_step_row (plain_env 9) (charge_step [1]) None None]\<rparr>"
  have ok1: "db_ok ?s1"
    using record_step_keeps [OF stuck_ok, of "plain_env 9" "charge_step [1]" "''w''" 0 "Some 7" default_limits None]
    by (simp add: charge_commit)
  have auth: "authorize_attempt (plain_env 9) ''a'' ''w'' 0 (Some 7) None ?s1 = Inr Authorized"
    by (simp add: authorize_attempt_def resolve_attempt_fence_def lock_job_for_step_fence_def stuck_db_def start_row_def)
  have "length ([2] :: bytes) \<le> max_step_bytes (clamped default_limits)"
    by (simp add: clamped_def default_limits_def DEFAULT_MAX_STEP_BYTES_def MAX_STEP_BYTES_CEILING_def)
  then show ?thesis
    using step_commit_once [OF stuck_ok charge_commit ok1, of "[]" "plain_env 9" "''w''" 0 "Some 7" None "[2]"] auth charge_commit
    by (auto simp: charge_step_def step_payload_def)
qed

text \<open>
  C30. The caps hold whatever limits the callers configure. Starting from memos within the
  hard ceilings, every sequence of commits and sleeps, of any jobs by any callers under any
  limits, keeps each memo within them: at most 100000 steps and 64 MiB in total, no
  step over 1 MiB, with the stored length of every row the length of its bytes.
\<close>

theorem memo_within_ceilings:
  assumes "db_ok s" and "\<forall>i. memo_within (steps_of s i)"
  shows "memo_within (steps_of (fold step_write calls s) j)"
proof -
  have "db_ok (fold step_write calls s) \<and> (\<forall>i. memo_within (steps_of (fold step_write calls s) i))"
    using assms
    by (induction calls arbitrary: s) (simp_all add: step_write_keeps step_write_within)
  then show ?thesis by blast
qed

theorem memo_within_ceilings_witness:
  "memo_within (steps_of (fold step_write
      [CommitStep (plain_env 9) (charge_step [1]) ''w'' 0 (Some 7) \<lparr>max_step_bytes = 10 ^ 9, max_total_bytes = 10 ^ 9, max_steps = 10 ^ 9\<rparr> None,
       SleepStep (plain_env 10) ''a'' 1 ''sleep#0'' ''w'' 0 (Some 7) 500 default_limits None] stuck_db) ''a'')"
  by (rule memo_within_ceilings [OF stuck_ok])
     (simp add: memo_within_def stuck_db_def steps_of_def)

text \<open>
  C31. A sleep is atomic and its deadline never moves. A successful sleep leaves the job
  pending at the deadline it reports, without a claim and with every attempt superseded.
  Whatever deadline a later authorized attempt asks for at the same position, in every later
  state of the memo, the first one stands and the job is rescheduled to it.
\<close>

theorem sleep_deadline_fixed:
  assumes "db_ok s" and "ns_kind st = Sleep" and "sleep_job e st owner attempt epoch wake lims ns s = (s1, Inr out)"
    and "db_ok s2" and "steps_of s2 (ns_job_id st) = steps_of s1 (ns_job_id st) @ m"
    and "authorize_attempt e' (ns_job_id st) owner' attempt' epoch' ns' s2 = Inr Authorized"
  shows "(\<exists>r\<in>set (jobs s1). jid r = ns_job_id st \<and> row_status r = status_i32 Pending
        \<and> scheduled_at r = outcome_wake_at out \<and> started_at r = None)
    \<and> ns_job_id st \<notin> cl_job_id ` set (execution_claims s1)
    \<and> authorize_attempt e'' (ns_job_id st) owner'' attempt'' epoch'' ns'' s1 = Inr Superseded
    \<and> (\<exists>s3. sleep_job e' st owner' attempt' epoch' wake' lims' ns' s2
          = (s3, Inr (AlreadySleeping (outcome_wake_at out)))
        \<and> (\<exists>r\<in>set (jobs s3). jid r = ns_job_id st \<and> row_status r = status_i32 Pending
            \<and> scheduled_at r = outcome_wake_at out))"
proof -
  let ?i = "ns_job_id st"
  note eff = sleep_job_effect [OF assms(1-3)]
  have ok1: "db_ok s1" using sleep_job_keeps [OF assms(1), of e st owner attempt epoch wake lims ns] assms(3) by simp
  obtain x where x: "step_at ?i (ns_seq st) s1 = Some x" "st_step_key x = ns_step_key st" "st_kind x = ''sleep''"
    "st_wake_at x = Some (outcome_wake_at out)" using eff(4) by blast
  have x2: "step_at ?i (ns_seq st) s2 = Some x" by (rule step_at_prefix [OF ok1 assms(4,5) x(1)])
  have opn: "fence_open ?i owner' attempt' epoch' ns' s2" using assms(4,6) by (simp add: authorize_open)
  let ?a = "asserted e' ?i owner' epoch' s2"
  obtain r where r: "r \<in> set (jobs s2)" "jid r = ?i" "row_status r = status_i32 Running"
    and f: "resolve_attempt_fence e' ?i owner' attempt' epoch' ns' True s2 = Inr (?a, namespace r)"
    by (rule fence_job [OF assms(4) opn]) blast
  have "step_at ?i (ns_seq st) ?a = Some x" using x2 by (simp add: step_at_def)
  then have ss: "sleep_step e' st wake' (clamped lims') (namespace r) ?a
      = Inr (?a, AlreadySleeping (outcome_wake_at out))"
    using x by (simp add: sleep_step_def)
  have "count_where (\<lambda>r. jid r = ?i \<and> row_status r = status_i32 Running) (jobs s2) \<noteq> 0"
    using r by (auto simp: count_where_0)
  then have "\<exists>s3. sleep_job e' st owner' attempt' epoch' wake' lims' ns' s2
      = (s3, Inr (AlreadySleeping (outcome_wake_at out)))"
    using f ss by (simp add: sleep_job_def write_transaction_def Let_def)
  then obtain s3 where s3: "sleep_job e' st owner' attempt' epoch' wake' lims' ns' s2
      = (s3, Inr (AlreadySleeping (outcome_wake_at out)))" ..
  from sleep_job_effect(1) [OF assms(4,2) s3] s3 eff(1,2,3) ok1 show ?thesis
    by (auto simp: authorize_attempt_eq)
qed

theorem sleep_deadline_fixed_witness:
  "\<exists>s1 s3. sleep_job (plain_env 9) (sleep_request ''a'' 0 ''sleep#0'') ''w'' 0 (Some 7) 500 default_limits None stuck_db
      = (s1, Inr (Slept 500))
    \<and> authorize_attempt (plain_env 9) ''a'' ''w'' 0 (Some 7) None s1 = Inr Superseded
    \<and> sleep_job (plain_env 600) (sleep_request ''a'' 0 ''sleep#0'') ''v'' 0 None 1000 default_limits None
        (stuck_db\<lparr>job_steps := job_steps s1, execution_claims := []\<rparr>) = (s3, Inr (AlreadySleeping 500))"
proof -
  let ?st = "sleep_request ''a'' 0 ''sleep#0''"
  let ?r = "new_step_row (plain_env 9) ?st None (Some 500)"
  have nil: "job_steps stuck_db = []" by (simp add: stuck_db_def)
  have f: "resolve_attempt_fence (plain_env 9) ''a'' ''w'' 0 (Some 7) None True stuck_db = Inr (stuck_db, None)"
    by (simp add: resolve_attempt_fence_def lock_job_for_step_fence_def stuck_db_def start_row_def)
  have ss: "sleep_step (plain_env 9) ?st 500 (clamped default_limits) None stuck_db
      = Inr (stuck_db\<lparr>job_steps := [?r]\<rparr>, Slept 500)"
    by (simp add: sleep_step_def sleep_request_def clamped_def default_limits_def DEFAULT_MAX_STEPS_def
        MAX_STEPS_CEILING_def step_at_def step_totals_def nil count_where_def check_step_position_def
        check_step_count_def insert_step_row_def Let_def)
  have "\<exists>s1. sleep_job (plain_env 9) ?st ''w'' 0 (Some 7) 500 default_limits None stuck_db = (s1, Inr (Slept 500))
      \<and> job_steps s1 = [?r]"
    using f ss by (simp add: sleep_job_def write_transaction_def sleep_request_def Let_def)
      (simp add: stuck_db_def count_where_def start_row_def)
  then obtain s1 where s1: "sleep_job (plain_env 9) ?st ''w'' 0 (Some 7) 500 default_limits None stuck_db
      = (s1, Inr (Slept 500))" "job_steps s1 = [?r]" by blast
  let ?s2 = "stuck_db\<lparr>job_steps := job_steps s1, execution_claims := []\<rparr>"
  have "db_ok (stuck_db\<lparr>job_steps := job_steps stuck_db @ [?r]\<rparr>)"
    by (rule append_step_keeps [OF stuck_ok, of "start_row 5 (plain_row ''a'' ''q'' 0 5)"])
       (simp_all add: stuck_db_def sleep_request_def start_row_def steps_of_def)
  then have ok2: "db_ok ?s2" using nil s1(2)
    db_ok_claims [of "stuck_db\<lparr>job_steps := [?r]\<rparr>" "[]"] by simp
  have auth: "authorize_attempt (plain_env 600) ''a'' ''v'' 0 None None ?s2 = Inr Authorized"
    by (simp add: authorize_attempt_def resolve_attempt_fence_def lock_job_for_step_fence_def stuck_db_def start_row_def)
  show ?thesis
    using sleep_deadline_fixed [OF stuck_ok _ s1(1) ok2, of "[]" "plain_env 600" "''v''" 0 None None
        "plain_env 9" "''w''" 0 "Some 7" None 1000 default_limits] auth s1
    by (auto simp: sleep_request_def steps_of_def)
qed

end
