(* ===== verification/Step_Session.thy ===== *)
theory Step_Session
  imports Steps
begin

text \<open>
  One attempt's walk through the steps of its job: the identity of a step (\<open>step/key.rs\<close>),
  the recorded sequence and its divergence check (\<open>step/sequence.rs\<close>), and the session that
  drives the sequence against the step store (\<open>step/session.rs\<close>, \<open>step/store.rs\<close>). A method
  that takes \<open>&mut self\<close> returns the updated sequence also when it fails, since what it
  changed before the error stays changed.
\<close>

section \<open>Step keys\<close>

definition MAX_NAME_BYTES :: nat where "MAX_NAME_BYTES = 128"
definition MAX_KEY_BYTES :: nat where "MAX_KEY_BYTES = 256"
definition OCCURRENCE_SEPARATOR :: char where "OCCURRENCE_SEPARATOR = CHR ''#''"
definition KEY_SEPARATOR :: char where "KEY_SEPARATOR = CHR '':''"

text \<open>
  A string is its UTF-8 bytes. \<open>char_indices\<close> are the offsets that do not hold a continuation
  byte; the ellipsis is its three bytes.
\<close>

definition char_indices :: "string \<Rightarrow> nat list" where
  "char_indices v = filter (\<lambda>k. \<not> (128 \<le> (of_char (v ! k) :: nat) \<and> (of_char (v ! k) :: nat) < 192)) [0..<length v]"

definition ellipsis :: string where
  "ellipsis = [CHR 0xE2, CHR 0x80, CHR 0xA6]"

definition abbreviate :: "string \<Rightarrow> string" where
  "abbreviate v = (if 48 < length (char_indices v) then take (char_indices v ! 48) v @ ellipsis else v)"

definition quoted :: "string \<Rightarrow> string" where
  "quoted v = CHR 0x27 # v @ [CHR 0x27]"

definition validate_name :: "string \<Rightarrow> queue_error + unit" where
  "validate_name name =
     (if name = [] then Inl (Config ''a step name must not be empty'')
      else if MAX_NAME_BYTES < length name
      then Inl (Config (''step name '' @ quoted (abbreviate name) @ '' is '' @ show_nat (length name)
             @ '' bytes, over the '' @ show_nat MAX_NAME_BYTES @ '' byte limit''))
      else (case find (\<lambda>c. c \<in> set name) [OCCURRENCE_SEPARATOR, KEY_SEPARATOR] of
              Some c \<Rightarrow> Inl (Config (''step name '' @ quoted (abbreviate name) @ '' contains '' @ quoted [c]
                  @ '', which separates a name from its key''))
            | None \<Rightarrow> Inr ()))"

definition validate_key :: "string \<Rightarrow> string \<Rightarrow> queue_error + unit" where
  "validate_key name key =
     (if key = []
      then Inl (Config (''step '' @ quoted (abbreviate name)
             @ '' was given an empty key; omit the key to number it by occurrence''))
      else if MAX_KEY_BYTES < length key
      then Inl (Config (''key '' @ quoted (abbreviate key) @ '' of step '' @ quoted (abbreviate name)
             @ '' is '' @ show_nat (length key) @ '' bytes, over the '' @ show_nat MAX_KEY_BYTES @ '' byte limit''))
      else Inr ())"

definition derive :: "string \<Rightarrow> nat \<Rightarrow> queue_error + string" where
  "derive name occurrence =
     and_then (validate_name name) (\<lambda>_. Inr (name @ OCCURRENCE_SEPARATOR # show_nat occurrence))"

definition explicit :: "string \<Rightarrow> string \<Rightarrow> queue_error + string" where
  "explicit name key =
     and_then (validate_name name) (\<lambda>_.
     and_then (validate_key name key) (\<lambda>_. Inr (name @ KEY_SEPARATOR # key)))"

section \<open>The sequence of an attempt\<close>

record pending_step =
  pd_seq :: int
  pd_step_key :: string
  pd_kind :: step_kind

datatype step_decision = Memoized string bytes | RunStep pending_step
datatype sleep_decision = Elapsed string millis | SleepNow pending_step | Resume pending_step
datatype step_match = Recorded nat | NewStep pending_step

definition DEFAULT_SLEEP_NAME :: string where "DEFAULT_SLEEP_NAME = ''sleep''"

record step_sequence =
  sq_job_id :: string
  sq_recorded :: "job_step list"
  sq_claimed :: "bool list"
  sq_by_key :: "string \<Rightarrow> nat option"
  sq_issued :: "string list"
  sq_issued_keys :: "string set"
  sq_occurrences :: "string \<Rightarrow> nat option"
  sq_cursor :: nat
  sq_pending :: "pending_step option"
  sq_stored_count :: nat
  sq_stored_bytes :: nat

type_synonym 'a sq = "step_sequence \<Rightarrow> step_sequence \<times> (queue_error + 'a)"

definition step_result_len :: "job_step \<Rightarrow> nat" where
  "step_result_len st = (case js_result st of None \<Rightarrow> 0 | Some b \<Rightarrow> length b)"

text \<open>The recorded keys with their indexes; of two rows with one key the later wins.\<close>

definition key_index :: "job_step list \<Rightarrow> string \<Rightarrow> nat option" where
  "key_index recorded = map_of (rev (map (\<lambda>(k, st). (js_step_key st, k)) (enumerate 0 recorded)))"

definition sequence_new :: "string \<Rightarrow> job_step list \<Rightarrow> queue_error + step_sequence" where
  "sequence_new i recorded =
     (case find (\<lambda>(k, st). js_seq st \<noteq> wrap_i32 (int k)) (enumerate 0 recorded) of
        Some (k, st) \<Rightarrow>
          Inl (Config (''job '' @ i @ '' has a hole in its step sequence: position '' @ show_nat k
                 @ '' holds seq '' @ show_int (js_seq st)))
      | None \<Rightarrow>
          Inr \<lparr>sq_job_id = i, sq_recorded = recorded, sq_claimed = replicate (length recorded) False,
               sq_by_key = key_index recorded, sq_issued = [], sq_issued_keys = {},
               sq_occurrences = (\<lambda>_. None), sq_cursor = 0, sq_pending = None,
               sq_stored_count = length recorded,
               sq_stored_bytes = sum_list (map step_result_len recorded)\<rparr>)"

definition recorded_keys :: "step_sequence \<Rightarrow> string list" where
  "recorded_keys q = map js_step_key (sq_recorded q)"

definition orphaned_tail :: "step_sequence \<Rightarrow> string list" where
  "orphaned_tail q = map (\<lambda>(st, _). js_step_key st) (filter (\<lambda>(_, c). \<not> c) (zip (sq_recorded q) (sq_claimed q)))"

fun join :: "string \<Rightarrow> string list \<Rightarrow> string" where
  "join sep [] = []"
| "join sep [x] = x"
| "join sep (x # y # xs) = x @ sep @ join sep (y # xs)"

definition render_sequence :: "string list \<Rightarrow> nat \<Rightarrow> string" where
  "render_sequence keys position =
     (if keys = [] then ''(none)''
      else (let stop = min (position + 5 + 1) (length keys);
                start = min (position - 5) stop
            in (if 0 < start then ellipsis @ ''('' @ show_nat start @ '' earlier), '' else [])
               @ join '', '' (map abbreviate (drop start (take stop keys)))
               @ (if stop < length keys
                  then '', '' @ ellipsis @ ''('' @ show_nat (length keys - stop) @ '' more)'' else [])))"

definition divergence :: "nat \<Rightarrow> string \<Rightarrow> step_kind \<Rightarrow> step_sequence \<Rightarrow> queue_error" where
  "divergence position key kind q =
     (let rec = sq_recorded q ! position;
          (expected, found) =
            (if js_step_key rec = key
             then (quoted (js_step_key rec) @ '' as a '' @ kind_as_str (js_kind rec) @ '' step'',
                   quoted key @ '' as a '' @ kind_as_str kind @ '' step'')
             else (quoted (abbreviate (js_step_key rec)), quoted (abbreviate key)))
      in StepSequenceDiverged
           \<lparr>sd_job_id = sq_job_id q, sd_position = position,
            sd_recorded = render_sequence (recorded_keys q) position,
            sd_running = render_sequence (sq_issued q) (length (sq_issued q) - 1),
            sd_expected = expected, sd_found = found\<rparr>)"

definition check_issuable :: "string \<Rightarrow> unit sq" where
  "check_issuable key q =
     (case sq_pending q of
        Some p \<Rightarrow> (q, Inl (Config (''step '' @ quoted (abbreviate key) @ '' of job '' @ sq_job_id q
            @ '' started while step '' @ quoted (abbreviate (pd_step_key p)) @ '' is still uncommitted'')))
      | None \<Rightarrow>
          if key \<in> sq_issued_keys q
          then (q, Inl (Config (''step key '' @ quoted (abbreviate key) @ '' was used twice in one attempt of job ''
                  @ sq_job_id q @ ''; give each keyed step a key of its own'')))
          else (q\<lparr>sq_issued_keys := insert key (sq_issued_keys q), sq_issued := sq_issued q @ [key]\<rparr>, Inr ()))"

text \<open>The positional walk skips what a keyed hit has claimed.\<close>

function skip_claimed :: "bool list \<Rightarrow> nat \<Rightarrow> nat" where
  "skip_claimed cl c = (if c < length cl \<and> cl ! c then skip_claimed cl (Suc c) else c)"
  by auto
termination by (relation "measure (\<lambda>(cl, c). length cl - c)") auto

declare skip_claimed.simps [simp del]

definition recorded_match :: "string \<Rightarrow> bool \<Rightarrow> step_sequence \<Rightarrow> step_sequence \<times> nat option" where
  "recorded_match key keyed q =
     (if keyed then (q, sq_by_key q key)
      else (let c = skip_claimed (sq_claimed q) (sq_cursor q); q = q\<lparr>sq_cursor := c\<rparr>
            in (q, if c < length (sq_recorded q) \<and> js_step_key (sq_recorded q ! c) = key then Some c else None)))"

definition new_ground :: "string \<Rightarrow> step_kind \<Rightarrow> pending_step sq" where
  "new_ground key kind q =
     (if i32_max < int (sq_stored_count q)
      then (q, Inl (Config (''job '' @ sq_job_id q @ '' asked for more steps than a sequence can hold'')))
      else (let p = \<lparr>pd_seq = int (sq_stored_count q), pd_step_key = key, pd_kind = kind\<rparr>
            in (q\<lparr>sq_pending := Some p\<rparr>, Inr p)))"

definition landed :: "string \<Rightarrow> step_kind \<Rightarrow> bool \<Rightarrow> step_match sq" where
  "landed key kind keyed q =
     (case recorded_match key keyed q of
        (q, Some k) \<Rightarrow>
          if js_kind (sq_recorded q ! k) = kind then (q, Inr (Recorded k))
          else (q, Inl (divergence k key kind q))
      | (q, None) \<Rightarrow>
          if keyed \<or> length (sq_recorded q) \<le> sq_cursor q
          then (case new_ground key kind q of
                  (q, Inr p) \<Rightarrow> (q, Inr (NewStep p))
                | (q, Inl err) \<Rightarrow> (q, Inl err))
          else (q, Inl (divergence (sq_cursor q) key kind q)))"

text \<open>The counter is a \<open>u32\<close>.\<close>

definition resolve :: "string \<Rightarrow> string option \<Rightarrow> step_kind \<Rightarrow> step_match sq" where
  "resolve name key kind q =
     (let occ = (case sq_occurrences q name of None \<Rightarrow> 0 | Some n \<Rightarrow> n)
      in case (case key of Some k \<Rightarrow> explicit name k | None \<Rightarrow> derive name occ) of
           Inl err \<Rightarrow> (q, Inl err)
         | Inr step_key \<Rightarrow>
             (case check_issuable step_key q of
                (q, Inl err) \<Rightarrow> (q, Inl err)
              | (q, Inr _) \<Rightarrow>
                  (case landed step_key kind (key \<noteq> None) q of
                     (q, Inl err) \<Rightarrow> (q, Inl err)
                   | (q, Inr m) \<Rightarrow>
                       (if key = None
                        then q\<lparr>sq_occurrences := (sq_occurrences q)(name \<mapsto> (occ + 1) mod 2 ^ 32)\<rparr>
                        else q, Inr m))))"

definition memoize :: "nat \<Rightarrow> step_sequence \<Rightarrow> step_sequence \<times> step_decision" where
  "memoize k q =
     (q\<lparr>sq_claimed := (sq_claimed q)[k := True]\<rparr>,
      Memoized (js_step_key (sq_recorded q ! k))
        (case js_result (sq_recorded q ! k) of None \<Rightarrow> [] | Some b \<Rightarrow> b))"

definition begin_run :: "string \<Rightarrow> string option \<Rightarrow> step_decision sq" where
  "begin_run name key q =
     (case resolve name key Run q of
        (q, Inl err) \<Rightarrow> (q, Inl err)
      | (q, Inr (Recorded k)) \<Rightarrow> (case memoize k q of (q, d) \<Rightarrow> (q, Inr d))
      | (q, Inr (NewStep p)) \<Rightarrow> (q, Inr (RunStep p)))"

definition begin_sleep :: "string option \<Rightarrow> string option \<Rightarrow> millis \<Rightarrow> sleep_decision sq" where
  "begin_sleep name key now q =
     (case resolve (case name of None \<Rightarrow> DEFAULT_SLEEP_NAME | Some n \<Rightarrow> n) key Sleep q of
        (q, Inl err) \<Rightarrow> (q, Inl err)
      | (q, Inr (NewStep p)) \<Rightarrow> (q, Inr (SleepNow p))
      | (q, Inr (Recorded k)) \<Rightarrow>
          (let rec = sq_recorded q ! k
           in case js_wake_at rec of
                None \<Rightarrow> (q, Inl (StepDiverged (sq_job_id q) (js_seq rec) ''a sleep step with a deadline''
                           (quoted (abbreviate (js_step_key rec)) @ '' with none'')))
              | Some wake \<Rightarrow>
                  (let q = q\<lparr>sq_claimed := (sq_claimed q)[k := True]\<rparr>
                   in if wake \<le> now then (q, Inr (Elapsed (js_step_key rec) wake))
                      else (let p = \<lparr>pd_seq = js_seq rec, pd_step_key = js_step_key rec, pd_kind = Sleep\<rparr>
                            in (q\<lparr>sq_pending := Some p\<rparr>, Inr (Resume p))))))"

definition take_pending :: "pending_step \<Rightarrow> unit sq" where
  "take_pending p q =
     (if sq_pending q = Some p then (q\<lparr>sq_pending := None\<rparr>, Inr ())
      else (q, Inl (Config (''step '' @ quoted (abbreviate (pd_step_key p)) @ '' of job '' @ sq_job_id q
              @ '' was committed out of turn''))))"

definition sequence_commit :: "pending_step \<Rightarrow> nat \<Rightarrow> unit sq" where
  "sequence_commit p len q =
     (case take_pending p q of
        (q, Inl err) \<Rightarrow> (q, Inl err)
      | (q, Inr _) \<Rightarrow> (q\<lparr>sq_stored_count := sq_stored_count q + 1,
                       sq_stored_bytes := sq_stored_bytes q + len\<rparr>, Inr ()))"

definition sequence_commit_sleep :: "pending_step \<Rightarrow> sleep_outcome \<Rightarrow> unit sq" where
  "sequence_commit_sleep p out q =
     (case take_pending p q of
        (q, Inl err) \<Rightarrow> (q, Inl err)
      | (q, Inr _) \<Rightarrow>
          ((case out of Slept _ \<Rightarrow> q\<lparr>sq_stored_count := sq_stored_count q + 1\<rparr> | AlreadySleeping _ \<Rightarrow> q), Inr ()))"

section \<open>Sessions\<close>

text \<open>\<open>StorageSteps\<close>: the fence every write of the session carries.\<close>

record storage_steps =
  ss_owner :: string
  ss_attempt :: int
  ss_epoch :: "int option"

definition storage_steps_new :: "string \<Rightarrow> int \<Rightarrow> storage_steps" where
  "storage_steps_new owner attempt = \<lparr>ss_owner = owner, ss_attempt = attempt, ss_epoch = None\<rparr>"

definition with_epoch :: "int option \<Rightarrow> storage_steps \<Rightarrow> storage_steps" where
  "with_epoch ep st = st\<lparr>ss_epoch := ep\<rparr>"

definition store_commit_step ::
  "env \<Rightarrow> storage_steps \<Rightarrow> new_job_step \<Rightarrow> step_limits \<Rightarrow> string option \<Rightarrow> step_commit op" where
  "store_commit_step e st step lims ns =
     record_step_result e step (ss_owner st) (ss_attempt st) (ss_epoch st) lims ns"

definition store_commit_sleep ::
  "env \<Rightarrow> storage_steps \<Rightarrow> new_job_step \<Rightarrow> millis \<Rightarrow> step_limits \<Rightarrow> string option \<Rightarrow> sleep_outcome op" where
  "store_commit_sleep e st step wake lims ns =
     sleep_job e step (ss_owner st) (ss_attempt st) (ss_epoch st) wake lims ns"

record step_session =
  se_store :: storage_steps
  se_job_id :: string
  se_run_key :: string
  se_namespace :: "string option"
  se_limits :: step_limits
  se_sequence :: step_sequence

type_synonym 'a session_op = "step_session \<Rightarrow> db \<Rightarrow> step_session \<times> db \<times> (queue_error + 'a)"

definition session_open :: "env \<Rightarrow> storage_steps \<Rightarrow> job \<Rightarrow> step_limits \<Rightarrow> db \<Rightarrow> queue_error + step_session" where
  "session_open e store j lims s =
     (if \<not> supports_steps
      then Inl (Config (''job '' @ jid j @ '' uses durable steps, which this storage backend does not implement''))
      else and_then (sequence_new (jid j) (get_job_steps (jid j) (namespace j) s)) (\<lambda>q.
             Inr \<lparr>se_store = store, se_job_id = jid j, se_run_key = run_key e j, se_namespace = namespace j,
                  se_limits = lims, se_sequence = q\<rparr>))"

definition session_load :: "env \<Rightarrow> job \<Rightarrow> string \<Rightarrow> step_limits \<Rightarrow> db \<Rightarrow> queue_error + step_session" where
  "session_load e j owner lims = session_open e (storage_steps_new owner (retry_count j)) j lims"

definition session_idempotency_key :: "step_session \<Rightarrow> string \<Rightarrow> string" where
  "session_idempotency_key ss key = idempotency_key (se_run_key ss) key"

definition check_caps :: "step_session \<Rightarrow> pending_step \<Rightarrow> bytes \<Rightarrow> queue_error + unit" where
  "check_caps ss p encoded =
     (let l = clamped (se_limits ss);
          too_large = (\<lambda>limit actual allowed. Inl (StepLimitExceeded (pd_step_key p) limit (int actual) (int allowed)));
          steps = sq_stored_count (se_sequence ss) + 1;
          total = sq_stored_bytes (se_sequence ss) + length encoded
      in if max_step_bytes l < length encoded then too_large ''step bytes'' (length encoded) (max_step_bytes l)
         else if max_steps l < steps then too_large ''step count'' steps (max_steps l)
         else if max_total_bytes l < total then too_large ''total bytes'' total (max_total_bytes l)
         else Inr ())"

definition session_begin_run :: "string \<Rightarrow> string option \<Rightarrow> step_session \<Rightarrow> step_session \<times> (queue_error + step_decision)" where
  "session_begin_run name key ss =
     (case begin_run name key (se_sequence ss) of (q, r) \<Rightarrow> (ss\<lparr>se_sequence := q\<rparr>, r))"

definition commit_run :: "env \<Rightarrow> pending_step \<Rightarrow> bytes \<Rightarrow> step_commit session_op" where
  "commit_run e p encoded ss s =
     (case check_caps ss p encoded of
        Inl err \<Rightarrow> (ss, s, Inl err)
      | Inr _ \<Rightarrow>
          (case store_commit_step e (se_store ss)
                  \<lparr>ns_job_id = se_job_id ss, ns_seq = pd_seq p, ns_step_key = pd_step_key p,
                   ns_kind = pd_kind p, ns_result = Some encoded\<rparr> (se_limits ss) (se_namespace ss) s of
             (s, Inl err) \<Rightarrow> (ss, s, Inl err)
           | (s, Inr c) \<Rightarrow>
               (case sequence_commit p (length encoded) (se_sequence ss) of
                  (q, Inl err) \<Rightarrow> (ss\<lparr>se_sequence := q\<rparr>, s, Inl err)
                | (q, Inr _) \<Rightarrow> (ss\<lparr>se_sequence := q\<rparr>, s, Inr c))))"

definition session_run :: "env \<Rightarrow> string \<Rightarrow> string option \<Rightarrow> (string \<Rightarrow> queue_error + bytes) \<Rightarrow> bytes session_op" where
  "session_run e name key body ss s =
     (case session_begin_run name key ss of
        (ss, Inl err) \<Rightarrow> (ss, s, Inl err)
      | (ss, Inr (Memoized _ result)) \<Rightarrow> (ss, s, Inr result)
      | (ss, Inr (RunStep p)) \<Rightarrow>
          (case body (session_idempotency_key ss (pd_step_key p)) of
             Inl err \<Rightarrow> (ss, s, Inl err)
           | Inr encoded \<Rightarrow>
               (case commit_run e p encoded ss s of
                  (ss, s, Inl err) \<Rightarrow> (ss, s, Inl err)
                | (ss, s, Inr _) \<Rightarrow> (ss, s, Inr encoded))))"

datatype step_sleep = SleepElapsed string millis | Sleeping string millis

text \<open>The second half of \<open>sleep_at\<close>: commit the deadline of an issued sleep, fresh or resumed.\<close>

definition commit_pending_sleep :: "env \<Rightarrow> pending_step \<Rightarrow> bool \<Rightarrow> millis \<Rightarrow> step_sleep session_op" where
  "commit_pending_sleep e p fresh wake ss s =
     (case (if fresh then check_caps ss p [] else Inr ()) of
        Inl err \<Rightarrow> (ss, s, Inl err)
      | Inr _ \<Rightarrow>
          (case store_commit_sleep e (se_store ss)
                  \<lparr>ns_job_id = se_job_id ss, ns_seq = pd_seq p, ns_step_key = pd_step_key p,
                   ns_kind = Sleep, ns_result = None\<rparr> wake (se_limits ss) (se_namespace ss) s of
             (s, Inl err) \<Rightarrow> (ss, s, Inl err)
           | (s, Inr out) \<Rightarrow>
               (case sequence_commit_sleep p out (se_sequence ss) of
                  (q, Inl err) \<Rightarrow> (ss\<lparr>se_sequence := q\<rparr>, s, Inl err)
                | (q, Inr _) \<Rightarrow>
                    (ss\<lparr>se_sequence := q\<rparr>, s, Inr (Sleeping (pd_step_key p) (outcome_wake_at out))))))"

definition sleep_at :: "env \<Rightarrow> string option \<Rightarrow> string option \<Rightarrow> millis \<Rightarrow> millis \<Rightarrow> step_sleep session_op" where
  "sleep_at e name key wake now ss s =
     (case begin_sleep name key now (se_sequence ss) of
        (q, Inl err) \<Rightarrow> (ss\<lparr>se_sequence := q\<rparr>, s, Inl err)
      | (q, Inr (Elapsed step_key w)) \<Rightarrow> (ss\<lparr>se_sequence := q\<rparr>, s, Inr (SleepElapsed step_key w))
      | (q, Inr (SleepNow p)) \<Rightarrow> commit_pending_sleep e p True wake (ss\<lparr>se_sequence := q\<rparr>) s
      | (q, Inr (Resume p)) \<Rightarrow> commit_pending_sleep e p False wake (ss\<lparr>se_sequence := q\<rparr>) s)"

definition sleep_for :: "env \<Rightarrow> string option \<Rightarrow> string option \<Rightarrow> millis \<Rightarrow> step_sleep session_op" where
  "sleep_for e name key duration =
     sleep_at e name key (saturating_add (now_millis e) duration) (now_millis e)"

definition sleep_until :: "env \<Rightarrow> string option \<Rightarrow> string option \<Rightarrow> millis \<Rightarrow> step_sleep session_op" where
  "sleep_until e name key wake = sleep_at e name key wake (now_millis e)"

section \<open>Keys are unambiguous\<close>

text \<open>The two ways a step is named.\<close>

datatype step_id = Numbered string nat | Keyed string string

fun key_of :: "step_id \<Rightarrow> queue_error + string" where
  "key_of (Numbered name n) = derive name n"
| "key_of (Keyed name k) = explicit name k"

lemma validate_name_Inr:
  "validate_name name = Inr u \<longleftrightarrow> name \<noteq> [] \<and> length name \<le> 128 \<and> CHR ''#'' \<notin> set name \<and> CHR '':'' \<notin> set name"
  by (auto simp: validate_name_def MAX_NAME_BYTES_def OCCURRENCE_SEPARATOR_def KEY_SEPARATOR_def)

text \<open>A key splits at its first separator.\<close>

fun id_name :: "step_id \<Rightarrow> string" where
  "id_name (Numbered name n) = name" | "id_name (Keyed name k) = name"

fun id_rest :: "step_id \<Rightarrow> string" where
  "id_rest (Numbered name n) = CHR ''#'' # show_nat n" | "id_rest (Keyed name k) = CHR '':'' # k"

lemma key_of_split:
  assumes "key_of a = Inr k"
  shows "takeWhile (\<lambda>c. c \<noteq> CHR ''#'' \<and> c \<noteq> CHR '':'') k = id_name a" and "k = id_name a @ id_rest a"
proof -
  have k: "k = id_name a @ id_rest a" "CHR ''#'' \<notin> set (id_name a)" "CHR '':'' \<notin> set (id_name a)"
    using assms
    by (cases a; auto simp: derive_def explicit_def and_then_eq_Inr validate_name_Inr OCCURRENCE_SEPARATOR_def
        KEY_SEPARATOR_def)+
  moreover have "takeWhile (\<lambda>c. c \<noteq> CHR ''#'' \<and> c \<noteq> CHR '':'') (id_rest a) = []" by (cases a) auto
  ultimately show "takeWhile (\<lambda>c. c \<noteq> CHR ''#'' \<and> c \<noteq> CHR '':'') k = id_name a"
    by (subst k(1), subst takeWhile_append2) auto
  show "k = id_name a @ id_rest a" by (rule k(1))
qed

section \<open>Replaying a sequence\<close>

definition first_open :: "bool list \<Rightarrow> nat" where
  "first_open cl = length (takeWhile (\<lambda>b. b) cl)"

lemma skip_claimed_eq:
  "c \<le> length cl \<Longrightarrow> \<forall>j<c. cl ! j \<Longrightarrow> skip_claimed cl c = first_open cl"
proof (induction cl c rule: skip_claimed.induct)
  case (1 cl c)
  show ?case
  proof (cases "c < length cl \<and> cl ! c")
    case True
    then show ?thesis using 1 by (subst skip_claimed.simps) (auto simp: less_Suc_eq)
  next
    case False
    have "\<forall>x\<in>set (take c cl). x" using "1.prems" by (auto simp: in_set_conv_nth)
    then have "takeWhile (\<lambda>b. b) (take c cl @ drop c cl) = take c cl @ takeWhile (\<lambda>b. b) (drop c cl)"
      by (intro takeWhile_append2) auto
    moreover have "takeWhile (\<lambda>b. b) (drop c cl) = []"
      using False "1.prems"(1) by (cases "c < length cl") (auto simp: Cons_nth_drop_Suc [symmetric])
    ultimately have "first_open cl = c" using "1.prems"(1) by (simp add: first_open_def)
    then show ?thesis using False by (subst skip_claimed.simps) auto
  qed
qed

lemma first_open_le: "first_open cl \<le> length cl"
  by (simp add: first_open_def length_takeWhile_le)

lemma first_open_below: "j < first_open cl \<Longrightarrow> cl ! j"
  unfolding first_open_def by (metis nth_mem set_takeWhileD takeWhile_nth)

lemma first_open_append:
  "first_open (xs @ ys) = (if first_open xs < length xs then first_open xs else length xs + first_open ys)"
  by (induction xs) (auto simp: first_open_def)

lemma first_open_replicate: "first_open (replicate k True @ ys) = k + first_open ys"
  by (induction k) (auto simp: first_open_def)

lemma first_open_closed: "first_open (False # ys) = 0"
  by (simp add: first_open_def)

lemma key_index_Some:
  assumes "distinct (map js_step_key rec)"
  shows "key_index rec key = Some k \<longleftrightarrow> k < length rec \<and> js_step_key (rec ! k) = key"
proof -
  let ?xs = "map (\<lambda>(k, st). (js_step_key st, k)) (enumerate 0 rec)"
  have xs: "?xs = map (\<lambda>k. (js_step_key (rec ! k), k)) [0..<length rec]"
    by (rule nth_equalityI) (simp_all add: nth_enumerate_eq)
  have "map fst ?xs = map js_step_key rec"
    unfolding xs by (rule nth_equalityI) simp_all
  then have "distinct (map fst (rev ?xs))" using assms by (simp add: rev_map [symmetric] del: map_map)
  then have "key_index rec key = Some k \<longleftrightarrow> (key, k) \<in> set ?xs"
    unfolding key_index_def by (subst map_of_eq_Some_iff) simp_all
  also have "\<dots> \<longleftrightarrow> k < length rec \<and> js_step_key (rec ! k) = key"
    unfolding xs by auto
  finally show ?thesis .
qed

text \<open>
  A replay follows a first walk. \<open>M\<close> is the memo the replay was opened on. The first walk
  was opened on a prefix of it and has committed the rows up to its \<open>stored_count\<close>; the
  replay has claimed the same recorded rows, all the committed ones, and none after them.
\<close>

definition walk_ok :: "step_sequence \<Rightarrow> bool" where
  "walk_ok q \<longleftrightarrow> length (sq_claimed q) = length (sq_recorded q) \<and> sq_cursor q \<le> length (sq_claimed q)
     \<and> (\<forall>j < sq_cursor q. sq_claimed q ! j) \<and> sq_by_key q = key_index (sq_recorded q)
     \<and> distinct (map js_step_key (sq_recorded q)) \<and> sq_pending q = None"

definition replays :: "job_step list \<Rightarrow> step_sequence \<Rightarrow> step_sequence \<Rightarrow> bool" where
  "replays M q1 q2 \<longleftrightarrow> walk_ok q1 \<and> walk_ok q2 \<and> sq_recorded q2 = M
     \<and> length (sq_recorded q1) \<le> sq_stored_count q1 \<and> sq_stored_count q1 \<le> length M
     \<and> sq_recorded q1 = take (length (sq_recorded q1)) M
     \<and> sq_claimed q2 = sq_claimed q1 @ replicate (sq_stored_count q1 - length (sq_recorded q1)) True
         @ replicate (length M - sq_stored_count q1) False
     \<and> sq_issued_keys q2 = sq_issued_keys q1 \<and> sq_occurrences q2 = sq_occurrences q1"

lemma replays_recorded: "replays M q1 q2 \<Longrightarrow> k < length (sq_recorded q1) \<Longrightarrow> sq_recorded q1 ! k = M ! k"
  unfolding replays_def by (metis nth_take)

lemma walk_ok_cursor: "walk_ok q \<Longrightarrow> walk_ok (q\<lparr>sq_cursor := first_open (sq_claimed q)\<rparr>)"
  using first_open_le [of "sq_claimed q"] by (simp add: walk_ok_def first_open_below)

lemma walk_skip: "walk_ok q \<Longrightarrow> skip_claimed (sq_claimed q) (sq_cursor q) = first_open (sq_claimed q)"
  by (simp add: walk_ok_def skip_claimed_eq)

text \<open>The recorded row a key resolves to, in both walks.\<close>

lemma recorded_match_eq:
  assumes "walk_ok q"
  shows "recorded_match key keyed q =
    (if keyed then (q, key_index (sq_recorded q) key)
     else (q\<lparr>sq_cursor := first_open (sq_claimed q)\<rparr>,
       if first_open (sq_claimed q) < length (sq_recorded q) \<and> js_step_key (sq_recorded q ! first_open (sq_claimed q)) = key
       then Some (first_open (sq_claimed q)) else None))"
  using assms by (simp add: recorded_match_def walk_skip Let_def) (simp add: walk_ok_def)

lemma replays_cursor:
  "replays M q1 q2 \<Longrightarrow> replays M (q1\<lparr>sq_cursor := first_open (sq_claimed q1)\<rparr>) (q2\<lparr>sq_cursor := first_open (sq_claimed q2)\<rparr>)"
  using walk_ok_cursor [of q1] walk_ok_cursor [of q2] unfolding replays_def by simp

lemma match_recorded:
  assumes r: "replays M q1 q2" and m: "recorded_match key keyed q1 = (q1', Some k)"
  shows "\<exists>q2'. recorded_match key keyed q2 = (q2', Some k) \<and> replays M q1' q2'" and "k < length (sq_recorded q1)"
    and "sq_recorded q1' = sq_recorded q1"
proof -
  have w: "walk_ok q1" "walk_ok q2" and M: "sq_recorded q2 = M" "length (sq_recorded q1) \<le> length M"
    using r by (auto simp: replays_def)
  show k: "k < length (sq_recorded q1)"
    using m w by (auto simp: recorded_match_eq key_index_Some walk_ok_def split: if_splits)
  show "sq_recorded q1' = sq_recorded q1" using m by (auto simp: recorded_match_eq [OF w(1)] split: if_splits)
  have Mk: "M ! k = sq_recorded q1 ! k" using replays_recorded [OF r k] by simp
  show "\<exists>q2'. recorded_match key keyed q2 = (q2', Some k) \<and> replays M q1' q2'"
  proof (cases keyed)
    case True
    then have "key_index (sq_recorded q2) key = Some k" "q1' = q1"
      using m w k M Mk by (auto simp: recorded_match_eq key_index_Some walk_ok_def)
    then show ?thesis using True r w by (simp add: recorded_match_eq)
  next
    case False
    then have c: "first_open (sq_claimed q1) = k" "js_step_key (sq_recorded q1 ! k) = key"
      "q1' = q1\<lparr>sq_cursor := first_open (sq_claimed q1)\<rparr>"
      using m w by (auto simp: recorded_match_eq split: if_splits)
    have "first_open (sq_claimed q2) = k"
      using r c(1) k by (simp add: replays_def first_open_append walk_ok_def)
    then show ?thesis using False c w k M Mk replays_cursor [OF r] by (simp add: recorded_match_eq)
  qed
qed

lemma match_new:
  assumes r: "replays M q1 q2" and m: "recorded_match key keyed q1 = (q1', None)"
    and new: "keyed \<or> length (sq_recorded q1') \<le> sq_cursor q1'"
    and n: "sq_stored_count q1 < length M" "js_step_key (M ! sq_stored_count q1) = key"
  shows "\<exists>q2'. recorded_match key keyed q2 = (q2', Some (sq_stored_count q1)) \<and> replays M q1' q2'"
    and "sq_stored_count q1' = sq_stored_count q1"
proof -
  have w: "walk_ok q1" "walk_ok q2" and M: "sq_recorded q2 = M" using r by (auto simp: replays_def)
  show "sq_stored_count q1' = sq_stored_count q1" using m by (auto simp: recorded_match_eq [OF w(1)] split: if_splits)
  show "\<exists>q2'. recorded_match key keyed q2 = (q2', Some (sq_stored_count q1)) \<and> replays M q1' q2'"
  proof (cases keyed)
    case True
    then have "key_index (sq_recorded q2) key = Some (sq_stored_count q1)" "q1' = q1"
      using m w n M by (auto simp: recorded_match_eq key_index_Some walk_ok_def)
    then show ?thesis using True r w by (simp add: recorded_match_eq)
  next
    case False
    then have q1': "q1' = q1\<lparr>sq_cursor := first_open (sq_claimed q1)\<rparr>"
      and "length (sq_claimed q1) \<le> first_open (sq_claimed q1)"
      using m w new by (auto simp: recorded_match_eq walk_ok_def split: if_splits)
    then have "first_open (sq_claimed q2) = length (sq_claimed q1)
        + first_open (replicate (sq_stored_count q1 - length (sq_recorded q1)) True
            @ replicate (Suc (length M - sq_stored_count q1 - 1)) False)"
      using r n(1) by (simp add: replays_def first_open_append Suc_diff_Suc)
    then have "first_open (sq_claimed q2) = sq_stored_count q1"
      using r by (simp add: first_open_replicate first_open_closed replays_def walk_ok_def)
    then show ?thesis using False w M n q1' replays_cursor [OF r] by (simp add: recorded_match_eq)
  qed
qed

lemma landed_recorded:
  assumes r: "replays M q1 q2" and l: "landed key kind keyed q1 = (q1', Inr (Recorded k))"
  shows "\<exists>q2'. landed key kind keyed q2 = (q2', Inr (Recorded k)) \<and> replays M q1' q2'"
    and "k < length (sq_recorded q1)" and "js_kind (M ! k) = kind"
proof -
  have m: "recorded_match key keyed q1 = (q1', Some k)" and kind: "js_kind (sq_recorded q1' ! k) = kind"
    using l by (auto simp: landed_def new_ground_def Let_def split: prod.splits option.splits if_splits)
  note eqs = match_recorded [OF r m]
  show k: "k < length (sq_recorded q1)" by (rule eqs(2))
  show Mk: "js_kind (M ! k) = kind" using kind eqs(3) replays_recorded [OF r k] by simp
  obtain q2' where q2': "recorded_match key keyed q2 = (q2', Some k)" "replays M q1' q2'" using eqs(1) by blast
  then have "sq_recorded q2' = M" by (simp add: replays_def)
  then show "\<exists>q2'. landed key kind keyed q2 = (q2', Inr (Recorded k)) \<and> replays M q1' q2'"
    using q2' Mk by (simp add: landed_def)
qed

lemma landed_new:
  assumes r: "replays M q1 q2" and l: "landed key kind keyed q1 = (q1', Inr (NewStep p))"
  shows "p = \<lparr>pd_seq = int (sq_stored_count q1), pd_step_key = key, pd_kind = kind\<rparr>"
    and "sq_pending q1' = Some p" and "sq_stored_count q1' = sq_stored_count q1"
    and "sq_recorded q1' = sq_recorded q1"
    and "sq_stored_count q1 < length M \<Longrightarrow> js_step_key (M ! sq_stored_count q1) = key \<Longrightarrow>
      js_kind (M ! sq_stored_count q1) = kind \<Longrightarrow>
      \<exists>q2'. landed key kind keyed q2 = (q2', Inr (Recorded (sq_stored_count q1)))
        \<and> replays M (q1'\<lparr>sq_pending := None\<rparr>) q2'"
proof -
  have w: "walk_ok q1" using r by (simp add: replays_def)
  obtain q0 where m: "recorded_match key keyed q1 = (q0, None)"
    and new: "keyed \<or> length (sq_recorded q0) \<le> sq_cursor q0"
    and p: "p = \<lparr>pd_seq = int (sq_stored_count q0), pd_step_key = key, pd_kind = kind\<rparr>"
    and q1': "q1' = q0\<lparr>sq_pending := Some p\<rparr>"
    using l by (auto simp: landed_def new_ground_def Let_def split: prod.splits option.splits if_splits)
  have q0: "sq_stored_count q0 = sq_stored_count q1" "sq_recorded q0 = sq_recorded q1" "sq_pending q0 = None"
    using m w by (auto simp: recorded_match_eq walk_ok_def split: if_splits)
  show "p = \<lparr>pd_seq = int (sq_stored_count q1), pd_step_key = key, pd_kind = kind\<rparr>" using p q0 by simp
  show "sq_pending q1' = Some p" "sq_stored_count q1' = sq_stored_count q1" "sq_recorded q1' = sq_recorded q1"
    using q1' q0 by simp_all
  have "q0\<lparr>sq_pending := None\<rparr> = q0" using q0(3) by (metis step_sequence.surjective step_sequence.update_convs(9) step_sequence.select_convs(9))
  then have restore: "q1'\<lparr>sq_pending := None\<rparr> = q0" using q1' by simp
  assume n: "sq_stored_count q1 < length M" "js_step_key (M ! sq_stored_count q1) = key"
    "js_kind (M ! sq_stored_count q1) = kind"
  obtain q2' where q2': "recorded_match key keyed q2 = (q2', Some (sq_stored_count q1))" "replays M q0 q2'"
    using match_new(1) [OF r m new n(1,2)] by blast
  then have "sq_recorded q2' = M" by (simp add: replays_def)
  then show "\<exists>q2'. landed key kind keyed q2 = (q2', Inr (Recorded (sq_stored_count q1)))
        \<and> replays M (q1'\<lparr>sq_pending := None\<rparr>) q2'"
    using q2' n(3) restore by (auto simp: landed_def)
qed

text \<open>The key a request is issued under, and the sequence with that key spent.\<close>

definition request_key :: "string \<Rightarrow> string option \<Rightarrow> step_sequence \<Rightarrow> queue_error + string" where
  "request_key name key q =
     (case key of Some k \<Rightarrow> explicit name k
      | None \<Rightarrow> derive name (case sq_occurrences q name of None \<Rightarrow> 0 | Some n \<Rightarrow> n))"

definition spend :: "string \<Rightarrow> string option \<Rightarrow> step_sequence \<Rightarrow> step_sequence" where
  "spend name key q =
     (if key = None
      then q\<lparr>sq_occurrences := (sq_occurrences q)
              (name \<mapsto> ((case sq_occurrences q name of None \<Rightarrow> 0 | Some n \<Rightarrow> n) + 1) mod 2 ^ 32)\<rparr>
      else q)"

abbreviation issue_key :: "string \<Rightarrow> step_sequence \<Rightarrow> step_sequence" where
  "issue_key key q \<equiv> q\<lparr>sq_issued_keys := insert key (sq_issued_keys q), sq_issued := sq_issued q @ [key]\<rparr>"

lemma landed_occurrences: "landed key kind keyed q = (q', r) \<Longrightarrow> sq_occurrences q' = sq_occurrences q"
  by (auto simp: landed_def recorded_match_def new_ground_def Let_def split: prod.splits option.splits if_splits)

lemma resolve_Inr:
  assumes "sq_pending q = None"
  shows "resolve name key kind q = (q', Inr m) \<longleftrightarrow>
    (\<exists>k q0. request_key name key q = Inr k \<and> k \<notin> sq_issued_keys q
       \<and> landed k kind (key \<noteq> None) (issue_key k q) = (q0, Inr m) \<and> q' = spend name key q0)"
proof (cases "request_key name key q")
  case (Inl err)
  then show ?thesis by (auto simp: resolve_def request_key_def Let_def)
next
  case (Inr k)
  show ?thesis
  proof (cases "k \<in> sq_issued_keys q")
    case True
    then show ?thesis using Inr assms by (auto simp: resolve_def request_key_def check_issuable_def Let_def)
  next
    case False
    obtain q0 r where l: "landed k kind (key \<noteq> None) (issue_key k q) = (q0, r)" by fastforce
    then have "sq_occurrences q0 = sq_occurrences q" using landed_occurrences by fastforce
    then show ?thesis using Inr assms False l
      by (cases r) (auto simp: resolve_def request_key_def check_issuable_def spend_def Let_def)
  qed
qed

lemma walk_ok_frame [simp]:
  "walk_ok (issue_key k q) = walk_ok q" "walk_ok (spend name key q) = walk_ok q"
  by (simp_all add: walk_ok_def spend_def)

lemma replays_issue: "replays M q1 q2 \<Longrightarrow> replays M (issue_key k q1) (issue_key k q2)"
  unfolding replays_def walk_ok_frame by simp

lemma replays_spend: "replays M q1 q2 \<Longrightarrow> replays M (spend name key q1) (spend name key q2)"
  unfolding replays_def walk_ok_frame by (simp add: spend_def)

lemma replays_request_key: "replays M q1 q2 \<Longrightarrow> request_key name key q2 = request_key name key q1"
  unfolding replays_def request_key_def by (cases key) auto

lemma replays_pending: "replays M q1 q2 \<Longrightarrow> sq_pending q1 = None \<and> sq_pending q2 = None"
  by (simp add: replays_def walk_ok_def)

lemma resolve_recorded:
  assumes r: "replays M q1 q2" and res: "resolve name key kind q1 = (q1', Inr (Recorded k))"
  shows "\<exists>q2'. resolve name key kind q2 = (q2', Inr (Recorded k)) \<and> replays M q1' q2'"
    and "k < length (sq_recorded q1)" and "js_kind (M ! k) = kind"
proof -
  note none = replays_pending [OF r]
  obtain sk q0 where sk: "request_key name key q1 = Inr sk" "sk \<notin> sq_issued_keys q1"
    and l: "landed sk kind (key \<noteq> None) (issue_key sk q1) = (q0, Inr (Recorded k))" and q1': "q1' = spend name key q0"
    using res none by (auto simp: resolve_Inr)
  note land = landed_recorded [OF replays_issue [OF r] l]
  show "k < length (sq_recorded q1)" "js_kind (M ! k) = kind" using land(2,3) by simp_all
  obtain q2' where "landed sk kind (key \<noteq> None) (issue_key sk q2) = (q2', Inr (Recorded k))" "replays M q0 q2'"
    using land(1) by blast
  then show "\<exists>q2'. resolve name key kind q2 = (q2', Inr (Recorded k)) \<and> replays M q1' q2'"
    using sk none r q1' replays_spend [of M q0 q2' name key]
    by (auto simp: resolve_Inr replays_request_key [OF r] replays_def [of M q1 q2])
qed

lemma resolve_new:
  assumes r: "replays M q1 q2" and res: "resolve name key kind q1 = (q1', Inr (NewStep p))"
  shows "pd_seq p = int (sq_stored_count q1)" and "pd_kind p = kind" and "sq_pending q1' = Some p"
    and "sq_stored_count q1' = sq_stored_count q1" and "sq_recorded q1' = sq_recorded q1"
    and "sq_stored_count q1 < length M \<Longrightarrow> js_step_key (M ! sq_stored_count q1) = pd_step_key p \<Longrightarrow>
      js_kind (M ! sq_stored_count q1) = kind \<Longrightarrow>
      \<exists>q2'. resolve name key kind q2 = (q2', Inr (Recorded (sq_stored_count q1)))
        \<and> replays M (q1'\<lparr>sq_pending := None\<rparr>) q2'"
proof -
  note none = replays_pending [OF r]
  obtain sk q0 where sk: "request_key name key q1 = Inr sk" "sk \<notin> sq_issued_keys q1"
    and l: "landed sk kind (key \<noteq> None) (issue_key sk q1) = (q0, Inr (NewStep p))" and q1': "q1' = spend name key q0"
    using res none by (auto simp: resolve_Inr)
  note land = landed_new [OF replays_issue [OF r] l]
  show "pd_seq p = int (sq_stored_count q1)" "pd_kind p = kind" "sq_pending q1' = Some p"
    "sq_stored_count q1' = sq_stored_count q1" "sq_recorded q1' = sq_recorded q1"
    using land(1-4) q1' by (simp_all add: spend_def)
  assume n: "sq_stored_count q1 < length M" "js_step_key (M ! sq_stored_count q1) = pd_step_key p"
    "js_kind (M ! sq_stored_count q1) = kind"
  obtain q2' where l2: "landed sk kind (key \<noteq> None) (issue_key sk q2) = (q2', Inr (Recorded (sq_stored_count q1)))"
    and r2: "replays M (q0\<lparr>sq_pending := None\<rparr>) q2'"
    using land(1,5) n by auto
  have "spend name key (q0\<lparr>sq_pending := None\<rparr>) = q1'\<lparr>sq_pending := None\<rparr>" by (simp add: q1' spend_def)
  then show "\<exists>q2'. resolve name key kind q2 = (q2', Inr (Recorded (sq_stored_count q1)))
        \<and> replays M (q1'\<lparr>sq_pending := None\<rparr>) q2'"
    using sk none r l2 replays_spend [OF r2, of name key]
    by (auto simp: resolve_Inr replays_request_key [OF r] replays_def [of M q1 q2])
qed

lemma walk_ok_claim: "walk_ok q \<Longrightarrow> walk_ok (q\<lparr>sq_claimed := (sq_claimed q)[k := True]\<rparr>)"
proof -
  have "(sq_claimed q)[k := True] ! j" if "j < length (sq_claimed q)" "sq_claimed q ! j" for j
    using that by (cases "j = k") simp_all
  then show "walk_ok q \<Longrightarrow> ?thesis" by (simp add: walk_ok_def)
qed

lemma replays_claim:
  assumes "replays M q1 q2" and "k < length (sq_recorded q1)"
  shows "replays M (q1\<lparr>sq_claimed := (sq_claimed q1)[k := True]\<rparr>) (q2\<lparr>sq_claimed := (sq_claimed q2)[k := True]\<rparr>)"
proof -
  have "k < length (sq_claimed q1)" using assms by (simp add: replays_def walk_ok_def)
  then show ?thesis using assms(1) walk_ok_claim [of q1 k] walk_ok_claim [of q2 k]
    unfolding replays_def by (simp add: list_update_append1)
qed

lemma replays_commit:
  assumes r: "replays M q1 q2" and n: "sq_stored_count q1 < length M"
  shows "replays M (q1\<lparr>sq_stored_count := sq_stored_count q1 + 1, sq_stored_bytes := b\<rparr>)
    (q2\<lparr>sq_claimed := (sq_claimed q2)[sq_stored_count q1 := True]\<rparr>)"
proof -
  let ?L = "length (sq_recorded q1)" and ?n = "sq_stored_count q1"
  have cl: "sq_claimed q2 = (sq_claimed q1 @ replicate (?n - ?L) True) @ replicate (length M - ?n) False"
    and len: "length (sq_claimed q1 @ replicate (?n - ?L) True) = ?n" "?L \<le> ?n"
    using r by (auto simp: replays_def walk_ok_def)
  have upd: "(A @ B)[length A := True] = A @ B[0 := True]" for A B :: "bool list"
    by (simp add: list_update_append)
  have "(replicate (length M - ?n) False)[0 := True] = True # replicate (length M - Suc ?n) False"
    using n by (metis Suc_diff_Suc list_update_code(2) replicate_Suc)
  then have "(sq_claimed q2)[?n := True]
      = (sq_claimed q1 @ replicate (?n - ?L) True) @ True # replicate (length M - Suc ?n) False"
    using upd [of "sq_claimed q1 @ replicate (?n - ?L) True" "replicate (length M - ?n) False"]
    unfolding cl len(1) by simp
  also have "\<dots> = sq_claimed q1 @ replicate (Suc ?n - ?L) True @ replicate (length M - Suc ?n) False"
    using len(2) by (simp add: Suc_diff_le replicate_append_same [symmetric])
  finally have "(sq_claimed q2)[?n := True]
      = sq_claimed q1 @ replicate (Suc ?n - ?L) True @ replicate (length M - Suc ?n) False" .
  moreover have "walk_ok (q1\<lparr>sq_stored_count := m, sq_stored_bytes := b\<rparr>) = walk_ok q1" for m
    by (simp add: walk_ok_def)
  ultimately show ?thesis using r n walk_ok_claim [of q2 ?n] unfolding replays_def by simp
qed

section \<open>Replaying an attempt\<close>

text \<open>
  A task body as the requests it makes of its session, each at its clock reading. An
  attempt ends when the requests do, in a sleep, or in an error.
\<close>

datatype step_req =
    DoRun string "string option" "string \<Rightarrow> queue_error + bytes"
  | DoSleep "string option" "string option" millis
datatype step_value = Val bytes | Woke millis
datatype attempt_end = Finished | Asleep millis | Broken queue_error

fun run_attempt :: "(env \<times> step_req) list \<Rightarrow> step_session \<Rightarrow> db \<Rightarrow> step_session \<times> db \<times> step_value list \<times> attempt_end" where
  "run_attempt [] ss s = (ss, s, [], Finished)"
| "run_attempt ((e, DoRun name key body) # rs) ss s =
     (case session_run e name key body ss s of
        (ss, s, Inl err) \<Rightarrow> (ss, s, [], Broken err)
      | (ss, s, Inr out) \<Rightarrow> (case run_attempt rs ss s of (ss, s, vs, en) \<Rightarrow> (ss, s, Val out # vs, en)))"
| "run_attempt ((e, DoSleep name key wake) # rs) ss s =
     (case sleep_until e name key wake ss s of
        (ss, s, Inl err) \<Rightarrow> (ss, s, [], Broken err)
      | (ss, s, Inr (Sleeping k w)) \<Rightarrow> (ss, s, [], Asleep w)
      | (ss, s, Inr (SleepElapsed k w)) \<Rightarrow> (case run_attempt rs ss s of (ss, s, vs, en) \<Rightarrow> (ss, s, Woke w # vs, en)))"

fun same_request :: "env \<times> step_req \<Rightarrow> env \<times> step_req \<Rightarrow> bool" where
  "same_request (_, DoRun n k _) (_, DoRun n' k' _) \<longleftrightarrow> n = n' \<and> k = k'"
| "same_request (_, DoSleep n k _) (_, DoSleep n' k' _) \<longleftrightarrow> n = n' \<and> k = k'"
| "same_request _ _ \<longleftrightarrow> False"

definition memo_steps :: "db \<Rightarrow> string \<Rightarrow> job_step list" where
  "memo_steps s i = map job_step_of_row (steps_of s i)"

lemma length_memo_steps [simp]: "length (memo_steps s i) = length (steps_of s i)"
  by (simp add: memo_steps_def)

lemma kind_wire [simp]: "kind_from_wire (kind_as_str k) = k"
  by (cases k) (simp_all add: kind_from_wire_def)

lemma job_step_of_row_sel [simp]:
  "js_step_key (job_step_of_row x) = st_step_key x" "js_seq (job_step_of_row x) = st_seq x"
  "js_kind (job_step_of_row x) = kind_from_wire (st_kind x)" "js_result (job_step_of_row x) = st_result x"
  "js_wake_at (job_step_of_row x) = st_wake_at x"
  by (simp_all add: job_step_of_row_def)

text \<open>Every write of a session extends the memos.\<close>

lemma record_step_extends:
  assumes "db_ok s" and "record_step_result e st owner attempt epoch lims ns s = (s', res)"
  shows "\<exists>N. steps_of s' i = steps_of s i @ N"
proof (cases res)
  case (Inl err)
  then have "s' = s" using assms(2)
    by (auto simp: record_step_result_def write_transaction_cases Let_def split: if_splits)
  then show ?thesis by simp
next
  case (Inr c)
  show ?thesis
  proof (cases c)
    case Committed
    obtain r where "s' = (asserted e (ns_job_id st) owner epoch s)\<lparr>job_steps := job_steps s
        @ [new_step_row e st (namespace (r :: job_row)) None]\<rparr>"
      by (rule record_step_Committed [OF assms(1) assms(2) [unfolded Inr Committed]]) blast
    then show ?thesis by (simp add: steps_of_def)
  next
    case AlreadyCommitted
    have "s' = asserted e (ns_job_id st) owner epoch s"
      by (rule record_step_Already [OF assms(1) assms(2) [unfolded Inr AlreadyCommitted]])
    then show ?thesis by simp
  qed
qed

lemma sleep_job_extends:
  assumes "db_ok s" and "ns_kind st = Sleep" and "sleep_job e st owner attempt epoch wake lims ns s = (s', res)"
  shows "\<exists>N. steps_of s' i = steps_of s i @ N"
proof (cases res)
  case (Inl err)
  then have "s' = s" using assms(3) by (auto simp: sleep_job_def write_transaction_cases Let_def)
  then show ?thesis by simp
next
  case (Inr out)
  show ?thesis using sleep_job_effect(5,6) [OF assms(1,2) assms(3) [unfolded Inr]]
    by (cases "i = ns_job_id st") auto
qed

lemma commit_run_extends:
  assumes "db_ok s" and "commit_run e p enc ss s = (ss', s', res)"
  shows "db_ok s'" and "\<exists>N. steps_of s' i = steps_of s i @ N" and "se_job_id ss' = se_job_id ss"
proof -
  let ?w = "record_step_result e \<lparr>ns_job_id = se_job_id ss, ns_seq = pd_seq p, ns_step_key = pd_step_key p,
       ns_kind = pd_kind p, ns_result = Some enc\<rparr> (ss_owner (se_store ss)) (ss_attempt (se_store ss))
       (ss_epoch (se_store ss)) (se_limits ss) (se_namespace ss) s"
  have "s' = s \<or> s' = fst ?w" and "se_job_id ss' = se_job_id ss"
    using assms(2) by (auto simp: commit_run_def store_commit_step_def split: sum.splits prod.splits)
  then show "db_ok s'" "\<exists>N. steps_of s' i = steps_of s i @ N" "se_job_id ss' = se_job_id ss"
    using record_step_keeps [OF assms(1)] record_step_extends [OF assms(1) prod.collapse [symmetric]] assms(1)
    by auto
qed

lemma session_run_extends:
  assumes "db_ok s" and "session_run e name key body ss s = (ss', s', res)"
  shows "db_ok s'" and "\<exists>N. steps_of s' i = steps_of s i @ N" and "se_job_id ss' = se_job_id ss"
proof -
  obtain q d where b: "begin_run name key (se_sequence ss) = (q, d)" by fastforce
  let ?ss = "ss\<lparr>se_sequence := q\<rparr>"
  consider "s' = s" "ss' = ?ss" | p enc res' where "commit_run e p enc ?ss s = (ss', s', res')"
    using assms(2) b
    by (auto simp: session_run_def session_begin_run_def split: sum.splits prod.splits step_decision.splits)
  then show "db_ok s'" "\<exists>N. steps_of s' i = steps_of s i @ N" "se_job_id ss' = se_job_id ss"
    using assms(1) commit_run_extends [OF assms(1), of e _ _ ?ss ss' s'] by (cases; fastforce)+
qed

lemma commit_sleep_extends:
  assumes "db_ok s" and "commit_pending_sleep e p fresh wake ss s = (ss', s', res)"
  shows "db_ok s'" and "\<exists>N. steps_of s' i = steps_of s i @ N" and "se_job_id ss' = se_job_id ss"
proof -
  let ?st = "\<lparr>ns_job_id = se_job_id ss, ns_seq = pd_seq p, ns_step_key = pd_step_key p,
       ns_kind = Sleep, ns_result = None\<rparr>"
  let ?w = "sleep_job e ?st (ss_owner (se_store ss)) (ss_attempt (se_store ss))
       (ss_epoch (se_store ss)) wake (se_limits ss) (se_namespace ss) s"
  have "s' = s \<or> s' = fst ?w" and "se_job_id ss' = se_job_id ss"
    using assms(2) by (auto simp: commit_pending_sleep_def store_commit_sleep_def split: sum.splits prod.splits)
  then show "db_ok s'" "\<exists>N. steps_of s' i = steps_of s i @ N" "se_job_id ss' = se_job_id ss"
    using sleep_job_keeps [OF assms(1)] sleep_job_extends [OF assms(1) _ prod.collapse [symmetric], of ?st] assms(1)
    by auto
qed

lemma sleep_until_extends:
  assumes "db_ok s" and "sleep_until e name key wake ss s = (ss', s', res)"
  shows "db_ok s'" and "\<exists>N. steps_of s' i = steps_of s i @ N" and "se_job_id ss' = se_job_id ss"
proof -
  obtain q d where b: "begin_sleep name key (now_millis e) (se_sequence ss) = (q, d)" by fastforce
  let ?ss = "ss\<lparr>se_sequence := q\<rparr>"
  consider "s' = s" "ss' = ?ss" | p fresh where "commit_pending_sleep e p fresh wake ?ss s = (ss', s', res)"
    using assms(2) b
    by (auto simp: sleep_until_def sleep_at_def split: sum.splits prod.splits sleep_decision.splits)
  then show "db_ok s'" "\<exists>N. steps_of s' i = steps_of s i @ N" "se_job_id ss' = se_job_id ss"
    using assms(1) commit_sleep_extends [OF assms(1), of e _ _ wake ?ss ss' s' res] by (cases; fastforce)+
qed

lemma run_attempt_extends:
  "db_ok s \<Longrightarrow> run_attempt rs ss s = (ss', s', vs, en) \<Longrightarrow>
     db_ok s' \<and> (\<exists>N. steps_of s' i = steps_of s i @ N) \<and> se_job_id ss' = se_job_id ss"
proof (induction rs ss s arbitrary: vs rule: run_attempt.induct)
  case (2 e name key body rs ss s)
  obtain ss1 s1 res where run: "session_run e name key body ss s = (ss1, s1, res)" by (metis prod_cases3)
  note ext = session_run_extends [OF "2.prems"(1) run]
  show ?case
  proof (cases res)
    case (Inl err)
    then show ?thesis using "2.prems"(2) run ext by simp
  next
    case (Inr out)
    then obtain vs' where "run_attempt rs ss1 s1 = (ss', s', vs', en)"
      using "2.prems"(2) run by (auto split: prod.splits)
    then have ih: "db_ok s'" "\<exists>N. steps_of s' i = steps_of s1 i @ N" "se_job_id ss' = se_job_id ss1"
      using "2.IH" [OF run [symmetric] refl Inr ext(1)] by auto
    obtain N where "steps_of s1 i = steps_of s i @ N" using ext(2) by blast
    then show ?thesis using ih ext(3) by auto
  qed
next
  case (3 e name key wake rs ss s)
  obtain ss1 s1 res where run: "sleep_until e name key wake ss s = (ss1, s1, res)" by (metis prod_cases3)
  note ext = sleep_until_extends [OF "3.prems"(1) run]
  show ?case
  proof (cases res)
    case (Inl err)
    then show ?thesis using "3.prems"(2) run ext by simp
  next
    case (Inr out)
    show ?thesis
    proof (cases out)
      case (SleepElapsed k w)
      then obtain vs' where "run_attempt rs ss1 s1 = (ss', s', vs', en)"
        using "3.prems"(2) run Inr by (auto split: prod.splits)
      then have ih: "db_ok s'" "\<exists>N. steps_of s' i = steps_of s1 i @ N" "se_job_id ss' = se_job_id ss1"
        using "3.IH" [OF run [symmetric] refl Inr SleepElapsed ext(1)] by auto
      obtain N where "steps_of s1 i = steps_of s i @ N" using ext(2) by blast
      then show ?thesis using ih ext(3) by auto
    next
      case (Sleeping k w)
      then show ?thesis using "3.prems"(2) run ext Inr by simp
    qed
  qed
qed simp

lemma landed_frame:
  "landed key kind keyed q = (q', r) \<Longrightarrow> sq_recorded q' = sq_recorded q \<and> sq_stored_count q' = sq_stored_count q"
  by (auto simp: landed_def recorded_match_def new_ground_def Let_def split: prod.splits option.splits if_splits)

lemma resolve_frame:
  assumes "sq_pending q = None" and "resolve name key kind q = (q', Inr m)"
  shows "sq_recorded q' = sq_recorded q" and "sq_stored_count q' = sq_stored_count q"
proof -
  obtain k q0 where "landed k kind (key \<noteq> None) (issue_key k q) = (q0, Inr m)" and q': "q' = spend name key q0"
    using assms by (auto simp: resolve_Inr)
  from landed_frame [OF this(1)] show "sq_recorded q' = sq_recorded q" "sq_stored_count q' = sq_stored_count q"
    unfolding q' by (simp_all add: spend_def)
qed

lemma record_step_next:
  assumes ok: "db_ok s" and q: "ns_seq st = int (length (steps_of s (ns_job_id st)))"
    and run: "record_step_result e st owner attempt epoch lims ns s = (s', Inr c)"
  shows "\<exists>x. steps_of s' (ns_job_id st) = steps_of s (ns_job_id st) @ [x] \<and> st_step_key x = ns_step_key st
    \<and> st_kind x = kind_as_str (ns_kind st) \<and> st_result x = ns_result st"
proof (cases c)
  case Committed
  obtain r where "s' = (asserted e (ns_job_id st) owner epoch s)\<lparr>job_steps := job_steps s
      @ [new_step_row e st (namespace (r :: job_row)) None]\<rparr>"
    by (rule record_step_Committed [OF ok run [unfolded Committed]]) blast
  then show ?thesis by (simp add: steps_of_def)
next
  case AlreadyCommitted
  note fence = record_step_fence [OF ok run]
  obtain r where "r \<in> set (jobs s)" and f: "resolve_attempt_fence e (ns_job_id st) owner attempt epoch ns True s
      = Inr (asserted e (ns_job_id st) owner epoch s, namespace r)"
    by (rule fence_job [OF ok fence(2)]) blast
  have "step_at (ns_job_id st) (ns_seq st) s = None" by (simp add: step_at_eq [OF db_ok_memo [OF ok]] q)
  then have "step_at (ns_job_id st) (ns_seq st) (asserted e (ns_job_id st) owner epoch s) = None"
    by (simp add: step_at_def)
  then have False using run AlreadyCommitted f fence(1)
    by (auto simp: record_step_result_def write_transaction_cases Let_def and_then_eq_Inr
        split: if_splits prod.splits)
  then show ?thesis ..
qed

definition follows :: "job_step list \<Rightarrow> step_session \<Rightarrow> db \<Rightarrow> step_sequence \<Rightarrow> bool" where
  "follows M ss s q \<longleftrightarrow> db_ok s \<and> replays M (se_sequence ss) q
     \<and> sq_stored_count (se_sequence ss) = length (steps_of s (se_job_id ss))"

lemma run_follows:
  assumes f: "follows M ss s q2" and run: "session_run e name key body ss s = (ss', s', Inr out)"
    and pre: "M = memo_steps s' (se_job_id ss) @ R"
  shows "\<exists>k q2'. begin_run name key q2 = (q2', Inr (Memoized k out)) \<and> follows M ss' s' q2'"
proof -
  let ?q1 = "se_sequence ss" and ?i = "se_job_id ss"
  have ok: "db_ok s" and r: "replays M ?q1 q2" and n: "sq_stored_count ?q1 = length (steps_of s ?i)"
    using f by (auto simp: follows_def)
  note none = replays_pending [OF r]
  obtain q1' m where res: "resolve name key Run ?q1 = (q1', Inr m)"
    using run by (auto simp: session_run_def session_begin_run_def begin_run_def
        split: prod.splits sum.splits step_match.splits)
  note frame = resolve_frame [OF none [THEN conjunct1] res]
  show ?thesis
  proof (cases m)
    case (Recorded k)
    note rr = resolve_recorded [OF r res [unfolded Recorded]]
    obtain q2' where q2': "resolve name key Run q2 = (q2', Inr (Recorded k))" "replays M q1' q2'" using rr(1) by blast
    have out: "out = (case js_result (M ! k) of None \<Rightarrow> [] | Some b \<Rightarrow> b)" "s' = s"
      "ss' = ss\<lparr>se_sequence := q1'\<lparr>sq_claimed := (sq_claimed q1')[k := True]\<rparr>\<rparr>"
      using run res Recorded frame(1) replays_recorded [OF r rr(2)]
      by (auto simp: session_run_def session_begin_run_def begin_run_def memoize_def)
    have "sq_recorded q2' = M" using q2'(2) by (simp add: replays_def)
    then have "begin_run name key q2 = (q2'\<lparr>sq_claimed := (sq_claimed q2')[k := True]\<rparr>, Inr (Memoized (js_step_key (M ! k)) out))"
      using q2'(1) out(1) by (simp add: begin_run_def memoize_def)
    moreover have "follows M ss' s' (q2'\<lparr>sq_claimed := (sq_claimed q2')[k := True]\<rparr>)"
      using replays_claim [OF q2'(2), of k] rr(2) frame ok n out by (simp add: follows_def)
    ultimately show ?thesis by blast
  next
    case (NewStep p)
    note rn = resolve_new [OF r res [unfolded NewStep]]
    let ?st = "\<lparr>ns_job_id = ?i, ns_seq = pd_seq p, ns_step_key = pd_step_key p, ns_kind = pd_kind p, ns_result = Some out\<rparr>"
    let ?q = "q1'\<lparr>sq_pending := None\<rparr>"
    obtain c where c: "record_step_result e ?st (ss_owner (se_store ss)) (ss_attempt (se_store ss)) (ss_epoch (se_store ss))
        (se_limits ss) (se_namespace ss) s = (s', Inr c)"
      and ss': "ss' = ss\<lparr>se_sequence := ?q\<lparr>sq_stored_count := sq_stored_count ?q + 1,
         sq_stored_bytes := sq_stored_bytes ?q + length out\<rparr>\<rparr>"
      using run res NewStep rn(3)
      by (auto simp: session_run_def session_begin_run_def begin_run_def commit_run_def store_commit_step_def
          sequence_commit_def take_pending_def split: sum.splits prod.splits)
    obtain x where x: "steps_of s' ?i = steps_of s ?i @ [x]" "st_step_key x = pd_step_key p"
      "st_kind x = kind_as_str Run" "st_result x = Some out"
      using record_step_next [OF ok _ c] rn(1,2) n by auto
    have M: "M ! sq_stored_count ?q1 = job_step_of_row x" "sq_stored_count ?q1 < length M"
      by (simp_all add: pre memo_steps_def x(1) n nth_append)
    have "js_step_key (job_step_of_row x) = pd_step_key p" "js_kind (job_step_of_row x) = Run"
      using x by (simp_all add: kind_from_wire_def)
    then obtain q2' where q2': "resolve name key Run q2 = (q2', Inr (Recorded (sq_stored_count ?q1)))" "replays M ?q q2'"
      using rn(6) M by auto
    have "sq_recorded q2' = M" using q2'(2) by (simp add: replays_def)
    then have "begin_run name key q2 = (q2'\<lparr>sq_claimed := (sq_claimed q2')[sq_stored_count ?q1 := True]\<rparr>,
        Inr (Memoized (st_step_key x) out))"
      using q2'(1) M(1) x by (simp add: begin_run_def memoize_def)
    moreover have "db_ok s'" by (rule session_run_extends(1) [OF ok run])
    then have "follows M ss' s' (q2'\<lparr>sq_claimed := (sq_claimed q2')[sq_stored_count ?q1 := True]\<rparr>)"
      using replays_commit [OF q2'(2)] rn(4) M(2) n x(1) by (simp add: follows_def ss')
    ultimately show ?thesis by blast
  qed
qed

lemma begin_sleep_elapsed:
  assumes "resolve (case name of None \<Rightarrow> DEFAULT_SLEEP_NAME | Some n \<Rightarrow> n) key Sleep q = (q', Inr (Recorded k))"
    and "js_wake_at (sq_recorded q' ! k) = Some w" and "w \<le> now"
  shows "begin_sleep name key now q = (q'\<lparr>sq_claimed := (sq_claimed q')[k := True]\<rparr>,
    Inr (Elapsed (js_step_key (sq_recorded q' ! k)) w))"
  using assms by (simp add: begin_sleep_def Let_def)

lemma elapsed_follows:
  assumes f: "follows M ss s q2" and run: "sleep_until e name key wake ss s = (ss', s', Inr (SleepElapsed k w))"
    and w: "w \<le> now"
  shows "\<exists>k q2'. begin_sleep name key now q2 = (q2', Inr (Elapsed k w)) \<and> follows M ss' s' q2'"
proof -
  let ?q1 = "se_sequence ss" and ?n = "case name of None \<Rightarrow> DEFAULT_SLEEP_NAME | Some n \<Rightarrow> n"
  have ok: "db_ok s" and r: "replays M ?q1 q2" and n: "sq_stored_count ?q1 = length (steps_of s (se_job_id ss))"
    using f by (auto simp: follows_def)
  note none = replays_pending [OF r]
  obtain q where "begin_sleep name key (now_millis e) ?q1 = (q, Inr (Elapsed k w))" and ss': "ss' = ss\<lparr>se_sequence := q\<rparr>" "s' = s"
    using run by (auto simp: sleep_until_def sleep_at_def commit_pending_sleep_def
        split: sum.splits prod.splits sleep_decision.splits)
  then obtain q1' j where res: "resolve ?n key Sleep ?q1 = (q1', Inr (Recorded j))"
    and q: "q = q1'\<lparr>sq_claimed := (sq_claimed q1')[j := True]\<rparr>" "js_wake_at (sq_recorded q1' ! j) = Some w"
    by (auto simp: begin_sleep_def Let_def split: prod.splits sum.splits step_match.splits option.splits if_splits)
  note rr = resolve_recorded [OF r res] and frame = resolve_frame [OF none [THEN conjunct1] res]
  obtain q2' where q2': "resolve ?n key Sleep q2 = (q2', Inr (Recorded j))" "replays M q1' q2'" using rr(1) by blast
  have "sq_recorded q2' ! j = sq_recorded q1' ! j"
    using q2'(2) replays_recorded [OF q2'(2), of j] rr(2) frame(1) by (simp add: replays_def)
  then have "begin_sleep name key now q2 = (q2'\<lparr>sq_claimed := (sq_claimed q2')[j := True]\<rparr>,
      Inr (Elapsed (js_step_key (sq_recorded q2' ! j)) w))"
    using begin_sleep_elapsed [OF q2'(1) _ w] q(2) by simp
  moreover have "follows M ss' s' (q2'\<lparr>sq_claimed := (sq_claimed q2')[j := True]\<rparr>)"
    using replays_claim [OF q2'(2), of j] rr(2) frame ok n ss' q(1) by (simp add: follows_def)
  ultimately show ?thesis by blast
qed

lemma sleeping_follows:
  assumes f: "follows M ss s q2" and run: "sleep_until e name key wake ss s = (ss', s', Inr (Sleeping k w))"
    and pre: "M = memo_steps s' (se_job_id ss) @ R" and w: "w \<le> now"
  shows "\<exists>k q2'. begin_sleep name key now q2 = (q2', Inr (Elapsed k w))"
proof -
  let ?q1 = "se_sequence ss" and ?n = "case name of None \<Rightarrow> DEFAULT_SLEEP_NAME | Some n \<Rightarrow> n" and ?i = "se_job_id ss"
  have ok: "db_ok s" and r: "replays M ?q1 q2" and n: "sq_stored_count ?q1 = length (steps_of s ?i)"
    using f by (auto simp: follows_def)
  note none = replays_pending [OF r]
  have ok': "db_ok s'" by (rule sleep_until_extends(1) [OF ok run])
  obtain q p fresh where d: "begin_sleep name key (now_millis e) ?q1 = (q, Inr (if fresh then SleepNow p else Resume p))"
    and c: "commit_pending_sleep e p fresh wake (ss\<lparr>se_sequence := q\<rparr>) s = (ss', s', Inr (Sleeping k w))"
    using run by (auto simp: sleep_until_def sleep_at_def split: sum.splits prod.splits sleep_decision.splits)
      (metis)+
  let ?st = "\<lparr>ns_job_id = ?i, ns_seq = pd_seq p, ns_step_key = pd_step_key p, ns_kind = Sleep, ns_result = None\<rparr>"
  obtain out where sj: "sleep_job e ?st (ss_owner (se_store ss)) (ss_attempt (se_store ss)) (ss_epoch (se_store ss)) wake
      (se_limits ss) (se_namespace ss) s = (s', Inr out)" and out: "w = outcome_wake_at out"
    using c by (auto simp: commit_pending_sleep_def store_commit_sleep_def split: sum.splits prod.splits)
  obtain x where x: "step_at ?i (pd_seq p) s' = Some x" "st_step_key x = pd_step_key p" "st_kind x = ''sleep''"
    "st_wake_at x = Some w" using sleep_job_effect(4) [OF ok _ sj] out by auto
  have Mx: "M ! j = job_step_of_row x" "j < length M" if "pd_seq p = int j" for j
    using x(1) that by (auto simp: step_at_eq [OF db_ok_memo [OF ok']] pre memo_steps_def nth_append split: if_splits)
  show ?thesis
  proof (cases fresh)
    case True
    then obtain q1' where res: "resolve ?n key Sleep ?q1 = (q1', Inr (NewStep p))"
      using d by (auto simp: begin_sleep_def Let_def split: prod.splits sum.splits step_match.splits option.splits if_splits)
    note rn = resolve_new [OF r res]
    have "js_step_key (job_step_of_row x) = pd_step_key p" "js_kind (job_step_of_row x) = Sleep"
      using x by (simp_all add: kind_from_wire_def)
    then obtain q2' where q2': "resolve ?n key Sleep q2 = (q2', Inr (Recorded (sq_stored_count ?q1)))"
      "replays M (q1'\<lparr>sq_pending := None\<rparr>) q2'" using rn(1,6) Mx by auto
    then show ?thesis using begin_sleep_elapsed [OF q2'(1) _ w] Mx(1) [OF rn(1)] x(4)
      by (simp add: replays_def)
  next
    case False
    then obtain q1' j where res: "resolve ?n key Sleep ?q1 = (q1', Inr (Recorded j))"
      and p: "pd_seq p = js_seq (sq_recorded q1' ! j)"
      using d by (auto simp: begin_sleep_def Let_def split: prod.splits sum.splits step_match.splits option.splits if_splits)
    note rr = resolve_recorded [OF r res] and frame = resolve_frame [OF none [THEN conjunct1] res]
    obtain q2' where q2': "resolve ?n key Sleep q2 = (q2', Inr (Recorded j))" "replays M q1' q2'" using rr(1) by blast
    have j: "j < length (steps_of s ?i)" using rr(2) r n by (simp add: replays_def)
    obtain N where "steps_of s' ?i = steps_of s ?i @ N" using sleep_until_extends(2) [OF ok run] by blast
    then have "M ! j = job_step_of_row (steps_of s ?i ! j)" using j by (simp add: pre memo_steps_def nth_append)
    then have "pd_seq p = int j"
      using p frame(1) replays_recorded [OF r rr(2)] memo_seq [OF db_ok_memo [OF ok] j] by simp
    then show ?thesis using begin_sleep_elapsed [OF q2'(1) _ w] Mx(1) x(4) q2'(2) by (simp add: replays_def)
  qed
qed

fun slept :: "attempt_end \<Rightarrow> step_value list" where
  "slept (Asleep w) = [Woke w]"
| "slept _ = []"

lemma attempt_replay:
  "run_attempt rs ss s = (ss1, s1, vs, en) \<Longrightarrow> follows M ss s (se_sequence ss2) \<Longrightarrow>
     M = memo_steps s1 (se_job_id ss) @ R \<Longrightarrow>
     list_all2 same_request (take (length (vs @ slept en)) rs) rs2 \<Longrightarrow>
     \<forall>(e, _)\<in>set rs2. \<forall>w. Woke w \<in> set (vs @ slept en) \<longrightarrow> w \<le> now_millis e \<Longrightarrow>
     \<exists>ss3. run_attempt rs2 ss2 s2 = (ss3, s2, vs @ slept en, Finished)"
proof (induction rs ss s arbitrary: vs rs2 ss2 rule: run_attempt.induct)
  case (1 ss s)
  then show ?case by simp
next
  case (2 e name key body rs ss s)
  obtain ssa sa res where run: "session_run e name key body ss s = (ssa, sa, res)" by (metis prod_cases3)
  have ok: "db_ok s" using "2.prems"(2) by (simp add: follows_def)
  show ?case
  proof (cases res)
    case (Inl err)
    then show ?thesis using "2.prems" run by auto
  next
    case (Inr out)
    then obtain vs' where rest: "run_attempt rs ssa sa = (ss1, s1, vs', en)" and vs: "vs = Val out # vs'"
      using "2.prems"(1) run by (auto split: prod.splits)
    note ext = session_run_extends [OF ok run]
    obtain N where "steps_of s1 (se_job_id ss) = steps_of sa (se_job_id ss) @ N"
      using run_attempt_extends [OF ext(1) rest] by blast
    then have pre: "M = memo_steps sa (se_job_id ss) @ (map job_step_of_row N @ R)"
      using "2.prems"(3) by (simp add: memo_steps_def)
    obtain k q2' where b: "begin_run name key (se_sequence ss2) = (q2', Inr (Memoized k out))"
      and fol: "follows M ssa sa q2'" using run_follows [OF "2.prems"(2) run [unfolded Inr] pre] by blast
    obtain e2 body2 rs2' where rs2: "rs2 = (e2, DoRun name key body2) # rs2'"
      and tl: "list_all2 same_request (take (length (vs' @ slept en)) rs) rs2'"
      using "2.prems"(4) vs by (auto simp: list_all2_Cons1 elim!: same_request.elims)
    have "\<exists>ss3. run_attempt rs2' (ss2\<lparr>se_sequence := q2'\<rparr>) s2 = (ss3, s2, vs' @ slept en, Finished)"
      by (rule "2.IH" [OF run [symmetric] refl Inr rest _ _ tl])
         (use fol "2.prems"(3,5) ext(3) rs2 vs in auto)
    moreover have "session_run e2 name key body2 ss2 s2 = (ss2\<lparr>se_sequence := q2'\<rparr>, s2, Inr out)"
      using b by (simp add: session_run_def session_begin_run_def)
    ultimately show ?thesis by (auto simp: rs2 vs)
  qed
next
  case (3 e name key wake rs ss s)
  obtain ssa sa res where run: "sleep_until e name key wake ss s = (ssa, sa, res)" by (metis prod_cases3)
  have ok: "db_ok s" using "3.prems"(2) by (simp add: follows_def)
  show ?case
  proof (cases res)
    case (Inl err)
    then show ?thesis using "3.prems" run by auto
  next
    case (Inr out)
    note ext = sleep_until_extends [OF ok run]
    show ?thesis
    proof (cases out)
      case (SleepElapsed k w)
      then obtain vs' where rest: "run_attempt rs ssa sa = (ss1, s1, vs', en)" and vs: "vs = Woke w # vs'"
        using "3.prems"(1) run Inr by (auto split: prod.splits)
      obtain e2 wake2 rs2' where rs2: "rs2 = (e2, DoSleep name key wake2) # rs2'"
        and tl: "list_all2 same_request (take (length (vs' @ slept en)) rs) rs2'"
        using "3.prems"(4) vs by (auto simp: list_all2_Cons1 elim!: same_request.elims)
      have w: "w \<le> now_millis e2" using "3.prems"(5) rs2 vs by simp
      obtain k q2' where b: "begin_sleep name key (now_millis e2) (se_sequence ss2) = (q2', Inr (Elapsed k w))"
        and fol: "follows M ssa sa q2'"
        using elapsed_follows [OF "3.prems"(2) run [unfolded Inr SleepElapsed] w] by blast
      have "\<exists>ss3. run_attempt rs2' (ss2\<lparr>se_sequence := q2'\<rparr>) s2 = (ss3, s2, vs' @ slept en, Finished)"
        by (rule "3.IH" [OF run [symmetric] refl Inr SleepElapsed rest _ _ tl])
           (use fol "3.prems"(3,5) ext(3) rs2 vs in auto)
      moreover have "sleep_until e2 name key wake2 ss2 s2 = (ss2\<lparr>se_sequence := q2'\<rparr>, s2, Inr (SleepElapsed k w))"
        using b by (simp add: sleep_until_def sleep_at_def)
      ultimately show ?thesis by (auto simp: rs2 vs)
    next
      case (Sleeping k w)
      then have fin: "s1 = sa" "vs = []" "en = Asleep w" using "3.prems"(1) run Inr by auto
      obtain e2 wake2 where rs2: "rs2 = [(e2, DoSleep name key wake2)]"
        using "3.prems"(4) fin by (auto simp: list_all2_Cons1 elim!: same_request.elims)
      have w: "w \<le> now_millis e2" using "3.prems"(5) rs2 fin by simp
      obtain k q2' where "begin_sleep name key (now_millis e2) (se_sequence ss2) = (q2', Inr (Elapsed k w))"
        using sleeping_follows [OF "3.prems"(2) run [unfolded Inr Sleeping] _ w] "3.prems"(3) fin by blast
      then have "sleep_until e2 name key wake2 ss2 s2 = (ss2\<lparr>se_sequence := q2'\<rparr>, s2, Inr (SleepElapsed k w))"
        by (simp add: sleep_until_def sleep_at_def)
      then show ?thesis by (simp add: rs2 fin)
    qed
  qed
qed

lemma get_job_steps_eq:
  assumes ok: "db_ok s" and r: "r \<in> set (jobs s)"
  shows "get_job_steps (jid r) (namespace r) s = memo_steps s (jid r)"
proof -
  have "st_namespace x = namespace r" if x: "x \<in> set (job_steps s)" "st_job_id x = jid r" for x
  proof -
    obtain r' where "r' \<in> set (jobs s)" "jid r' = st_job_id x" "namespace r' = st_namespace x"
      using ok x(1) by (auto simp: db_ok_def steps_ok_def)
    then show ?thesis using distinct_map_key [OF db_ok_distinct(1) [OF ok] _ r] x(2) by metis
  qed
  then have "filter (\<lambda>x. st_job_id x = jid r \<and> (case namespace r of None \<Rightarrow> True | Some n \<Rightarrow> st_namespace x = Some n))
      (job_steps s) = steps_of s (jid r)"
    unfolding steps_of_def by (intro filter_cong) (auto split: option.splits)
  moreover have "sorted (map st_seq (steps_of s (jid r)))"
    using db_ok_memo [OF ok, of "jid r"] by (simp add: memo_ok_def sorted_map sorted_wrt_upt strict_mono_imp_increasing)
  ultimately show ?thesis by (simp add: get_job_steps_def memo_steps_def sort_key_id_if_sorted)
qed

text \<open>A session over a job of the database starts from its memo.\<close>

lemma session_load_Inr:
  assumes "db_ok s" and "r \<in> set (jobs s)" and "session_load e (job_of_row r) owner lims s = Inr ss"
  shows "se_job_id ss = jid r" and "walk_ok (se_sequence ss)"
    and "sq_recorded (se_sequence ss) = memo_steps s (jid r)"
    and "sq_claimed (se_sequence ss) = replicate (length (steps_of s (jid r))) False"
    and "sq_stored_count (se_sequence ss) = length (steps_of s (jid r))"
    and "sq_issued_keys (se_sequence ss) = {}" and "sq_occurrences (se_sequence ss) = (\<lambda>_. None)"
proof -
  have "distinct (map js_step_key (memo_steps s (jid r)))"
    using db_ok_memo [OF assms(1), of "jid r"] by (simp add: memo_ok_def memo_steps_def comp_def)
  then show "se_job_id ss = jid r" "walk_ok (se_sequence ss)"
    "sq_recorded (se_sequence ss) = memo_steps s (jid r)"
    "sq_claimed (se_sequence ss) = replicate (length (steps_of s (jid r))) False"
    "sq_stored_count (se_sequence ss) = length (steps_of s (jid r))"
    "sq_issued_keys (se_sequence ss) = {}" "sq_occurrences (se_sequence ss) = (\<lambda>_. None)"
    using assms(3) get_job_steps_eq [OF assms(1,2)]
    by (auto simp: session_load_def session_open_def sequence_new_def walk_ok_def and_then_eq_Inr supports_steps_def
        split: option.splits prod.splits)
qed

lemma load_follows:
  assumes "db_ok s" and "r \<in> set (jobs s)" and "session_load e (job_of_row r) owner lims s = Inr ss"
    and "db_ok s2" and "r2 \<in> set (jobs s2)" and "session_load e2 (job_of_row r2) owner2 lims2 s2 = Inr ss2"
    and "memo_steps s2 (jid r2) = memo_steps s (jid r) @ R"
  shows "follows (memo_steps s2 (jid r2)) ss s (se_sequence ss2)"
proof -
  note l1 = session_load_Inr [OF assms(1-3)] and l2 = session_load_Inr [OF assms(4-6)]
  have n: "length (steps_of s2 (jid r2)) = length (steps_of s (jid r)) + length R"
    using arg_cong [OF assms(7), of length] by simp
  show ?thesis
    using assms(1,7) l1 l2 n by (simp add: follows_def replays_def replicate_add)
qed

section \<open>What a retried task observes\<close>

text \<open>
  C5. Durable replay. An attempt of a job runs its steps and sleeps until it finishes,
  falls asleep or breaks. A later attempt, by any worker with any limits, that finds the
  memo as the first one left it and makes the same requests again, observes the same
  results: every step returns the value recorded for it whatever its body would now
  compute, every sleep that has elapsed returns its recorded deadline, and the database is
  untouched, so no step runs twice.
\<close>

theorem durable_replay:
  assumes "db_ok s" and "r \<in> set (jobs s)" and "session_load e (job_of_row r) owner lims s = Inr ss"
    and "run_attempt reqs ss s = (ss1, s1, vs, en)"
    and "db_ok s2" and "r2 \<in> set (jobs s2)" and "jid r2 = jid r" and "steps_of s2 (jid r) = steps_of s1 (jid r)"
    and "session_load e2 (job_of_row r2) owner2 lims2 s2 = Inr ss2"
    and "list_all2 same_request (take (length (vs @ slept en)) reqs) reqs2"
    and "\<forall>(e, _)\<in>set reqs2. \<forall>w. Woke w \<in> set (vs @ slept en) \<longrightarrow> w \<le> now_millis e"
  shows "\<exists>ss3. run_attempt reqs2 ss2 s2 = (ss3, s2, vs @ slept en, Finished)"
proof -
  have i: "se_job_id ss = jid r" by (rule session_load_Inr(1) [OF assms(1-3)])
  obtain N where "steps_of s1 (jid r) = steps_of s (jid r) @ N" using run_attempt_extends [OF assms(1,4)] by blast
  then have "memo_steps s2 (jid r2) = memo_steps s (jid r) @ map job_step_of_row N"
    using assms(7,8) by (simp add: memo_steps_def)
  note f = load_follows [OF assms(1-3,5,6,9) this]
  have "memo_steps s2 (jid r2) = memo_steps s1 (se_job_id ss) @ []" using assms(7,8) i by (simp add: memo_steps_def)
  then show ?thesis by (rule attempt_replay [OF assms(4) f _ assms(10,11)])
qed

definition first_body :: "(env \<times> step_req) list" where
  "first_body = [(plain_env 9, DoRun ''charge'' None (\<lambda>_. Inr [1]))]"

definition second_body :: "(env \<times> step_req) list" where
  "second_body = [(plain_env 30, DoRun ''charge'' None (\<lambda>_. Inr [2]))]"

definition stuck_job :: job_row where
  "stuck_job = start_row 5 (plain_row ''a'' ''q'' 0 5)"

lemma stuck_load: "session_load (plain_env 9) (job_of_row stuck_job) ''w'' default_limits stuck_db = 
  Inr \<lparr>se_store = \<lparr>ss_owner = ''w'', ss_attempt = 0, ss_epoch = None\<rparr>, se_job_id = ''a'',
       se_run_key = run_key (plain_env 9) (job_of_row stuck_job), se_namespace = None,
       se_limits = default_limits, se_sequence = projr (sequence_new ''a'' [])\<rparr>"
  by (simp add: session_load_def session_open_def storage_steps_new_def stuck_job_def start_row_def supports_steps_def
      get_job_steps_def stuck_db_def sequence_new_def)

lemma charge_run:
  "session_load (plain_env 9) (job_of_row stuck_job) ''w'' default_limits stuck_db = Inr ss \<Longrightarrow>
   \<exists>ss1. run_attempt first_body ss stuck_db =
    (ss1, stuck_db\<lparr>job_steps := [new_step_row (plain_env 9) (charge_step [1]) None None]\<rparr>, [Val [1]], Finished)"
proof -
  assume l: "session_load (plain_env 9) (job_of_row stuck_job) ''w'' default_limits stuck_db = Inr ss"
  have zero: "show_nat 0 = ''0''" by code_simp
  have caps: "max_step_bytes (clamped default_limits) = 262144" "max_total_bytes (clamped default_limits) = 4194304"
    "max_steps (clamped default_limits) = 1000"
    by (simp_all add: clamped_def default_limits_def DEFAULT_MAX_STEP_BYTES_def MAX_STEP_BYTES_CEILING_def
        DEFAULT_MAX_TOTAL_BYTES_def MAX_TOTAL_BYTES_CEILING_def DEFAULT_MAX_STEPS_def MAX_STEPS_CEILING_def)
  note walk = session_run_def session_begin_run_def begin_run_def resolve_def sequence_new_def derive_def
    validate_name_def MAX_NAME_BYTES_def OCCURRENCE_SEPARATOR_def KEY_SEPARATOR_def check_issuable_def landed_def
    recorded_match_def new_ground_def commit_run_def check_caps_def store_commit_step_def sequence_commit_def
    take_pending_def i32_max_def Let_def
  show ?thesis using l charge_commit_any [of None, unfolded charge_step_def]
    by (auto simp: stuck_load walk first_body_def zero caps charge_step_def skip_claimed.simps [of "[]"])
qed

theorem durable_replay_witness:
  "\<exists>ss ss1 s1 ss2 ss3. session_load (plain_env 9) (job_of_row stuck_job) ''w'' default_limits stuck_db = Inr ss
    \<and> run_attempt first_body ss stuck_db = (ss1, s1, [Val [1]], Finished)
    \<and> session_load (plain_env 30) (job_of_row stuck_job) ''v'' default_limits s1 = Inr ss2
    \<and> run_attempt second_body ss2 s1 = (ss3, s1, [Val [1]], Finished)"
proof -
  let ?s1 = "stuck_db\<lparr>job_steps := [new_step_row (plain_env 9) (charge_step [1]) None None]\<rparr>"
  obtain ss where l: "session_load (plain_env 9) (job_of_row stuck_job) ''w'' default_limits stuck_db = Inr ss"
    using stuck_load by blast
  obtain ss1 where run: "run_attempt first_body ss stuck_db = (ss1, ?s1, [Val [1]], Finished)"
    using charge_run [OF l] by blast
  have ok1: "db_ok ?s1" using run_attempt_extends [OF stuck_ok run] by simp
  obtain ss2 where l2: "session_load (plain_env 30) (job_of_row stuck_job) ''v'' default_limits ?s1 = Inr ss2"
    by (simp add: session_load_def session_open_def supports_steps_def get_job_steps_def stuck_job_def start_row_def
        sequence_new_def new_step_row_def charge_step_def wrap_i32_def job_step_of_row_def)
  have "\<exists>ss3. run_attempt second_body ss2 ?s1 = (ss3, ?s1, [Val [1]], Finished)"
    using durable_replay [OF stuck_ok _ l run ok1 _ refl refl l2, of second_body]
    by (simp add: stuck_job_def stuck_db_def first_body_def second_body_def)
  then show ?thesis using l run l2 by blast
qed

text \<open>
  Step keys never collide. Whether the caller lets the sequence number its steps or names
  them, two different steps have different keys: the separators that the name check
  excludes make the key readable back in one way only.
\<close>

theorem step_keys_unambiguous:
  assumes "key_of a = Inr k" and "key_of b = Inr k"
  shows "a = b"
proof -
  have n: "id_name a = id_name b" using key_of_split(1) [OF assms(1)] key_of_split(1) [OF assms(2)] by simp
  then have "id_rest a = id_rest b" using key_of_split(2) [OF assms(1)] key_of_split(2) [OF assms(2)] by simp
  then show ?thesis using n by (cases a; cases b) (auto simp: show_nat_inj)
qed

theorem step_keys_unambiguous_witness:
  "key_of (Numbered ''charge'' 0) = Inr ''charge#0'' \<and> Numbered ''charge'' 0 = Numbered ''charge'' (0 + 0)"
proof -
  have k: "key_of (Numbered ''charge'' 0) = Inr ''charge#0''" by code_simp
  have "key_of (Numbered ''charge'' (0 + 0)) = Inr ''charge#0''" by code_simp
  then show ?thesis using step_keys_unambiguous [OF k] k by blast
qed

end
