(* ===== verification/Pubsub.thy ===== *)
theory Pubsub
  imports Job_Enqueue
begin

text \<open>
  Topics (\<open>pubsub.rs\<close>, \<open>storage/diesel_common/pubsub.rs\<close>, \<open>storage/sqlite/pubsub.rs\<close>). A publish
  becomes one job for each active fan-out subscription and, when the topic has a log
  reader or is declared as a log, one stored message. A log subscription reads messages
  past its cursor, or leases them one by one; the sweep drops the messages every log
  subscription is done with. \<open>HashMap\<close> iterates in an order of its own choosing: the
  order is an argument of the definitions that iterate.
\<close>

section \<open>Subscriptions, messages and topics\<close>

datatype subscription_mode = Fanout | Log

definition mode_as_str :: "subscription_mode \<Rightarrow> string" where
  "mode_as_str m = (case m of Fanout \<Rightarrow> ''fanout'' | Log \<Rightarrow> ''log'')"

definition mode_from_wire :: "string \<Rightarrow> subscription_mode" where
  "mode_from_wire w = (if w = ''log'' then Log else Fanout)"

definition mode_parse :: "string \<Rightarrow> subscription_mode option" where
  "mode_parse w = (if w = ''fanout'' then Some Fanout else if w = ''log'' then Some Log else None)"

definition is_log :: "subscription_mode \<Rightarrow> bool" where
  "is_log m \<longleftrightarrow> m = Log"

record subscription =
  su_topic :: string
  su_subscription_name :: string
  su_task_name :: string
  su_queue :: string
  su_active :: bool
  su_durable :: bool
  su_owner_worker_id :: "string option"
  su_created_at :: millis
  su_priority :: "int option"
  su_max_retries :: "int option"
  su_timeout_ms :: "millis option"
  su_mode :: subscription_mode
  su_cursor :: "string option"

record new_subscription =
  nu_topic :: string
  nu_subscription_name :: string
  nu_task_name :: string
  nu_queue :: string
  nu_active :: bool
  nu_durable :: bool
  nu_owner_worker_id :: "string option"
  nu_created_at :: millis
  nu_priority :: "int option"
  nu_max_retries :: "int option"
  nu_timeout_ms :: "millis option"
  nu_mode :: subscription_mode

record topic_message =
  tm_id :: string
  tm_topic :: string
  tm_payload :: bytes
  tm_metadata :: "string option"
  tm_notes :: "string option"
  tm_created_at :: millis
  tm_expires_at :: "millis option"

record topic_decl =
  td_name :: string
  td_mode :: subscription_mode
  td_retention_ms :: "millis option"
  td_created_at :: millis

definition subscription_of_row :: "subscription_row \<Rightarrow> subscription" where
  "subscription_of_row r =
     \<lparr>su_topic = sb_topic r, su_subscription_name = sb_subscription_name r, su_task_name = sb_task_name r,
      su_queue = sb_queue r, su_active = sb_active r, su_durable = sb_durable r,
      su_owner_worker_id = sb_owner_worker_id r, su_created_at = sb_created_at r, su_priority = sb_priority r,
      su_max_retries = sb_max_retries r, su_timeout_ms = sb_timeout_ms r, su_mode = mode_from_wire (sb_mode r),
      su_cursor = sb_cursor r\<rparr>"

definition message_of_row :: "topic_message_row \<Rightarrow> topic_message" where
  "message_of_row r =
     \<lparr>tm_id = mg_id r, tm_topic = mg_topic r, tm_payload = mg_payload r, tm_metadata = mg_metadata r,
      tm_notes = mg_notes r, tm_created_at = mg_created_at r, tm_expires_at = mg_expires_at r\<rparr>"

definition topic_of_row :: "topic_row \<Rightarrow> topic_decl" where
  "topic_of_row r =
     \<lparr>td_name = tp_name r, td_mode = mode_from_wire (tp_mode r), td_retention_ms = tp_retention_ms r,
      td_created_at = tp_created_at r\<rparr>"

section \<open>The registry\<close>

definition mode_debug :: "subscription_mode \<Rightarrow> string" where
  "mode_debug m = (case m of Fanout \<Rightarrow> ''Fanout'' | Log \<Rightarrow> ''Log'')"

definition validate_topic_declaration :: "subscription_mode \<Rightarrow> millis option \<Rightarrow> queue_error + unit" where
  "validate_topic_declaration mode ret =
     (if \<not> is_log mode then
        Inl (Config (''only '' @ [CHR 0x22] @ ''log'' @ [CHR 0x22] @ '' topics are declarable, got '' @ mode_debug mode))
      else if (case ret of None \<Rightarrow> False | Some ms \<Rightarrow> ms < 0) then
        Inl (Config ''topic retention_ms must be non-negative'')
      else Inr ())"

definition declare_topic :: "env \<Rightarrow> string \<Rightarrow> subscription_mode \<Rightarrow> millis option \<Rightarrow> unit op" where
  "declare_topic e name mode ret s =
     (case validate_topic_declaration mode ret of
        Inl err \<Rightarrow> (s, Inl err)
      | Inr _ \<Rightarrow>
          (let row = \<lparr>tp_name = name, tp_mode = mode_as_str mode, tp_retention_ms = ret, tp_created_at = now_millis e\<rparr>
           in (s\<lparr>topics := upsert tp_name row (\<lambda>x. x\<lparr>tp_mode := tp_mode row, tp_retention_ms := ret\<rparr>) (topics s)\<rparr>,
               Inr ())))"

abbreviation sb_key :: "subscription_row \<Rightarrow> string \<times> string" where
  "sb_key b \<equiv> (sb_topic b, sb_subscription_name b)"

definition new_subscription_row :: "new_subscription \<Rightarrow> subscription_row" where
  "new_subscription_row sub =
     \<lparr>sb_topic = nu_topic sub, sb_subscription_name = nu_subscription_name sub, sb_task_name = nu_task_name sub,
      sb_queue = nu_queue sub, sb_active = nu_active sub, sb_durable = nu_durable sub,
      sb_owner_worker_id = nu_owner_worker_id sub, sb_created_at = nu_created_at sub, sb_priority = nu_priority sub,
      sb_max_retries = nu_max_retries sub, sb_timeout_ms = nu_timeout_ms sub, sb_mode = mode_as_str (nu_mode sub),
      sb_cursor = None\<rparr>"

definition register_subscription :: "new_subscription \<Rightarrow> unit op" where
  "register_subscription sub s =
     (let row = new_subscription_row sub;
          redeclare = (\<lambda>x. x\<lparr>sb_task_name := sb_task_name row, sb_queue := sb_queue row, sb_durable := sb_durable row,
                            sb_owner_worker_id := sb_owner_worker_id row, sb_priority := sb_priority row,
                            sb_max_retries := sb_max_retries row, sb_timeout_ms := sb_timeout_ms row,
                            sb_mode := sb_mode row\<rparr>)
      in (s\<lparr>topic_subscriptions := upsert sb_key row redeclare (topic_subscriptions s)\<rparr>, Inr ()))"

definition list_subscriptions_for_topic :: "string \<Rightarrow> db \<Rightarrow> subscription list" where
  "list_subscriptions_for_topic topic s =
     map subscription_of_row
       (sort_key (\<lambda>b. (sb_created_at b, sb_subscription_name b))
         (filter (\<lambda>b. sb_topic b = topic \<and> sb_active b) (topic_subscriptions s)))"

definition list_subscriptions :: "db \<Rightarrow> subscription list" where
  "list_subscriptions s = map subscription_of_row (topic_subscriptions s)"

definition unsubscribe :: "string \<Rightarrow> string \<Rightarrow> bool op" where
  "unsubscribe topic name s =
     (let p = (\<lambda>b. sb_key b = (topic, name))
      in (s\<lparr>topic_subscriptions := delete_where p (topic_subscriptions s)\<rparr>,
          Inr (count_where p (topic_subscriptions s) > 0)))"

definition set_subscription_active :: "string \<Rightarrow> string \<Rightarrow> bool \<Rightarrow> bool op" where
  "set_subscription_active topic name active s =
     (let p = (\<lambda>b. sb_key b = (topic, name))
      in (s\<lparr>topic_subscriptions := update_where p (\<lambda>b. b\<lparr>sb_active := active\<rparr>) (topic_subscriptions s)\<rparr>,
          Inr (count_where p (topic_subscriptions s) > 0)))"

definition EPHEMERAL_SUBSCRIPTION_GRACE_MS :: millis where
  "EPHEMERAL_SUBSCRIPTION_GRACE_MS = 2 * DEAD_WORKER_THRESHOLD_MS"

definition reap_ephemeral_subscriptions :: "env \<Rightarrow> string list \<Rightarrow> int op" where
  "reap_ephemeral_subscriptions e live s =
     (let cutoff = wrap_i64 (now_millis e - EPHEMERAL_SUBSCRIPTION_GRACE_MS);
          p = (\<lambda>b. (case sb_owner_worker_id b of None \<Rightarrow> False | Some w \<Rightarrow> w \<notin> set live) \<and> sb_created_at b < cutoff)
      in (s\<lparr>topic_subscriptions := delete_where p (topic_subscriptions s)\<rparr>,
          Inr (count_where p (topic_subscriptions s))))"

definition get_topic :: "string \<Rightarrow> db \<Rightarrow> topic_decl option" where
  "get_topic name s = map_option topic_of_row (find (\<lambda>x. tp_name x = name) (topics s))"

definition list_declared_topics :: "db \<Rightarrow> topic_decl list" where
  "list_declared_topics s = map topic_of_row (topics s)"

section \<open>The message log\<close>

definition publish_message ::
  "env \<Rightarrow> string \<Rightarrow> bytes \<Rightarrow> string option \<Rightarrow> string option \<Rightarrow> millis option \<Rightarrow> topic_message op" where
  "publish_message e topic body md notes expires s =
     (let row = \<lparr>mg_id = uuid e 0, mg_topic = topic, mg_payload = body, mg_metadata = md, mg_notes = notes,
                 mg_created_at = now_millis e, mg_expires_at = expires\<rparr>
      in if \<exists>x\<in>set (topic_messages s). mg_id x = mg_id row then (s, Inl (Storage UniqueViolation))
         else (s\<lparr>topic_messages := topic_messages s @ [row]\<rparr>,
               Inr \<lparr>tm_id = uuid e 0, tm_topic = topic, tm_payload = body, tm_metadata = md, tm_notes = notes,
                    tm_created_at = now_millis e, tm_expires_at = expires\<rparr>))"

definition is_log_row :: "subscription_row \<Rightarrow> bool" where
  "is_log_row b \<longleftrightarrow> sb_mode b = mode_as_str Log"

definition find_log_subscription :: "string \<Rightarrow> string \<Rightarrow> db \<Rightarrow> subscription_row option" where
  "find_log_subscription topic name s =
     find (\<lambda>b. sb_topic b = topic \<and> sb_subscription_name b = name \<and> is_log_row b) (topic_subscriptions s)"

definition past_cursor :: "string option \<Rightarrow> string \<Rightarrow> bool" where
  "past_cursor c i = (case c of None \<Rightarrow> True | Some after \<Rightarrow> after < i)"

definition read_topic_messages :: "string \<Rightarrow> string \<Rightarrow> int \<Rightarrow> db \<Rightarrow> topic_message list" where
  "read_topic_messages topic name limit s =
     (if limit \<le> 0 then []
      else (case find_log_subscription topic name s of
              None \<Rightarrow> []
            | Some b \<Rightarrow>
                map message_of_row
                  (sql_limit limit
                    (sort_key mg_id
                      (filter (\<lambda>m. mg_topic m = topic \<and> past_cursor (sb_cursor b) (mg_id m)) (topic_messages s))))))"

definition ack_topic_cursor :: "string \<Rightarrow> string \<Rightarrow> string \<Rightarrow> bool op" where
  "ack_topic_cursor topic name c s =
     (let p = (\<lambda>b. sb_topic b = topic \<and> sb_subscription_name b = name \<and> is_log_row b
                   \<and> (case sb_cursor b of None \<Rightarrow> True | Some old \<Rightarrow> old < c))
      in (s\<lparr>topic_subscriptions := update_where p (\<lambda>b. b\<lparr>sb_cursor := Some c\<rparr>) (topic_subscriptions s)\<rparr>,
          Inr (count_where p (topic_subscriptions s) > 0)))"

record topic_log_stat =
  ls_topic :: string
  ls_subscription_name :: string
  ls_cursor :: "string option"
  ls_lag :: int
  ls_oldest_unacked_age_ms :: "millis option"

fun list_min :: "'a::linorder list \<Rightarrow> 'a option" where
  "list_min [] = None"
| "list_min (x # xs) = Some (fold min xs x)"

definition topic_log_stats :: "env \<Rightarrow> db \<Rightarrow> topic_log_stat list" where
  "topic_log_stats e s =
     map (\<lambda>b. let ms = filter (\<lambda>m. mg_topic m = sb_topic b \<and> past_cursor (sb_cursor b) (mg_id m)) (topic_messages s)
              in \<lparr>ls_topic = sb_topic b, ls_subscription_name = sb_subscription_name b, ls_cursor = sb_cursor b,
                  ls_lag = int (length ms),
                  ls_oldest_unacked_age_ms =
                    map_option (\<lambda>c. max (wrap_i64 (now_millis e - c)) 0) (list_min (map mg_created_at ms))\<rparr>)
       (filter is_log_row (topic_subscriptions s))"

section \<open>Per-message leases\<close>

abbreviation dv_key :: "delivery_row \<Rightarrow> string \<times> string \<times> string" where
  "dv_key d \<equiv> (dv_topic d, dv_subscription_name d, dv_message_id d)"

text \<open>The left join of a topic's messages with the subscription's deliveries.\<close>

definition available_messages :: "string \<Rightarrow> string \<Rightarrow> millis \<Rightarrow> db \<Rightarrow> topic_message_row list" where
  "available_messages topic name now s =
     concat (map (\<lambda>m. let ds = filter (\<lambda>d. dv_key d = (topic, name, mg_id m)) (topic_deliveries s)
                      in if ds = [] then [m]
                         else map (\<lambda>_. m) (filter (\<lambda>d. \<not> dv_acked d \<and> dv_lease_expires_at d \<le> now) ds))
       (filter (\<lambda>m. mg_topic m = topic) (topic_messages s)))"

definition lease_row :: "string \<Rightarrow> string \<Rightarrow> millis \<Rightarrow> millis \<Rightarrow> topic_message_row \<Rightarrow> delivery_row" where
  "lease_row topic name now until m =
     \<lparr>dv_topic = topic, dv_subscription_name = name, dv_message_id = mg_id m, dv_acked = False, dv_attempts = 1,
      dv_lease_expires_at = until, dv_delivered_at = now\<rparr>"

definition lease_again :: "millis \<Rightarrow> millis \<Rightarrow> delivery_row \<Rightarrow> delivery_row" where
  "lease_again now until d =
     d\<lparr>dv_acked := False, dv_attempts := dv_attempts d + 1, dv_lease_expires_at := until, dv_delivered_at := now\<rparr>"

text \<open>
  A lease reads its window and then upserts a delivery row per message. The read locks no row: on
  a backend that lets transactions overlap, the writes of another lease may come in between, so
  the two halves are definitions of their own.
\<close>

definition lease_window :: "string \<Rightarrow> string \<Rightarrow> int \<Rightarrow> millis \<Rightarrow> db \<Rightarrow> topic_message_row list" where
  "lease_window topic name limit now s =
     sql_limit limit (sort_key mg_id (available_messages topic name now s))"

definition record_leases :: "string \<Rightarrow> string \<Rightarrow> millis \<Rightarrow> millis \<Rightarrow> topic_message_row list \<Rightarrow> db \<Rightarrow> db" where
  "record_leases topic name now until rows s =
     s\<lparr>topic_deliveries :=
         fold (\<lambda>m. upsert dv_key (lease_row topic name now until m) (lease_again now until)) rows (topic_deliveries s)\<rparr>"

definition lease_topic_messages ::
  "string \<Rightarrow> string \<Rightarrow> int \<Rightarrow> millis \<Rightarrow> millis \<Rightarrow> topic_message list op" where
  "lease_topic_messages topic name limit visibility now s =
     (if limit \<le> 0 then (s, Inr [])
      else if find_log_subscription topic name s = None then (s, Inr [])
      else (let rows = lease_window topic name limit now s;
                until = wrap_i64 (now + visibility)
            in (record_leases topic name now until rows s, Inr (map message_of_row rows))))"

definition ack_message :: "string \<Rightarrow> string \<Rightarrow> string \<Rightarrow> bool op" where
  "ack_message topic name i s =
     (let p = (\<lambda>d. dv_key d = (topic, name, i) \<and> \<not> dv_acked d)
      in (s\<lparr>topic_deliveries := update_where p (\<lambda>d. d\<lparr>dv_acked := True\<rparr>) (topic_deliveries s)\<rparr>,
          Inr (count_where p (topic_deliveries s) > 0)))"

definition nack_message :: "string \<Rightarrow> string \<Rightarrow> string \<Rightarrow> bool op" where
  "nack_message topic name i s =
     (let p = (\<lambda>d. dv_key d = (topic, name, i) \<and> \<not> dv_acked d)
      in (s\<lparr>topic_deliveries := update_where p (\<lambda>d. d\<lparr>dv_lease_expires_at := 0\<rparr>) (topic_deliveries s)\<rparr>,
          Inr (count_where p (topic_deliveries s) > 0)))"

section \<open>Dropping consumed messages\<close>

text \<open>
  The floor of a topic is the least cursor of its log subscriptions, \<open>None\<close> once one of
  them has read nothing.
\<close>

fun merge_floor :: "string option \<Rightarrow> string option \<Rightarrow> string option" where
  "merge_floor (Some current) (Some c) = Some (min current c)"
| "merge_floor _ _ = None"

definition add_floor :: "string \<times> string option \<Rightarrow> (string \<rightharpoonup> string option) \<Rightarrow> string \<rightharpoonup> string option" where
  "add_floor tc floors =
     (case tc of (topic, c) \<Rightarrow>
        (case floors topic of
           None \<Rightarrow> floors(topic \<mapsto> c)
         | Some current \<Rightarrow> floors(topic \<mapsto> merge_floor current c)))"

definition topic_floors :: "db \<Rightarrow> string \<rightharpoonup> string option" where
  "topic_floors s =
     fold add_floor (map (\<lambda>b. (sb_topic b, sb_cursor b)) (filter is_log_row (topic_subscriptions s))) (\<lambda>_. None)"

definition expired_messages :: "millis \<Rightarrow> int \<Rightarrow> db \<Rightarrow> string list" where
  "expired_messages now limit s =
     map mg_id (sql_limit limit
       (filter (\<lambda>m. case mg_expires_at m of None \<Rightarrow> False | Some x \<Rightarrow> x \<le> now) (topic_messages s)))"

fun add_acked :: "int \<Rightarrow> db \<Rightarrow> string list \<Rightarrow> string list \<Rightarrow> string list" where
  "add_acked limit s [] ids = ids"
| "add_acked limit s (topic # ts) ids =
     (case topic_floors s topic of
        Some (Some fl) \<Rightarrow>
          (let remaining = limit - int (length ids)
           in if remaining \<le> 0 then ids
              else add_acked limit s ts
                     (ids @ map mg_id (sql_limit remaining
                        (filter (\<lambda>m. mg_topic m = topic \<and> mg_id m \<le> fl) (topic_messages s)))))
      | _ \<Rightarrow> add_acked limit s ts ids)"

text \<open>The subscriptions of a topic that lease message by message, and its log subscriptions.\<close>

definition pm_subs :: "string \<Rightarrow> db \<Rightarrow> string list" where
  "pm_subs topic s =
     remdups (map dv_subscription_name (filter (\<lambda>d. dv_topic d = topic) (topic_deliveries s)))"

definition log_subs :: "string \<Rightarrow> db \<Rightarrow> string list" where
  "log_subs topic s =
     map sb_subscription_name (filter (\<lambda>b. is_log_row b \<and> sb_topic b = topic) (topic_subscriptions s))"

definition acked_count :: "string \<Rightarrow> string \<Rightarrow> db \<Rightarrow> int" where
  "acked_count topic i s =
     count_where (\<lambda>d. dv_topic d = topic \<and> dv_message_id d = i \<and> dv_acked d) (topic_deliveries s)"

fun add_pm_acked :: "int \<Rightarrow> db \<Rightarrow> string list \<Rightarrow> string list \<Rightarrow> string list" where
  "add_pm_acked limit s [] ids = ids"
| "add_pm_acked limit s (topic # ts) ids =
     (let remaining = limit - int (length ids)
      in if remaining \<le> 0 then ids
         else if \<exists>n\<in>set (log_subs topic s). n \<notin> set (pm_subs topic s) then add_pm_acked limit s ts ids
         else (let candidates = map mg_id (sql_limit remaining
                     (sort_key mg_id (filter (\<lambda>m. mg_topic m = topic) (topic_messages s))))
               in add_pm_acked limit s ts
                    (ids @ filter (\<lambda>i. acked_count topic i s = int (length (pm_subs topic s))) candidates)))"

definition purge_topic_messages ::
  "(string list \<Rightarrow> string list) \<Rightarrow> (string list \<Rightarrow> string list) \<Rightarrow> millis \<Rightarrow> int \<Rightarrow> int op" where
  "purge_topic_messages ord ord' now limit s =
     (if limit \<le> 0 then (s, Inr 0)
      else (let floor_topics = ord (remdups (map sb_topic (filter is_log_row (topic_subscriptions s))));
                ids = add_acked limit s floor_topics (expired_messages now limit s);
                pm_topics = ord' (remdups (map dv_topic (topic_deliveries s)));
                ids = (if limit - int (length ids) > 0 then add_pm_acked limit s pm_topics ids else ids)
            in if ids = [] then (s, Inr 0)
               else (s\<lparr>topic_messages := delete_where (\<lambda>m. mg_id m \<in> set ids) (topic_messages s),
                       topic_deliveries := delete_where (\<lambda>d. dv_message_id d \<in> set ids) (topic_deliveries s)\<rparr>,
                     Inr (count_where (\<lambda>m. mg_id m \<in> set ids) (topic_messages s)))))"

section \<open>Backlog statistics\<close>

record backlog_stat =
  bs_topic :: string
  bs_subscription_name :: string
  bs_task_name :: string
  bs_queue :: string
  bs_active :: bool
  bs_durable :: bool
  bs_pending :: int
  bs_running :: int
  bs_dead :: int
  bs_oldest_pending_age_ms :: "millis option"

definition idle_stat :: "subscription \<Rightarrow> backlog_stat" where
  "idle_stat x =
     \<lparr>bs_topic = su_topic x, bs_subscription_name = su_subscription_name x, bs_task_name = su_task_name x,
      bs_queue = su_queue x, bs_active = su_active x, bs_durable = su_durable x, bs_pending = 0, bs_running = 0,
      bs_dead = 0, bs_oldest_pending_age_ms = None\<rparr>"

definition modify_entry :: "'k \<Rightarrow> ('v \<Rightarrow> 'v) \<Rightarrow> ('k \<rightharpoonup> 'v) \<Rightarrow> 'k \<rightharpoonup> 'v" where
  "modify_entry k f m = (case m k of None \<Rightarrow> m | Some v \<Rightarrow> m(k \<mapsto> f v))"

definition merge_count ::
  "((string \<times> string) \<times> int) \<times> int \<Rightarrow> (string \<times> string \<rightharpoonup> backlog_stat) \<Rightarrow> string \<times> string \<rightharpoonup> backlog_stat" where
  "merge_count row =
     (case row of ((key, st), n) \<Rightarrow>
        modify_entry key (\<lambda>x. if st = status_i32 Pending then x\<lparr>bs_pending := n\<rparr>
                              else if st = status_i32 Running then x\<lparr>bs_running := n\<rparr> else x))"

definition merge_backlog_stats ::
  "((string \<times> string) list \<Rightarrow> (string \<times> string) list) \<Rightarrow> millis \<Rightarrow> subscription list \<Rightarrow>
   (((string \<times> string) \<times> int) \<times> int) list \<Rightarrow> ((string \<times> string) \<times> millis option) list \<Rightarrow>
   ((string \<times> string) \<times> int) list \<Rightarrow> backlog_stat list" where
  "merge_backlog_stats ord now subs counts oldest dead =
     (let keys = map (\<lambda>x. (su_topic x, su_subscription_name x)) subs;
          m0 = fold (\<lambda>x m. m((su_topic x, su_subscription_name x) \<mapsto> idle_stat x)) subs (\<lambda>_. None);
          m1 = fold merge_count counts m0;
          m2 = fold (\<lambda>(key, old). case old of None \<Rightarrow> id
                       | Some c \<Rightarrow> modify_entry key (\<lambda>x. x\<lparr>bs_oldest_pending_age_ms := Some (max (wrap_i64 (now - c)) 0)\<rparr>))
                 oldest m1;
          m3 = fold (\<lambda>(key, n). modify_entry key (\<lambda>x. x\<lparr>bs_dead := n\<rparr>)) dead m2
      in List.map_filter m3 (ord (remdups keys)))"

text \<open>\<open>assume_not_null\<close>: a row that names a subscription but no topic fails the query.\<close>

definition tagged :: "('r \<Rightarrow> string option) \<Rightarrow> ('r \<Rightarrow> string option) \<Rightarrow> 'r list \<Rightarrow> queue_error + ('r \<times> string \<times> string) list" where
  "tagged topic_of sub_of rows =
     (let rs = filter (\<lambda>r. sub_of r \<noteq> None) rows
      in if \<exists>r\<in>set rs. topic_of r = None
         then Inl (Storage (OtherDiesel ''Unexpected null for non-null column''))
         else Inr (map (\<lambda>r. (r, the (topic_of r), the (sub_of r))) rs))"

definition topic_backlog_stats ::
  "((string \<times> string) list \<Rightarrow> (string \<times> string) list) \<Rightarrow> env \<Rightarrow> db \<Rightarrow> queue_error + backlog_stat list" where
  "topic_backlog_stats ord e s =
     and_then (tagged row_topic row_subscription_name
         (filter (\<lambda>r. row_status r \<in> {status_i32 Pending, status_i32 Running}) (jobs s))) (\<lambda>live.
     and_then (tagged row_topic row_subscription_name
         (filter (\<lambda>r. row_status r = status_i32 Pending) (jobs s))) (\<lambda>pending.
     and_then (tagged dl_topic dl_subscription_name (dead_letter s)) (\<lambda>dead.
     Inr (merge_backlog_stats ord (now_millis e) (list_subscriptions s)
       (group_count (\<lambda>(r, key). (key, row_status r)) live)
       (map (\<lambda>key. (key, list_min (map (\<lambda>(r, _). created_at r) (filter (\<lambda>(_, k). k = key) pending))))
          (remdups (map snd pending)))
       (group_count snd dead)))))"

section \<open>Publishing\<close>

record delivery_defaults =
  dd_priority :: int
  dd_max_retries :: int
  dd_timeout_ms :: millis

record publish_request =
  rq_topic :: string
  rq_payload :: bytes
  rq_idempotency_key :: "string option"
  rq_metadata :: "string option"
  rq_notes :: "string option"
  rq_priority :: "int option"
  rq_scheduled_at :: millis
  rq_max_retries :: "int option"
  rq_timeout_ms :: "millis option"
  rq_expires_at :: "millis option"
  rq_result_ttl_ms :: "millis option"
  rq_namespace :: "string option"
  rq_queue_defaults :: delivery_defaults

definition salted_unique_key :: "string \<Rightarrow> string \<Rightarrow> string \<Rightarrow> string" where
  "salted_unique_key key topic name =
     key @ ''::'' @ show_nat (length topic) @ '':'' @ show_nat (length name) @ '':'' @ topic @ name"

definition delivery_notes :: "env \<Rightarrow> publish_request \<Rightarrow> subscription \<Rightarrow> string" where
  "delivery_notes e req sub =
     (let notes = (case Option.bind (Option.bind (rq_notes req) (parse_json e)) json_as_map of
                     None \<Rightarrow> [] | Some m \<Rightarrow> m)
      in print_json e (JObj (AList.update ''subscription'' (JStr (su_subscription_name sub))
           (AList.update ''topic'' (JStr (rq_topic req)) notes))))"

definition or_else :: "'a option \<Rightarrow> 'a option \<Rightarrow> 'a option" where
  "or_else a b = (case a of None \<Rightarrow> b | Some _ \<Rightarrow> a)"

definition unwrap_or :: "'a option \<Rightarrow> 'a \<Rightarrow> 'a" where
  "unwrap_or a d = (case a of None \<Rightarrow> d | Some x \<Rightarrow> x)"

definition delivery_job :: "env \<Rightarrow> publish_request \<Rightarrow> subscription \<Rightarrow> new_job" where
  "delivery_job e req sub =
     \<lparr>nj_queue = su_queue sub, nj_task_name = su_task_name sub, nj_payload = rq_payload req,
      nj_priority = unwrap_or (or_else (rq_priority req) (su_priority sub)) (dd_priority (rq_queue_defaults req)),
      nj_scheduled_at = rq_scheduled_at req,
      nj_max_retries = unwrap_or (or_else (rq_max_retries req) (su_max_retries sub)) (dd_max_retries (rq_queue_defaults req)),
      nj_timeout_ms = unwrap_or (or_else (rq_timeout_ms req) (su_timeout_ms sub)) (dd_timeout_ms (rq_queue_defaults req)),
      nj_unique_key = map_option (\<lambda>key. salted_unique_key key (rq_topic req) (su_subscription_name sub))
                        (rq_idempotency_key req),
      nj_metadata = rq_metadata req, nj_notes = Some (delivery_notes e req sub), nj_depends_on = [],
      nj_expires_at = rq_expires_at req, nj_result_ttl_ms = rq_result_ttl_ms req, nj_namespace = rq_namespace req,
      nj_debounce_key = None, nj_enqueued_by = None\<rparr>"

definition enqueue_unique_batch :: "env \<Rightarrow> new_job list \<Rightarrow> job list op" where
  "enqueue_unique_batch e njs s =
     (case enqueue_unique_batch_reporting e njs s of
        (s', Inl err) \<Rightarrow> (s', Inl err)
      | (s', Inr out) \<Rightarrow> (s', Inr (map fst out)))"

text \<open>
  Whether the publish is stored in the log, and when the stored message expires: with a log
  reader as the request says, for a declared log topic after its retention window.
\<close>

definition log_expires :: "env \<Rightarrow> publish_request \<Rightarrow> subscription list \<Rightarrow> db \<Rightarrow> millis option option" where
  "log_expires e req subs s =
     (if \<exists>x\<in>set subs. is_log (su_mode x) then Some (rq_expires_at req)
      else (case get_topic (rq_topic req) s of
              Some t \<Rightarrow>
                if is_log (td_mode t)
                then Some (or_else (rq_expires_at req) (map_option (\<lambda>ms. wrap_i64 (now_millis e + ms)) (td_retention_ms t)))
                else None
            | None \<Rightarrow> None))"

text \<open>
  A publish is up to three calls into the storage: \<open>em\<close> is the environment of the message
  insert and \<open>ej\<close> that of the batch enqueue.
\<close>

definition publish_to_topic :: "env \<Rightarrow> env \<Rightarrow> env \<Rightarrow> publish_request \<Rightarrow> job list op" where
  "publish_to_topic e em ej req s =
     (let subs = list_subscriptions_for_topic (rq_topic req) s;
          (s1, logged) = (case log_expires e req subs s of
             None \<Rightarrow> (s, Inr ())
           | Some expires \<Rightarrow>
               (case publish_message em (rq_topic req) (rq_payload req) (rq_metadata req) (rq_notes req) expires s of
                  (s', Inl err) \<Rightarrow> (s', Inl err)
                | (s', Inr _) \<Rightarrow> (s', Inr ())))
      in case logged of
           Inl err \<Rightarrow> (s1, Inl err)
         | Inr _ \<Rightarrow>
             (let njs = map (delivery_job e req) (filter (\<lambda>x. \<not> is_log (su_mode x)) subs)
              in if njs = [] then (s1, Inr [])
                 else if rq_idempotency_key req = None then enqueue_batch ej njs s1
                 else enqueue_unique_batch ej njs s1))"

section \<open>Every call keeps the invariant\<close>

lemma declare_topic_keeps: "db_ok s \<Longrightarrow> db_ok (fst (declare_topic e name mode ret s))"
  by (auto simp: declare_topic_def Let_def split: sum.splits intro!: db_ok_registryI distinct_upsert db_ok_registryD)

lemma register_subscription_keeps: "db_ok s \<Longrightarrow> db_ok (fst (register_subscription sub s))"
  by (auto simp: register_subscription_def Let_def intro!: db_ok_registryI distinct_upsert db_ok_registryD)

lemma unsubscribe_keeps: "db_ok s \<Longrightarrow> db_ok (fst (unsubscribe topic name s))"
  by (auto simp: unsubscribe_def Let_def intro!: db_ok_registryI distinct_map_delete_where db_ok_registryD)

lemma set_active_keeps: "db_ok s \<Longrightarrow> db_ok (fst (set_subscription_active topic name active s))"
  by (simp add: set_subscription_active_def Let_def map_key_update_where db_ok_registryI db_ok_registryD)

lemma reap_ephemeral_keeps: "db_ok s \<Longrightarrow> db_ok (fst (reap_ephemeral_subscriptions e live s))"
  by (auto simp: reap_ephemeral_subscriptions_def Let_def intro!: db_ok_registryI distinct_map_delete_where db_ok_registryD)

lemma publish_message_keeps: "db_ok s \<Longrightarrow> db_ok (fst (publish_message e topic body md notes expires s))"
  by (simp add: publish_message_def Let_def bex_key db_ok_registryI db_ok_registryD)

lemma ack_cursor_keeps: "db_ok s \<Longrightarrow> db_ok (fst (ack_topic_cursor topic name c s))"
  by (simp add: ack_topic_cursor_def Let_def map_key_update_where db_ok_registryI db_ok_registryD)

lemma distinct_fold_lease:
  "distinct (map dv_key t) \<Longrightarrow>
   distinct (map dv_key (fold (\<lambda>m. upsert dv_key (lease_row topic name now until m) (lease_again now until)) rows t))"
  by (induction rows arbitrary: t) (simp_all add: distinct_upsert lease_again_def)

lemma record_leases_keeps: "db_ok s \<Longrightarrow> db_ok (record_leases topic name now until rows s)"
  by (auto simp: record_leases_def intro!: db_ok_registryI distinct_fold_lease db_ok_registryD)

lemma lease_keeps: "db_ok s \<Longrightarrow> db_ok (fst (lease_topic_messages topic name limit vis now s))"
  by (simp add: lease_topic_messages_def Let_def record_leases_keeps)

lemma ack_message_keeps: "db_ok s \<Longrightarrow> db_ok (fst (ack_message topic name i s))"
  by (simp add: ack_message_def Let_def map_key_update_where db_ok_registryI db_ok_registryD)

lemma nack_message_keeps: "db_ok s \<Longrightarrow> db_ok (fst (nack_message topic name i s))"
  by (simp add: nack_message_def Let_def map_key_update_where db_ok_registryI db_ok_registryD)

lemma purge_topic_keeps: "db_ok s \<Longrightarrow> db_ok (fst (purge_topic_messages ord ord' now limit s))"
proof -
  assume ok: "db_ok s"
  have "db_ok (s\<lparr>topic_messages := delete_where p (topic_messages s),
                 topic_deliveries := delete_where q (topic_deliveries s)\<rparr>)" for p q
    using db_ok_registryI(7) [OF db_ok_registryI(6) [OF ok]] ok
    by (simp add: distinct_map_delete_where db_ok_registryD)
  then show ?thesis using ok by (simp add: purge_topic_messages_def Let_def)
qed

section \<open>What the sweep drops\<close>

fun at_most :: "string \<Rightarrow> string option \<Rightarrow> bool" where
  "at_most i None \<longleftrightarrow> False"
| "at_most i (Some c) \<longleftrightarrow> i \<le> c"

definition expired_message :: "millis \<Rightarrow> topic_message_row \<Rightarrow> bool" where
  "expired_message now m \<longleftrightarrow> (case mg_expires_at m of None \<Rightarrow> False | Some x \<Rightarrow> x \<le> now)"

definition log_rows :: "string \<Rightarrow> db \<Rightarrow> subscription_row list" where
  "log_rows topic s = filter (\<lambda>b. is_log_row b \<and> sb_topic b = topic) (topic_subscriptions s)"

definition acked_by :: "string \<Rightarrow> string \<Rightarrow> string \<Rightarrow> db \<Rightarrow> bool" where
  "acked_by topic name i s \<longleftrightarrow> (\<exists>d\<in>set (topic_deliveries s). dv_key d = (topic, name, i) \<and> dv_acked d)"

text \<open>Read past by every cursor, or acked by every subscription that leases.\<close>

definition cursor_done :: "db \<Rightarrow> topic_message_row \<Rightarrow> bool" where
  "cursor_done s m \<longleftrightarrow> log_rows (mg_topic m) s \<noteq> []
     \<and> (\<forall>b\<in>set (log_rows (mg_topic m) s). at_most (mg_id m) (sb_cursor b))"

definition lease_done :: "db \<Rightarrow> topic_message_row \<Rightarrow> bool" where
  "lease_done s m \<longleftrightarrow> pm_subs (mg_topic m) s \<noteq> []
     \<and> set (log_subs (mg_topic m) s) \<subseteq> set (pm_subs (mg_topic m) s)
     \<and> (\<forall>n\<in>set (pm_subs (mg_topic m) s). acked_by (mg_topic m) n (mg_id m) s)"

lemma at_most_merge: "at_most i (merge_floor a b) \<longleftrightarrow> at_most i a \<and> at_most i b"
  by (cases a; cases b) auto

lemma add_floor_at:
  "add_floor (t', c) F t = (if t' = t then Some (case F t of None \<Rightarrow> c | Some cur \<Rightarrow> merge_floor cur c) else F t)"
  by (auto simp: add_floor_def split: option.splits)

lemma fold_add_floor: "fold add_floor xs F t = None \<longleftrightarrow> (\<forall>c. (t, c) \<notin> set xs) \<and> F t = None"
proof (induction xs arbitrary: F)
  case (Cons x xs)
  then show ?case by (cases x) (auto simp: add_floor_at)
qed simp

lemma at_most_fold_floor:
  "fold add_floor xs F t = Some f \<Longrightarrow>
     at_most i f \<longleftrightarrow> (\<forall>c. (t, c) \<in> set xs \<longrightarrow> at_most i c) \<and> (\<forall>cur. F t = Some cur \<longrightarrow> at_most i cur)"
proof (induction xs arbitrary: F)
  case (Cons x xs)
  obtain t' c where x: "x = (t', c)" by (cases x)
  have "at_most i f \<longleftrightarrow> (\<forall>c. (t, c) \<in> set xs \<longrightarrow> at_most i c)
      \<and> (\<forall>cur. add_floor x F t = Some cur \<longrightarrow> at_most i cur)"
    by (rule Cons.IH) (use Cons.prems in simp)
  then show ?case by (cases "F t") (auto simp: x add_floor_at at_most_merge)
qed simp

lemma topic_floors_done:
  "(\<exists>fl. topic_floors s (mg_topic m) = Some (Some fl) \<and> mg_id m \<le> fl) \<longleftrightarrow> cursor_done s m"
proof -
  let ?xs = "map (\<lambda>b. (sb_topic b, sb_cursor b)) (filter is_log_row (topic_subscriptions s))"
  have mem: "(mg_topic m, c) \<in> set ?xs \<longleftrightarrow> (\<exists>b\<in>set (log_rows (mg_topic m) s). sb_cursor b = c)" for c
    by (auto simp: log_rows_def image_iff)
  have rows: "(\<exists>c. (mg_topic m, c) \<in> set ?xs) \<longleftrightarrow> log_rows (mg_topic m) s \<noteq> []"
    "(\<forall>c. (mg_topic m, c) \<in> set ?xs \<longrightarrow> at_most i c) \<longleftrightarrow> (\<forall>b\<in>set (log_rows (mg_topic m) s). at_most i (sb_cursor b))" for i
    unfolding mem by (cases "log_rows (mg_topic m) s") auto
  have "topic_floors s (mg_topic m) = None \<longleftrightarrow> \<not> (\<exists>c. (mg_topic m, c) \<in> set ?xs)"
    unfolding topic_floors_def fold_add_floor by simp
  then have some: "topic_floors s (mg_topic m) \<noteq> None \<longleftrightarrow> log_rows (mg_topic m) s \<noteq> []" unfolding rows(1) by simp
  have "at_most (mg_id m) f \<longleftrightarrow> (\<forall>b\<in>set (log_rows (mg_topic m) s). at_most (mg_id m) (sb_cursor b))"
    if "topic_floors s (mg_topic m) = Some f" for f
    using at_most_fold_floor [of ?xs "\<lambda>_. None" "mg_topic m" f "mg_id m"] that rows(2) by (simp add: topic_floors_def)
  moreover have "(\<exists>fl. f = Some fl \<and> mg_id m \<le> fl) \<longleftrightarrow> at_most (mg_id m) f" for f by (cases f) auto
  ultimately show ?thesis using some by (cases "topic_floors s (mg_topic m)") (auto simp: cursor_done_def)
qed

lemma acked_count_all:
  assumes ok: "db_ok s"
  shows "acked_count topic i s = int (length (pm_subs topic s))
    \<longleftrightarrow> (\<forall>n\<in>set (pm_subs topic s). acked_by topic n i s)"
proof -
  let ?D = "filter (\<lambda>d. dv_topic d = topic \<and> dv_message_id d = i \<and> dv_acked d) (topic_deliveries s)"
  let ?A = "dv_subscription_name ` set ?D" and ?P = "set (pm_subs topic s)"
  have "inj_on dv_key (set (topic_deliveries s))" using db_ok_registryD(7) [OF ok] by (simp add: distinct_map)
  then have "inj_on dv_subscription_name (set ?D)" by (auto simp: inj_on_def)
  moreover have "distinct ?D" using db_ok_registryD(7) [OF ok] by (simp add: distinct_map)
  ultimately have "acked_count topic i s = int (card ?A)"
    unfolding acked_count_def count_where_def using card_image [of dv_subscription_name "set ?D"]
    by (simp only: distinct_card)
  moreover have "length (pm_subs topic s) = card ?P" by (simp add: pm_subs_def distinct_card [symmetric])
  moreover have sub: "?A \<subseteq> ?P" by (auto simp: pm_subs_def)
  moreover have "card ?A = card ?P \<longleftrightarrow> ?A = ?P"
    by (rule iffI, rule card_subset_eq [OF _ sub]) simp_all
  moreover have "n \<in> ?A \<longleftrightarrow> acked_by topic n i s" for n by (auto simp: acked_by_def image_iff)
  moreover have "?A = ?P \<longleftrightarrow> (\<forall>n\<in>?P. n \<in> ?A)" using sub by blast
  ultimately show ?thesis by simp
qed

lemma in_sql_limit: "x \<in> set (sql_limit n t) \<Longrightarrow> x \<in> set t"
  using set_sql_limit [of n t] by blast

lemma add_acked_sound:
  "i \<in> set (add_acked limit s ts ids) \<Longrightarrow>
     i \<in> set ids \<or> (\<exists>m\<in>set (topic_messages s). mg_id m = i \<and> cursor_done s m)"
proof (induction ts arbitrary: ids)
  case (Cons topic ts)
  show ?case
  proof (cases "\<exists>fl. topic_floors s topic = Some (Some fl)")
    case True
    then obtain fl where fl: "topic_floors s topic = Some (Some fl)" by blast
    have "cursor_done s m" if "mg_topic m = topic" "mg_id m \<le> fl" for m
      using that fl topic_floors_done [of s m] by blast
    then show ?thesis using Cons.IH [of "ids @ map mg_id (sql_limit (limit - int (length ids))
        (filter (\<lambda>m. mg_topic m = topic \<and> mg_id m \<le> fl) (topic_messages s)))"] Cons.prems fl
      by (auto simp: Let_def split: if_splits dest!: in_sql_limit)
  next
    case False
    then have "add_acked limit s (topic # ts) ids = add_acked limit s ts ids"
      by (auto split: option.splits)
    then show ?thesis using Cons by simp
  qed
qed simp

lemma add_pm_acked_sound:
  assumes ok: "db_ok s"
  shows "i \<in> set (add_pm_acked limit s ts ids) \<Longrightarrow>
     i \<in> set ids \<or> (\<exists>m\<in>set (topic_messages s). mg_id m = i \<and> mg_topic m \<in> set ts
       \<and> set (log_subs (mg_topic m) s) \<subseteq> set (pm_subs (mg_topic m) s)
       \<and> (\<forall>n\<in>set (pm_subs (mg_topic m) s). acked_by (mg_topic m) n (mg_id m) s))"
proof (induction ts arbitrary: ids)
  case (Cons topic ts)
  let ?new = "filter (\<lambda>i. acked_count topic i s = int (length (pm_subs topic s)))
    (map mg_id (sql_limit (limit - int (length ids)) (sort_key mg_id (filter (\<lambda>m. mg_topic m = topic) (topic_messages s)))))"
  show ?case
  proof (cases "limit - int (length ids) \<le> 0 \<or> (\<exists>n\<in>set (log_subs topic s). n \<notin> set (pm_subs topic s))")
    case True
    then show ?thesis using Cons.prems Cons.IH [of ids] by (auto simp: Let_def split: if_splits)
  next
    case False
    then have "i \<in> set (add_pm_acked limit s ts (ids @ ?new))" using Cons.prems by (auto simp: Let_def)
    note this [THEN Cons.IH]
    moreover have "\<exists>m\<in>set (topic_messages s). mg_id m = i \<and> mg_topic m = topic
        \<and> (\<forall>n\<in>set (pm_subs topic s). acked_by topic n i s)" if "i \<in> set ?new"
      using that by (auto simp: acked_count_all [OF ok] dest!: in_sql_limit)
    ultimately show ?thesis using False by fastforce
  qed
qed simp

lemma sql_limit_all: "int (length t) \<le> n \<Longrightarrow> sql_limit n t = t"
  by (simp add: sql_limit_def)

abbreviation of_topics :: "string list \<Rightarrow> db \<Rightarrow> topic_message_row list" where
  "of_topics ts s \<equiv> filter (\<lambda>m. mg_topic m \<in> set ts) (topic_messages s)"

lemma length_of_topics:
  "t \<notin> set ts \<Longrightarrow> length (filter (\<lambda>m. mg_topic m \<in> set (t # ts)) ms)
     = length (filter (\<lambda>m. mg_topic m = t) ms) + length (filter (\<lambda>m. mg_topic m \<in> set ts) ms)"
  by (induction ms) auto

lemma add_acked_complete:
  "distinct ts \<Longrightarrow> int (length ids + length (of_topics ts s)) < limit \<Longrightarrow>
     length (add_acked limit s ts ids) \<le> length ids + length (of_topics ts s)
     \<and> set ids \<subseteq> set (add_acked limit s ts ids)
     \<and> (\<forall>m\<in>set (topic_messages s). mg_topic m \<in> set ts \<longrightarrow> cursor_done s m \<longrightarrow> mg_id m \<in> set (add_acked limit s ts ids))"
proof (induction ts arbitrary: ids)
  case (Cons topic ts)
  let ?T = "filter (\<lambda>m. mg_topic m = topic) (topic_messages s)"
  have len: "length (of_topics (topic # ts) s) = length ?T + length (of_topics ts s)"
    using Cons.prems(1) length_of_topics [of topic ts] by simp
  show ?case
  proof (cases "\<exists>fl. topic_floors s topic = Some (Some fl)")
    case True
    then obtain fl where fl: "topic_floors s topic = Some (Some fl)" by blast
    let ?M = "filter (\<lambda>m. mg_topic m = topic \<and> mg_id m \<le> fl) (topic_messages s)"
    have "?M = filter (\<lambda>m. mg_id m \<le> fl) ?T" by (simp add: conj_commute)
    then have M: "length ?M \<le> length ?T" by (metis length_filter_le)
    have "add_acked limit s (topic # ts) ids = add_acked limit s ts (ids @ map mg_id ?M)"
      using Cons.prems(2) M len fl by (simp add: Let_def sql_limit_all)
    moreover have "mg_id m \<le> fl" if "mg_topic m = topic" "cursor_done s m" for m
      using that fl topic_floors_done [of s m] by auto
    ultimately show ?thesis using Cons.IH [of "ids @ map mg_id ?M"] Cons.prems len M by auto
  next
    case False
    then have "add_acked limit s (topic # ts) ids = add_acked limit s ts ids" by (auto split: option.splits)
    moreover have "\<not> cursor_done s m" if "mg_topic m = topic" for m
      using that False topic_floors_done [of s m] by blast
    ultimately show ?thesis using Cons.IH [of ids] Cons.prems len by auto
  qed
qed simp

lemma add_pm_acked_complete:
  assumes ok: "db_ok s"
  shows "distinct ts \<Longrightarrow> int (length ids + length (of_topics ts s)) < limit \<Longrightarrow>
     set ids \<subseteq> set (add_pm_acked limit s ts ids)
     \<and> (\<forall>m\<in>set (topic_messages s). mg_topic m \<in> set ts \<longrightarrow> lease_done s m \<longrightarrow> mg_id m \<in> set (add_pm_acked limit s ts ids))"
proof (induction ts arbitrary: ids)
  case (Cons topic ts)
  let ?T = "filter (\<lambda>m. mg_topic m = topic) (topic_messages s)"
  have len: "length (of_topics (topic # ts) s) = length ?T + length (of_topics ts s)"
    using Cons.prems(1) length_of_topics [of topic ts] by simp
  show ?case
  proof (cases "set (log_subs topic s) \<subseteq> set (pm_subs topic s)")
    case True
    let ?new = "filter (\<lambda>i. acked_count topic i s = int (length (pm_subs topic s))) (map mg_id (sort_key mg_id ?T))"
    have new: "length ?new \<le> length ?T" by (metis length_filter_le length_map length_sort)
    have "add_pm_acked limit s (topic # ts) ids = add_pm_acked limit s ts (ids @ ?new)"
      using Cons.prems(2) len True by (auto simp: Let_def sql_limit_all)
    moreover have "mg_id m \<in> set ?new" if "m \<in> set (topic_messages s)" "mg_topic m = topic" "lease_done s m" for m
      using that by (auto simp: acked_count_all [OF ok] lease_done_def)
    ultimately show ?thesis using Cons.IH [of "ids @ ?new"] Cons.prems len new by auto
  next
    case False
    then have "add_pm_acked limit s (topic # ts) ids = add_pm_acked limit s ts ids"
      using Cons.prems(2) len by (auto simp: Let_def)
    moreover have "\<not> lease_done s m" if "mg_topic m = topic" for m using that False by (auto simp: lease_done_def)
    ultimately show ?thesis using Cons.IH [of ids] Cons.prems len by auto
  qed
qed simp

text \<open>What the sweep deletes, as the ids it collects.\<close>

definition purge_ids :: "(string list \<Rightarrow> string list) \<Rightarrow> (string list \<Rightarrow> string list) \<Rightarrow> millis \<Rightarrow> int \<Rightarrow> db \<Rightarrow> string list" where
  "purge_ids ord ord' now limit s =
     (let ids = add_acked limit s (ord (remdups (map sb_topic (filter is_log_row (topic_subscriptions s)))))
                  (expired_messages now limit s)
      in if limit - int (length ids) > 0
         then add_pm_acked limit s (ord' (remdups (map dv_topic (topic_deliveries s)))) ids else ids)"

lemma purge_topic_eq:
  "0 < limit \<Longrightarrow> purge_topic_messages ord ord' now limit s =
     (s\<lparr>topic_messages := delete_where (\<lambda>m. mg_id m \<in> set (purge_ids ord ord' now limit s)) (topic_messages s),
        topic_deliveries := delete_where (\<lambda>d. dv_message_id d \<in> set (purge_ids ord ord' now limit s)) (topic_deliveries s)\<rparr>,
      Inr (count_where (\<lambda>m. mg_id m \<in> set (purge_ids ord ord' now limit s)) (topic_messages s)))"
  by (auto simp: purge_topic_messages_def purge_ids_def Let_def delete_where_def count_where_def)

lemma purge_ids_sound:
  assumes ok: "db_ok s" and m: "m \<in> set (topic_messages s)" "mg_id m \<in> set (purge_ids ord ord' now limit s)"
    and unexpired: "\<not> expired_message now m" and b: "b \<in> set (log_rows (mg_topic m) s)"
  shows "at_most (mg_id m) (sb_cursor b) \<or> acked_by (mg_topic m) (sb_subscription_name b) (mg_id m) s"
proof -
  have one: "m' = m" if "m' \<in> set (topic_messages s)" "mg_id m' = mg_id m" for m'
    using distinct_map_key [OF db_ok_registryD(6) [OF ok] that(1) m(1)] that(2) by simp
  have "mg_id m \<notin> set (expired_messages now limit s)"
    using one unexpired by (auto simp: expired_messages_def expired_message_def dest!: in_sql_limit)
  moreover have "sb_subscription_name b \<in> set (log_subs (mg_topic m) s)" using b by (auto simp: log_subs_def log_rows_def)
  ultimately show ?thesis using m(2) b
    by (auto simp: purge_ids_def Let_def cursor_done_def split: if_splits dest!: add_acked_sound add_pm_acked_sound [OF ok] one)
qed


text \<open>A \<open>HashMap\<close> visits each of its keys once.\<close>

definition iteration_order :: "(string list \<Rightarrow> string list) \<Rightarrow> bool" where
  "iteration_order ord \<longleftrightarrow> (\<forall>ks. distinct ks \<longrightarrow> distinct (ord ks) \<and> set (ord ks) = set ks)"

lemma purge_ids_complete:
  assumes ok: "db_ok s" and ord: "iteration_order ord" "iteration_order ord'"
    and limit: "3 * int (length (topic_messages s)) < limit" and m: "m \<in> set (topic_messages s)"
  shows "mg_id m \<in> set (purge_ids ord ord' now limit s) \<longleftrightarrow> expired_message now m \<or> cursor_done s m \<or> lease_done s m"
proof -
  let ?ts = "ord (remdups (map sb_topic (filter is_log_row (topic_subscriptions s))))"
    and ?ps = "ord' (remdups (map dv_topic (topic_deliveries s)))"
  let ?e = "expired_messages now limit s" let ?a = "add_acked limit s ?ts ?e"
  have n: "length (of_topics ts s) \<le> length (topic_messages s)" for ts by (rule length_filter_le)
  have "sql_limit limit (filter (expired_message now) (topic_messages s)) = filter (expired_message now) (topic_messages s)"
    by (rule sql_limit_all) (use limit length_filter_le [of "expired_message now" "topic_messages s"] in linarith)
  then have e: "?e = map mg_id (filter (expired_message now) (topic_messages s))"
    unfolding expired_message_def [abs_def] by (simp add: expired_messages_def)
  have len: "length ?e \<le> length (topic_messages s)" by (simp add: e)
  have ts: "distinct ?ts" "set ?ts = sb_topic ` {b \<in> set (topic_subscriptions s). is_log_row b}"
    and ps: "distinct ?ps" "set ?ps = dv_topic ` set (topic_deliveries s)"
    using ord unfolding iteration_order_def by simp_all
  have "int (length ?e + length (of_topics ?ts s)) < limit" using len n [of ?ts] limit by linarith
  note a = add_acked_complete [OF ts(1) this]
  have a_len: "length ?a \<le> 2 * length (topic_messages s)" using conjunct1 [OF a] len n [of ?ts] by linarith
  have "int (length ?a + length (of_topics ?ps s)) < limit" using a_len n [of ?ps] limit by linarith
  note p = add_pm_acked_complete [OF ok ps(1) this]
  have ids: "purge_ids ord ord' now limit s = add_pm_acked limit s ?ps ?a"
    using a_len limit by (simp add: purge_ids_def Let_def)
  have one: "m' = m" if "m' \<in> set (topic_messages s)" "mg_id m' = mg_id m" for m'
    using distinct_map_key [OF db_ok_registryD(6) [OF ok] that(1) m] that(2) by simp
  have in_e: "mg_id m \<in> set ?e \<longleftrightarrow> expired_message now m"
    unfolding e using m by (auto intro: image_eqI [of _ _ m] dest: one)
  have topics: "cursor_done s m \<Longrightarrow> mg_topic m \<in> set ?ts" "lease_done s m \<Longrightarrow> mg_topic m \<in> set ?ps"
    unfolding ts(2) ps(2) by (auto simp: cursor_done_def lease_done_def log_rows_def pm_subs_def filter_empty_conv intro: rev_image_eqI)
  have leased: "lease_done s m" if "mg_topic m \<in> set ?ps" "set (log_subs (mg_topic m) s) \<subseteq> set (pm_subs (mg_topic m) s)"
    "\<forall>n\<in>set (pm_subs (mg_topic m) s). acked_by (mg_topic m) n (mg_id m) s"
    using that unfolding ps(2) by (auto simp: lease_done_def pm_subs_def filter_empty_conv)
  show ?thesis
  proof
    assume "mg_id m \<in> set (purge_ids ord ord' now limit s)"
    then show "expired_message now m \<or> cursor_done s m \<or> lease_done s m"
      unfolding ids using in_e leased by (blast dest: add_acked_sound add_pm_acked_sound [OF ok] one)
  next
    assume "expired_message now m \<or> cursor_done s m \<or> lease_done s m"
    then show "mg_id m \<in> set (purge_ids ord ord' now limit s)"
      unfolding ids using in_e a p m topics by blast
  qed
qed


lemma purge_ids_messages:
  assumes ok: "db_ok s" and i: "i \<in> set (purge_ids ord ord' now limit s)"
  shows "\<exists>m\<in>set (topic_messages s). mg_id m = i"
proof -
  have e: "\<exists>m\<in>set (topic_messages s). mg_id m = i" if "i \<in> set (expired_messages now limit s)"
    using that by (auto simp: expired_messages_def dest!: in_sql_limit)
  show ?thesis using i
    by (auto simp: purge_ids_def Let_def split: if_splits dest!: add_acked_sound add_pm_acked_sound [OF ok] dest: e)
qed

section \<open>Consumed messages are dropped, unread ones never\<close>

definition log_reader :: "string \<Rightarrow> string option \<Rightarrow> subscription_row" where
  "log_reader name c = \<lparr>sb_topic = ''t'', sb_subscription_name = name, sb_task_name = '''', sb_queue = ''q'',
     sb_active = True, sb_durable = True, sb_owner_worker_id = None, sb_created_at = 0, sb_priority = None,
     sb_max_retries = None, sb_timeout_ms = None, sb_mode = ''log'', sb_cursor = c\<rparr>"

definition stored_message :: "string \<Rightarrow> topic_message_row" where
  "stored_message i = \<lparr>mg_id = i, mg_topic = ''t'', mg_payload = [7], mg_metadata = None, mg_notes = None,
     mg_created_at = 1, mg_expires_at = None\<rparr>"

definition topic_db :: db where
  "topic_db = empty_db\<lparr>topic_subscriptions := [log_reader ''r'' (Some ''m1'')],
     topic_messages := [stored_message ''m1'', stored_message ''m2'']\<rparr>"

lemma topic_ok: "db_ok topic_db"
  unfolding topic_db_def by (intro db_ok_registryI db_ok_empty) (simp_all add: log_reader_def stored_message_def)

text \<open>
  C33. The sweep never drops an unread message. Whatever its budget and in whatever order it
  visits the topics, a message it drops has expired, or every log subscription of its topic
  has either moved its cursor to or past it or acked its own delivery of it.
\<close>

theorem purge_keeps_unread:
  assumes "db_ok s" and "purge_topic_messages ord ord' now limit s = (s', r)"
    and "m \<in> set (topic_messages s)" and "m \<notin> set (topic_messages s')" and "\<not> expired_message now m"
    and "b \<in> set (topic_subscriptions s)" and "sb_mode b = ''log''" and "sb_topic b = mg_topic m"
  shows "(\<exists>c. sb_cursor b = Some c \<and> mg_id m \<le> c)
    \<or> (\<exists>d\<in>set (topic_deliveries s). dv_key d = (mg_topic m, sb_subscription_name b, mg_id m) \<and> dv_acked d)"
proof -
  have "0 < limit" using assms(2-4) by (auto simp: purge_topic_messages_def split: if_splits)
  then have ids: "mg_id m \<in> set (purge_ids ord ord' now limit s)" using assms(2-4)
    by (auto simp: purge_topic_eq delete_where_def)
  have b: "b \<in> set (log_rows (mg_topic m) s)"
    using assms(6-8) by (simp add: log_rows_def is_log_row_def mode_as_str_def)
  show ?thesis using purge_ids_sound [OF assms(1,3) ids assms(5) b]
    by (cases "sb_cursor b") (auto simp: acked_by_def)
qed

lemma topic_purge:
  "purge_topic_messages id id 9 10 topic_db = (topic_db\<lparr>topic_messages := [stored_message ''m2'']\<rparr>, Inr 1)"
proof -
  have "topic_floors topic_db ''t'' = Some (Some ''m1'')"
    by (simp add: topic_floors_def topic_db_def add_floor_def is_log_row_def mode_as_str_def log_reader_def)
  then show ?thesis
    by (simp add: purge_topic_messages_def topic_db_def expired_messages_def sql_limit_def is_log_row_def mode_as_str_def
        delete_where_def count_where_def log_reader_def stored_message_def empty_db_def)
qed

theorem purge_keeps_unread_witness:
  "stored_message ''m1'' \<notin> set (topic_messages (fst (purge_topic_messages id id 9 10 topic_db)))
    \<and> (\<exists>c. sb_cursor (log_reader ''r'' (Some ''m1'')) = Some c \<and> ''m1'' \<le> c)"
proof -
  have m: "stored_message ''m1'' \<in> set (topic_messages topic_db)" "\<not> expired_message 9 (stored_message ''m1'')"
    "log_reader ''r'' (Some ''m1'') \<in> set (topic_subscriptions topic_db)" "topic_deliveries topic_db = []"
    "sb_mode (log_reader ''r'' (Some ''m1'')) = ''log''"
    "sb_topic (log_reader ''r'' (Some ''m1'')) = mg_topic (stored_message ''m1'')" "mg_id (stored_message ''m1'') = ''m1''"
    by (simp_all add: topic_db_def stored_message_def expired_message_def log_reader_def empty_db_def)
  have gone: "stored_message ''m1'' \<notin> set (topic_messages (topic_db\<lparr>topic_messages := [stored_message ''m2'']\<rparr>))"
    by (simp add: stored_message_def)
  show ?thesis
    using purge_keeps_unread [OF topic_ok topic_purge m(1) gone m(2,3,5,6)] gone topic_purge m(4,7) by simp
qed

text \<open>
  A sweep whose budget covers the log drops exactly the messages that are finished with:
  the expired ones, those every log subscription's cursor has passed, and those every
  leasing subscription has acked on a topic that only leasing subscriptions read. Their
  deliveries go with them and the count it answers is right.
\<close>

theorem purge_drops_consumed:
  assumes "db_ok s" and "iteration_order ord" and "iteration_order ord'"
    and "3 * int (length (topic_messages s)) < limit"
  shows "let gone = (\<lambda>m. expired_message now m \<or> cursor_done s m \<or> lease_done s m)
    in purge_topic_messages ord ord' now limit s =
      (s\<lparr>topic_messages := filter (\<lambda>m. \<not> gone m) (topic_messages s),
         topic_deliveries := filter (\<lambda>d. \<nexists>m. m \<in> set (topic_messages s) \<and> gone m \<and> mg_id m = dv_message_id d)
           (topic_deliveries s)\<rparr>,
       Inr (count_where gone (topic_messages s)))"
proof -
  let ?I = "set (purge_ids ord ord' now limit s)"
  let ?gone = "\<lambda>m. expired_message now m \<or> cursor_done s m \<or> lease_done s m"
  note exact = purge_ids_complete [OF assms]
  have limit: "0 < limit" using assms(4) by linarith
  have "i \<in> ?I \<longleftrightarrow> (\<exists>m. m \<in> set (topic_messages s) \<and> ?gone m \<and> mg_id m = i)" for i
    using purge_ids_messages [OF assms(1), of i] exact by blast
  then have "delete_where (\<lambda>d. dv_message_id d \<in> ?I) (topic_deliveries s)
      = filter (\<lambda>d. \<nexists>m. m \<in> set (topic_messages s) \<and> ?gone m \<and> mg_id m = dv_message_id d) (topic_deliveries s)"
    by (simp add: delete_where_def)
  moreover have "delete_where (\<lambda>m. mg_id m \<in> ?I) (topic_messages s) = filter (\<lambda>m. \<not> ?gone m) (topic_messages s)"
    unfolding delete_where_def by (rule filter_cong) (simp_all add: exact)
  moreover have "count_where (\<lambda>m. mg_id m \<in> ?I) (topic_messages s) = count_where ?gone (topic_messages s)"
    unfolding count_where_def by (rule arg_cong [of _ _ "\<lambda>xs. int (length xs)"], rule filter_cong) (simp_all add: exact)
  ultimately show ?thesis unfolding purge_topic_eq [OF limit] Let_def by simp
qed

theorem purge_drops_consumed_witness:
  "purge_topic_messages id rev 9 10 topic_db = (topic_db\<lparr>topic_messages := [stored_message ''m2'']\<rparr>, Inr 1)"
proof -
  have ord: "iteration_order id" "iteration_order rev" by (simp_all add: iteration_order_def)
  have "3 * int (length (topic_messages topic_db)) < 10" by (simp add: topic_db_def)
  moreover have "cursor_done topic_db (stored_message ''m1'')" "\<not> cursor_done topic_db (stored_message ''m2'')"
    "\<not> lease_done topic_db (stored_message ''m2'')" "\<not> expired_message 9 (stored_message ''m2'')"
    by (simp_all add: cursor_done_def lease_done_def log_rows_def topic_db_def log_reader_def stored_message_def
        is_log_row_def mode_as_str_def pm_subs_def empty_db_def expired_message_def)
  moreover have "topic_messages topic_db = [stored_message ''m1'', stored_message ''m2'']" "topic_deliveries topic_db = []"
    by (simp_all add: topic_db_def empty_db_def)
  ultimately show ?thesis using purge_drops_consumed [OF topic_ok ord, of 10 9]
    by (simp add: Let_def count_where_def)
qed

end
