(* ===== verification/Pubsub_Delivery.thy ===== *)
theory Pubsub_Delivery
  imports Pubsub
begin

text \<open>
  What consumers and publishers of topics observe: a log reader receives every message in
  publication order, a lease keeps a message from being handed out twice, an ack is
  final, and a keyed publish delivers once to every subscription.
\<close>

section \<open>A log reader catches up\<close>

text \<open>
  A consumer of a log subscription reads a page, handles it, and acks the last message it
  holds. Before each round, publishers may append to the topic.
\<close>

type_synonym publication = "env \<times> bytes \<times> string option \<times> string option \<times> millis option"

definition publish_all :: "string \<Rightarrow> publication list \<Rightarrow> db \<Rightarrow> db" where
  "publish_all topic ps s =
     fold (\<lambda>(e, body, md, nts, expires) s. fst (publish_message e topic body md nts expires s)) ps s"

fun read_loop :: "string \<Rightarrow> string \<Rightarrow> int \<Rightarrow> publication list list \<Rightarrow> db \<Rightarrow> db \<times> topic_message list" where
  "read_loop topic name limit [] s = (s, [])"
| "read_loop topic name limit (ps # rounds) s =
     (let s0 = publish_all topic ps s;
          ms = read_topic_messages topic name limit s0;
          s1 = (if ms = [] then s0 else fst (ack_topic_cursor topic name (tm_id (last ms)) s0));
          (s2, rest) = read_loop topic name limit rounds s1
      in (s2, ms @ rest))"

definition unread :: "string \<Rightarrow> string option \<Rightarrow> db \<Rightarrow> topic_message_row list" where
  "unread topic c s = filter (\<lambda>m. mg_topic m = topic \<and> past_cursor c (mg_id m)) (topic_messages s)"

definition in_publish_order :: "string \<Rightarrow> db \<Rightarrow> bool" where
  "in_publish_order topic s \<longleftrightarrow>
     sorted_wrt (\<lambda>m m'. mg_id m < mg_id m') (filter (\<lambda>m. mg_topic m = topic) (topic_messages s))"

lemma publish_all_appends:
  "\<exists>ms. topic_messages (publish_all topic ps s) = topic_messages s @ ms"
  "topic_subscriptions (publish_all topic ps s) = topic_subscriptions s"
  "topic_deliveries (publish_all topic ps s) = topic_deliveries s"
proof -
  have "(\<exists>ms. topic_messages (publish_all topic ps s) = topic_messages s @ ms)
      \<and> topic_subscriptions (publish_all topic ps s) = topic_subscriptions s
      \<and> topic_deliveries (publish_all topic ps s) = topic_deliveries s"
  proof (induction ps arbitrary: s)
    case (Cons p ps)
    obtain e body md nts expires where p: "p = (e, body, md, nts, expires)" by (cases p) auto
    let ?s = "fst (publish_message e topic body md nts expires s)"
    have "(\<exists>ms. topic_messages ?s = topic_messages s @ ms) \<and> topic_subscriptions ?s = topic_subscriptions s
        \<and> topic_deliveries ?s = topic_deliveries s"
      by (simp add: publish_message_def Let_def)
    moreover have "publish_all topic (p # ps) s = publish_all topic ps ?s" by (simp add: publish_all_def p)
    ultimately show ?case using Cons.IH [of ?s] by auto
  qed (simp add: publish_all_def)
  then show "\<exists>ms. topic_messages (publish_all topic ps s) = topic_messages s @ ms"
    "topic_subscriptions (publish_all topic ps s) = topic_subscriptions s"
    "topic_deliveries (publish_all topic ps s) = topic_deliveries s" by blast+
qed

lemma sorted_unread: "in_publish_order topic s \<Longrightarrow> sorted_wrt (\<lambda>m m'. mg_id m < mg_id m') (unread topic c s)"
proof -
  assume "in_publish_order topic s"
  then have "sorted_wrt (\<lambda>m m'. mg_id m < mg_id m')
      (filter (\<lambda>m. past_cursor c (mg_id m)) (filter (\<lambda>m. mg_topic m = topic) (topic_messages s)))"
    unfolding in_publish_order_def by (rule sorted_wrt_filter)
  then show ?thesis by (simp add: unread_def conj_commute)
qed

lemma read_unread:
  assumes "in_publish_order topic s" and "find_log_subscription topic name s = Some b" and "0 < limit"
  shows "read_topic_messages topic name limit s = map message_of_row (take (nat limit) (unread topic (sb_cursor b) s))"
proof -
  have "sorted (map mg_id (unread topic (sb_cursor b) s))"
    using sorted_unread [OF assms(1)] by (simp add: sorted_map sorted_wrt_mono_rel [of _ "\<lambda>m m'. mg_id m < mg_id m'"] less_imp_le)
  then have "sort_key mg_id (unread topic (sb_cursor b) s) = unread topic (sb_cursor b) s" by (rule sort_key_id_if_sorted)
  then show ?thesis using assms by (simp add: read_topic_messages_def unread_def sql_limit_def)
qed

lemma filter_past_taken:
  assumes "sorted_wrt (\<lambda>x y. k x < (k y :: 'k::linorder)) xs" and "0 < n" and "xs \<noteq> []"
  shows "filter (\<lambda>x. k (last (take n xs)) < k x) xs = drop n xs"
proof -
  have split: "xs = take n xs @ drop n xs" and ne: "take n xs \<noteq> []" using assms(2,3) by auto
  have s: "sorted_wrt (\<lambda>x y. k x < k y) (take n xs)" "\<forall>x\<in>set (take n xs). \<forall>y\<in>set (drop n xs). k x < k y"
    using assms(1) split by (metis sorted_wrt_append)+
  have "x \<in> set ys \<Longrightarrow> sorted_wrt (\<lambda>x y. k x < k y) ys \<Longrightarrow> k x \<le> k (last ys)" for x ys
    by (cases ys rule: rev_cases) (auto simp: sorted_wrt_append intro: less_imp_le)
  then have "\<not> k (last (take n xs)) < k x" if "x \<in> set (take n xs)" for x using that s(1) by (metis not_less)
  moreover have "\<forall>y\<in>set (drop n xs). k (last (take n xs)) < k y" using s(2) last_in_set [OF ne] by blast
  ultimately have "filter (\<lambda>x. k (last (take n xs)) < k x) (take n xs @ drop n xs) = drop n xs"
    by (simp only: filter_append) (simp add: filter_empty_conv filter_id_conv)
  then show ?thesis using split by simp
qed


lemma ack_messages [simp]: "topic_messages (fst (ack_topic_cursor topic name i s)) = topic_messages s"
  by (simp add: ack_topic_cursor_def Let_def)

lemma ack_found:
  assumes f: "find_log_subscription topic name s = Some b" and c: "past_cursor (sb_cursor b) i"
  shows "find_log_subscription topic name (fst (ack_topic_cursor topic name i s)) = Some (b\<lparr>sb_cursor := Some i\<rparr>)"
proof -
  have "sb_topic b = topic \<and> sb_subscription_name b = name \<and> is_log_row b"
    using find_SomeD [OF f [unfolded find_log_subscription_def]] by simp
  then show ?thesis
    using f c unfolding find_log_subscription_def ack_topic_cursor_def Let_def
    by (simp add: find_update_where is_log_row_def past_cursor_def split: option.splits)
qed

lemma unread_after:
  assumes ord: "in_publish_order topic s'" and ms: "topic_messages s' = topic_messages s @ ms"
    and n: "0 < n" and ne: "unread topic c s \<noteq> []" and i: "i = mg_id (last (take n (unread topic c s)))"
  shows "unread topic c s' = take n (unread topic c s) @ unread topic (Some i) s'" and "past_cursor c i"
proof -
  let ?U = "unread topic c s" and ?X = "unread topic c s'" let ?k = "length (take n ?U)"
  have X: "?X = ?U @ filter (\<lambda>m. mg_topic m = topic \<and> past_cursor c (mg_id m)) ms" by (simp add: unread_def ms)
  then have k: "take ?k ?X = take n ?U" by (simp add: min_def)
  have "take n ?U \<noteq> []" using n ne by simp
  then have mem: "last (take n ?U) \<in> set ?U" using last_in_set in_set_takeD by metis
  then show past: "past_cursor c i" by (simp add: i unread_def)
  have "unread topic (Some i) s' = filter (\<lambda>m. i < mg_id m) ?X"
    using past unfolding unread_def filter_filter
    by (intro filter_cong) (auto simp: past_cursor_def split: option.splits)
  also have "\<dots> = drop ?k ?X"
    using filter_past_taken [OF sorted_unread [OF ord, of c], of ?k] n ne X k i by simp
  finally show "?X = take n ?U @ unread topic (Some i) s'" using k by (metis append_take_drop_id)
qed

lemma in_order_prefix:
  "in_publish_order topic s' \<Longrightarrow> topic_messages s' = topic_messages s @ ms \<Longrightarrow> in_publish_order topic s"
  by (simp add: in_publish_order_def sorted_wrt_append)

lemma read_loop_appends: "read_loop topic name limit rounds s = (s', out) \<Longrightarrow>
    \<exists>ms. topic_messages s' = topic_messages s @ ms"
proof (induction rounds arbitrary: s out)
  case (Cons ps rounds)
  obtain ms where ms: "topic_messages (publish_all topic ps s) = topic_messages s @ ms" using publish_all_appends(1) by blast
  with Cons.prems Cons.IH ms show ?case by (fastforce simp: Let_def split: prod.splits if_splits)
qed simp

lemma read_loop_split:
  "read_loop topic name limit rounds s = (s', out) \<Longrightarrow> find_log_subscription topic name s = Some b \<Longrightarrow>
   0 < limit \<Longrightarrow> in_publish_order topic s' \<Longrightarrow>
   \<exists>b'. find_log_subscription topic name s' = Some b'
     \<and> map message_of_row (unread topic (sb_cursor b) s') = out @ map message_of_row (unread topic (sb_cursor b') s')"
proof (induction rounds arbitrary: s b out)
  case (Cons ps rounds)
  let ?s0 = "publish_all topic ps s" let ?U = "unread topic (sb_cursor b) ?s0" let ?i = "mg_id (last (take (nat limit) ?U))"
  let ?ms = "map message_of_row (take (nat limit) ?U)"
  define s1 where "s1 = (if ?ms = [] then ?s0 else fst (ack_topic_cursor topic name ?i ?s0))"
  have f0: "find_log_subscription topic name ?s0 = Some b"
    using Cons.prems(2) by (simp add: find_log_subscription_def publish_all_appends(2))
  have tm: "topic_messages s1 = topic_messages ?s0" by (simp add: s1_def)
  have lst: "tm_id (last ?ms) = ?i" if "?ms \<noteq> []" using that by (simp add: last_map message_of_row_def)
  have ord0: "in_publish_order topic ?s0"
  proof -
    obtain s1' out' where "read_loop topic name limit rounds s1' = (s', out')" "topic_messages s1' = topic_messages ?s0"
      using Cons.prems(1) by (auto simp: Let_def ack_topic_cursor_def split: prod.splits if_splits)
    then obtain ms where "topic_messages s' = topic_messages ?s0 @ ms" using read_loop_appends by metis
    then show ?thesis by (rule in_order_prefix [OF Cons.prems(4)])
  qed
  have rd: "read_topic_messages topic name limit ?s0 = ?ms" by (rule read_unread [OF ord0 f0 Cons.prems(3)])
  obtain rest where loop: "read_loop topic name limit rounds s1 = (s', rest)" and out: "out = ?ms @ rest"
    using Cons.prems(1) rd lst by (auto simp: s1_def Let_def split: prod.splits if_splits)
  obtain ms' where ms': "topic_messages s' = topic_messages ?s0 @ ms'" using read_loop_appends [OF loop] tm by auto
  show ?case
  proof (cases "?U = []")
    case True
    then have "s1 = ?s0" by (simp add: s1_def)
    then show ?thesis using Cons.IH [OF loop _ Cons.prems(3,4), of b] f0 out True by simp
  next
    case False
    note after = unread_after [OF Cons.prems(4) ms' _ False refl, of "nat limit"]
    have "find_log_subscription topic name s1 = Some (b\<lparr>sb_cursor := Some ?i\<rparr>)"
      using False Cons.prems(3) ack_found [OF f0 after(2)] by (simp add: s1_def)
    note Cons.IH [OF loop this Cons.prems(3,4)]
    then show ?thesis using after(1) Cons.prems(3) out by auto
  qed
qed simp


lemma read_loop_append:
  "read_loop topic name limit (r1 @ r2) s =
     (case read_loop topic name limit r1 s of (s1, o1) \<Rightarrow>
        case read_loop topic name limit r2 s1 of (s2, o2) \<Rightarrow> (s2, o1 @ o2))"
  by (induction r1 arbitrary: s) (auto simp: Let_def split: prod.splits)

lemma read_loop_drains:
  "read_loop topic name limit (replicate k []) s = (s', out) \<Longrightarrow> find_log_subscription topic name s = Some b \<Longrightarrow>
   0 < limit \<Longrightarrow> in_publish_order topic s \<Longrightarrow>
   out = map message_of_row (take (k * nat limit) (unread topic (sb_cursor b) s))"
proof (induction k arbitrary: s b out)
  case (Suc k)
  let ?U = "unread topic (sb_cursor b) s" let ?i = "mg_id (last (take (nat limit) ?U))"
  have rd: "read_topic_messages topic name limit s = map message_of_row (take (nat limit) ?U)"
    by (rule read_unread [OF Suc.prems(4,2,3)])
  have s0: "publish_all topic [] s = s" by (simp add: publish_all_def)
  show ?case
  proof (cases "?U = []")
    case True
    then show ?thesis using Suc.prems rd s0 Suc.IH [of s _ b] by (auto simp: Let_def split: prod.splits)
  next
    case False
    let ?s1 = "fst (ack_topic_cursor topic name ?i s)"
    have lim: "0 < nat limit" using Suc.prems(3) by simp
    note after = unread_after [OF Suc.prems(4) _ lim False refl, of "[]", simplified]
    note ack = ack_found [OF Suc.prems(2) after(2)]
    have "unread topic (Some ?i) ?s1 = unread topic (Some ?i) s" by (simp add: unread_def)
    also have "\<dots> = drop (nat limit) ?U" using after(1) by (metis append_eq_conv_conj append_take_drop_id same_append_eq)
    finally have U1: "unread topic (Some ?i) ?s1 = drop (nat limit) ?U" .
    have ord1: "in_publish_order topic ?s1" using Suc.prems(4) by (simp add: in_publish_order_def)
    obtain rest where loop: "read_loop topic name limit (replicate k []) ?s1 = (s', rest)"
      and out: "out = map message_of_row (take (nat limit) ?U) @ rest"
      using Suc.prems(1) rd s0 False lim
      by (auto simp: Let_def last_map message_of_row_def split: prod.splits if_splits)
    have "rest = map message_of_row (take (k * nat limit) (drop (nat limit) ?U))"
      using Suc.IH [OF loop ack Suc.prems(3) ord1] U1 by simp
    then show ?thesis using out by (simp add: take_add)
  qed
qed simp

text \<open>
  C32. A log consumer catches up. Whatever publishers append before and between its reads,
  as long as ids grow with publication, the consumer that reads a page and acks its last
  message receives the unread messages in publication order, none skipped and none twice;
  once the publishers pause for enough rounds it has received every one of them and the
  next read is empty.
\<close>

theorem log_reader_catches_up:
  assumes "find_log_subscription topic name s = Some b" and "0 < limit"
    and "read_loop topic name limit (rounds @ replicate k []) s = (s', out)"
    and "in_publish_order topic s'"
    and "length (unread topic (sb_cursor b) s') \<le> k * nat limit"
  shows "out = map message_of_row (unread topic (sb_cursor b) s') \<and> read_topic_messages topic name limit s' = []"
proof -
  obtain s1 o1 o2 where r1: "read_loop topic name limit rounds s = (s1, o1)"
    and r2: "read_loop topic name limit (replicate k []) s1 = (s', o2)" and out: "out = o1 @ o2"
    using assms(3) by (auto simp: read_loop_append split: prod.splits)
  obtain ms where ms: "topic_messages s' = topic_messages s1 @ ms" using read_loop_appends [OF r2] by blast
  have "topic_messages s' = topic_messages s1"
    using r2 by (induction k arbitrary: s1 o2)
      (auto simp: Let_def publish_all_def ack_topic_cursor_def split: prod.splits if_splits)
  then have same: "unread topic c s' = unread topic c s1" for c by (simp add: unread_def)
  have ord1: "in_publish_order topic s1" by (rule in_order_prefix [OF assms(4) ms])
  obtain b1 where b1: "find_log_subscription topic name s1 = Some b1"
    and u1: "map message_of_row (unread topic (sb_cursor b) s1) = o1 @ map message_of_row (unread topic (sb_cursor b1) s1)"
    using read_loop_split [OF r1 assms(1,2) ord1] by blast
  have "length (unread topic (sb_cursor b1) s1) \<le> k * nat limit"
    using assms(5) arg_cong [OF u1, of length] same [of "sb_cursor b"] by simp
  then have o2: "o2 = map message_of_row (unread topic (sb_cursor b1) s1)"
    using read_loop_drains [OF r2 b1 assms(2) ord1] by simp
  obtain b' where b': "find_log_subscription topic name s' = Some b'"
    and u': "map message_of_row (unread topic (sb_cursor b) s') = out @ map message_of_row (unread topic (sb_cursor b') s')"
    using read_loop_split [OF assms(3,1,2,4)] by blast
  have "out = map message_of_row (unread topic (sb_cursor b) s')" using out o2 u1 same by simp
  moreover from this u' have "unread topic (sb_cursor b') s' = []" by simp
  ultimately show ?thesis using read_unread [OF assms(4) b' assms(2)] by simp
qed

theorem log_reader_catches_up_witness:
  "\<exists>s' out. read_loop ''t'' ''r'' 1 ([[(plain_env 5, [8], None, None, None)]] @ replicate 2 []) topic_db = (s', out)
    \<and> map tm_id out = [''m2'', ''u'']"
proof -
  let ?b = "log_reader ''r'' (Some ''m1'')"
  obtain s' out where loop: "read_loop ''t'' ''r'' 1 ([[(plain_env 5, [8], None, None, None)]] @ replicate 2 []) topic_db = (s', out)"
    by (metis surj_pair)
  have f: "find_log_subscription ''t'' ''r'' topic_db = Some ?b"
    by (simp add: find_log_subscription_def topic_db_def log_reader_def is_log_row_def mode_as_str_def)
  have "map mg_id (topic_messages s') = [''m1'', ''m2'', ''u''] \<and> (\<forall>m\<in>set (topic_messages s'). mg_topic m = ''t'')"
    using loop by (auto simp: Let_def publish_all_def publish_message_def ack_topic_cursor_def topic_db_def
        stored_message_def numeral_2_eq_2 split: prod.splits if_splits)
  then obtain x y z where tm: "topic_messages s' = [x, y, z]" "mg_id x = ''m1''" "mg_id y = ''m2''" "mg_id z = ''u''"
    "mg_topic x = ''t''" "mg_topic y = ''t''" "mg_topic z = ''t''" by auto
  have "in_publish_order ''t'' s'" by (simp add: in_publish_order_def tm)
  moreover have u: "unread ''t'' (sb_cursor ?b) s' = [y, z]" by (simp add: unread_def tm past_cursor_def log_reader_def)
  ultimately have "out = map message_of_row [y, z]"
    using log_reader_catches_up [OF f _ loop] by simp
  then show ?thesis using loop tm by (simp add: message_of_row_def)
qed


section \<open>Leases\<close>

text \<open>
  What other clients may interleave: whole calls, and \<open>RecordLeases\<close>, the writes of a lease whose
  window was read at any earlier time.
\<close>

datatype topic_call =
    Lease string string int millis millis
  | RecordLeases string string millis millis "topic_message_row list"
  | AckMessage string string string
  | NackMessage string string string
  | AckCursor string string string
  | Publish env string bytes "string option" "string option" "millis option"
  | Sweep "string list \<Rightarrow> string list" "string list \<Rightarrow> string list" millis int
  | Register new_subscription
  | Unsubscribe string string
  | SetActive string string bool
  | Reap env "string list"

fun topic_step :: "topic_call \<Rightarrow> db \<Rightarrow> db" where
  "topic_step (Lease t n limit vis now) s = fst (lease_topic_messages t n limit vis now s)"
| "topic_step (RecordLeases t n now until rows) s = record_leases t n now until rows s"
| "topic_step (AckMessage t n i) s = fst (ack_message t n i s)"
| "topic_step (NackMessage t n i) s = fst (nack_message t n i s)"
| "topic_step (AckCursor t n c) s = fst (ack_topic_cursor t n c s)"
| "topic_step (Publish e t body md nts ex) s = fst (publish_message e t body md nts ex s)"
| "topic_step (Sweep ord ord' now limit) s = fst (purge_topic_messages ord ord' now limit s)"
| "topic_step (Register sub) s = fst (register_subscription sub s)"
| "topic_step (Unsubscribe t n) s = fst (unsubscribe t n s)"
| "topic_step (SetActive t n a) s = fst (set_subscription_active t n a s)"
| "topic_step (Reap e live) s = fst (reap_ephemeral_subscriptions e live s)"

lemmas topic_calls_keep = lease_keeps record_leases_keeps ack_message_keeps nack_message_keeps ack_cursor_keeps publish_message_keeps
  purge_topic_keeps register_subscription_keeps unsubscribe_keeps set_active_keeps reap_ephemeral_keeps

lemma topic_step_keeps: "db_ok s \<Longrightarrow> db_ok (topic_step c s)"
  by (cases c) (simp_all add: topic_calls_keep)

text \<open>
  A message is held back from a subscription until a time, or for good, while its delivery
  row says so; a message the sweep has dropped stays away as well.
\<close>

definition held_row :: "millis option \<Rightarrow> delivery_row \<Rightarrow> bool" where
  "held_row lim d \<longleftrightarrow> dv_acked d \<or> (case lim of None \<Rightarrow> False | Some u \<Rightarrow> u \<le> dv_lease_expires_at d)"

definition held :: "string \<times> string \<times> string \<Rightarrow> millis option \<Rightarrow> db \<Rightarrow> bool" where
  "held key lim s \<longleftrightarrow> (\<exists>d\<in>set (topic_deliveries s). dv_key d = key \<and> held_row lim d)
     \<or> (\<forall>m\<in>set (topic_messages s). mg_id m \<noteq> snd (snd key))"

text \<open>
  The calls that leave the hold alone: no lease of the subscription runs after the deadline, a lease
  recorded late over the same message does not end before it, nobody nacks the message while it
  is leased, and ids are not used twice.
\<close>

fun quiet :: "string \<times> string \<times> string \<Rightarrow> millis option \<Rightarrow> topic_call \<Rightarrow> bool" where
  "quiet (topic, name, i) lim (Lease t n limit vis now) \<longleftrightarrow>
     (t = topic \<longrightarrow> n = name \<longrightarrow> (case lim of None \<Rightarrow> True | Some u \<Rightarrow> now < u))"
| "quiet (topic, name, i) lim (RecordLeases t n now until rows) \<longleftrightarrow>
     (t = topic \<longrightarrow> n = name \<longrightarrow> i \<in> mg_id ` set rows \<longrightarrow> (case lim of None \<Rightarrow> False | Some u \<Rightarrow> u \<le> until))"
| "quiet key lim (NackMessage t n i) \<longleftrightarrow> lim = None \<or> (t, n, i) \<noteq> key"
| "quiet (topic, name, i) lim (Publish e t body md nts ex) \<longleftrightarrow> uuid e 0 \<noteq> i"
| "quiet key lim c \<longleftrightarrow> True"

lemma in_upsert_other: "d \<in> set t \<Longrightarrow> key d \<noteq> key row \<Longrightarrow> d \<in> set (upsert key row upd t)"
  by (auto simp: upsert_def in_update_where)

lemma in_fold_lease_other:
  "d \<in> set t \<Longrightarrow> \<forall>m\<in>set rows. dv_key d \<noteq> (topic, name, mg_id m) \<Longrightarrow>
     d \<in> set (fold (\<lambda>m. upsert dv_key (lease_row topic name now until m) (lease_again now until)) rows t)"
proof (induction rows arbitrary: t)
  case (Cons m rows)
  have "d \<in> set (upsert dv_key (lease_row topic name now until m) (lease_again now until) t)"
    using Cons.prems by (intro in_upsert_other) (auto simp: lease_row_def)
  then show ?case using Cons by simp
qed simp

lemma lease_marks:
  "(\<exists>d\<in>set t. dv_key d = key \<and> \<not> dv_acked d \<and> dv_lease_expires_at d = until) \<or> key \<in> (\<lambda>m. (topic, name, mg_id m)) ` set rows \<Longrightarrow>
   \<exists>d\<in>set (fold (\<lambda>m. upsert dv_key (lease_row topic name now until m) (lease_again now until)) rows t).
     dv_key d = key \<and> \<not> dv_acked d \<and> dv_lease_expires_at d = until"
proof (induction rows arbitrary: t)
  case (Cons m rows)
  let ?t = "upsert dv_key (lease_row topic name now until m) (lease_again now until) t"
  let ?row = "lease_row topic name now until m"
  have "find (\<lambda>x. dv_key x = dv_key ?row) ?t
      = Some (case find (\<lambda>x. dv_key x = dv_key ?row) t of None \<Rightarrow> ?row | Some x \<Rightarrow> lease_again now until x)"
    by (rule find_upsert) (simp add: lease_again_def)
  from find_SomeD [OF this] have "\<exists>d\<in>set ?t. dv_key d = (topic, name, mg_id m) \<and> \<not> dv_acked d \<and> dv_lease_expires_at d = until"
    by (rule rev_bexI [OF conjunct1]) (auto simp: lease_row_def lease_again_def split: option.splits dest!: find_SomeD)
  moreover have "\<exists>d\<in>set ?t. dv_key d = key \<and> \<not> dv_acked d \<and> dv_lease_expires_at d = until"
    if "key \<noteq> (topic, name, mg_id m)" "d \<in> set t" "dv_key d = key" "\<not> dv_acked d" "dv_lease_expires_at d = until" for d
    using that in_upsert_other [of d t dv_key "lease_row topic name now until m"] by (auto simp: lease_row_def)
  ultimately have "(\<exists>d\<in>set ?t. dv_key d = key \<and> \<not> dv_acked d \<and> dv_lease_expires_at d = until)
      \<or> key \<in> (\<lambda>m. (topic, name, mg_id m)) ` set rows"
    using Cons.prems by (cases "key = (topic, name, mg_id m)") auto
  then show ?case using Cons.IH by simp
qed auto

lemma availableD:
  assumes "m \<in> set (available_messages topic name now s)"
  shows "m \<in> set (topic_messages s)" and "mg_topic m = topic"
    and "filter (\<lambda>d. dv_key d = (topic, name, mg_id m)) (topic_deliveries s) = ds \<Longrightarrow>
      ds = [] \<or> (\<exists>d\<in>set ds. \<not> dv_acked d \<and> dv_lease_expires_at d \<le> now)"
proof -
  obtain m' where m': "m' \<in> set (topic_messages s)" "mg_topic m' = topic"
    "m \<in> set (let ds = filter (\<lambda>d. dv_key d = (topic, name, mg_id m')) (topic_deliveries s)
        in if ds = [] then [m'] else map (\<lambda>_. m') (filter (\<lambda>d. \<not> dv_acked d \<and> dv_lease_expires_at d \<le> now) ds))"
    using assms unfolding available_messages_def by auto
  then have "m = m'" by (auto simp: Let_def split: if_splits)
  then show "m \<in> set (topic_messages s)" "mg_topic m = topic"
    "filter (\<lambda>d. dv_key d = (topic, name, mg_id m)) (topic_deliveries s) = ds \<Longrightarrow>
      ds = [] \<or> (\<exists>d\<in>set ds. \<not> dv_acked d \<and> dv_lease_expires_at d \<le> now)"
    using m' by (auto simp: Let_def split: if_splits)
qed

lemma availableI:
  assumes "m \<in> set (topic_messages s)" and "mg_topic m = topic"
    and "filter (\<lambda>d. dv_key d = (topic, name, mg_id m)) (topic_deliveries s) = [d]"
    and "\<not> dv_acked d" and "dv_lease_expires_at d \<le> now"
  shows "m \<in> set (available_messages topic name now s)"
proof -
  let ?f = "\<lambda>m. let ds = filter (\<lambda>d. dv_key d = (topic, name, mg_id m)) (topic_deliveries s)
    in if ds = [] then [m] else map (\<lambda>_. m) (filter (\<lambda>d. \<not> dv_acked d \<and> dv_lease_expires_at d \<le> now) ds)"
  show ?thesis unfolding available_messages_def set_concat set_map
  proof (rule UN_I)
    show "?f m \<in> ?f ` set (filter (\<lambda>m. mg_topic m = topic) (topic_messages s))" by (rule imageI) (simp add: assms)
    show "m \<in> set (?f m)" unfolding Let_def assms(3) using assms(4,5) by simp
  qed
qed

lemma held_unavailable:
  assumes ok: "db_ok s" and h: "held (topic, name, i) lim s"
    and now: "case lim of None \<Rightarrow> True | Some u \<Rightarrow> now < u" and m: "m \<in> set (available_messages topic name now s)"
  shows "mg_id m \<noteq> i"
proof
  assume i: "mg_id m = i"
  obtain d where d: "d \<in> set (topic_deliveries s)" "dv_key d = (topic, name, i)" "held_row lim d"
    using h i availableD(1) [OF m] by (auto simp: held_def)
  have "filter (\<lambda>x. dv_key x = dv_key d) (topic_deliveries s) = [d]"
    by (rule filter_key_single [OF db_ok_registryD(7) [OF ok] d(1)])
  then have "\<not> dv_acked d \<and> dv_lease_expires_at d \<le> now" using availableD(3) [OF m, of "[d]"] d(2) i by simp
  then show False using d(3) now by (cases lim) (auto simp: held_row_def)
qed


lemma lease_rows_of:
  assumes "m \<in> set (lease_window topic name limit now s)"
  shows "m \<in> set (available_messages topic name now s)"
  using in_sql_limit [OF assms [unfolded lease_window_def]] by simp

lemma held_update_where:
  assumes "held key lim s" and "\<And>d. dv_key (f d) = dv_key d"
    and "\<And>d. dv_key d = key \<Longrightarrow> p d \<Longrightarrow> held_row lim d \<Longrightarrow> held_row lim (f d)"
  shows "held key lim (s\<lparr>topic_deliveries := update_where p f (topic_deliveries s)\<rparr>)"
proof -
  have "\<exists>d'\<in>set (update_where p f (topic_deliveries s)). dv_key d' = key \<and> held_row lim d'"
    if "d \<in> set (topic_deliveries s)" "dv_key d = key" "held_row lim d" for d
  proof (rule bexI [of _ "if p d then f d else d"])
    show "dv_key (if p d then f d else d) = key \<and> held_row lim (if p d then f d else d)" using that assms(2,3) [of d] by simp
    show "(if p d then f d else d) \<in> set (update_where p f (topic_deliveries s))"
      unfolding update_where_def using that(1) by (auto intro: rev_image_eqI)
  qed
  then show ?thesis using assms(1) by (auto simp: held_def)
qed

text \<open>A recorded lease is not acked, whatever was recorded before.\<close>

lemma record_leases_unacked:
  assumes "m \<in> set rows"
  shows "\<exists>d\<in>set (topic_deliveries (record_leases topic name now until rows s)).
    dv_key d = (topic, name, mg_id m) \<and> \<not> dv_acked d \<and> dv_lease_expires_at d = until"
  using lease_marks [of "topic_deliveries s" "(topic, name, mg_id m)" until topic name rows now] assms
  by (simp add: record_leases_def)

lemma record_leases_held:
  assumes h: "held (topic, name, i) lim s"
    and late: "t = topic \<Longrightarrow> n = name \<Longrightarrow> i \<in> mg_id ` set rows \<Longrightarrow> (case lim of None \<Rightarrow> False | Some u \<Rightarrow> u \<le> until)"
  shows "held (topic, name, i) lim (record_leases t n now until rows s)"
proof (cases "t = topic \<and> n = name \<and> i \<in> mg_id ` set rows")
  case True
  then obtain m where "m \<in> set rows" "mg_id m = i" by auto
  with record_leases_unacked [of m rows t n now until s] True
  obtain d where "d \<in> set (topic_deliveries (record_leases t n now until rows s))" "dv_key d = (topic, name, i)"
    "dv_lease_expires_at d = until" by auto
  moreover have "held_row lim d" using late True calculation(3) by (cases lim) (auto simp: held_row_def)
  ultimately show ?thesis unfolding held_def by blast
next
  case False
  then have other: "\<forall>m\<in>set rows. (topic, name, i) \<noteq> (t, n, mg_id m)" by auto
  show ?thesis
  proof (cases "\<forall>m\<in>set (topic_messages s). mg_id m \<noteq> i")
    case False
    then obtain d where d: "d \<in> set (topic_deliveries s)" "dv_key d = (topic, name, i)" "held_row lim d"
      using h unfolding held_def snd_conv by blast
    then have "d \<in> set (topic_deliveries (record_leases t n now until rows s))"
      using in_fold_lease_other [OF d(1), of rows t n now until] other unfolding record_leases_def by simp
    then show ?thesis unfolding held_def using d(2,3) by blast
  qed (simp add: held_def record_leases_def)
qed

lemma topic_step_held:
  assumes ok: "db_ok s" and h: "held (topic, name, i) lim s" and q: "quiet (topic, name, i) lim c"
  shows "held (topic, name, i) lim (topic_step c s)"
proof (cases c)
  case (Lease t n limit vis now)
  have "i \<notin> mg_id ` set (lease_window t n limit now s)" if "t = topic" "n = name"
    using held_unavailable [OF ok h] lease_rows_of [of _ t n limit now s] q Lease that by (auto split: option.splits)
  then have "held (topic, name, i) lim (record_leases t n now (wrap_i64 (now + vis)) (lease_window t n limit now s) s)"
    by (intro record_leases_held [OF h]) simp
  then show ?thesis using h Lease by (simp add: lease_topic_messages_def Let_def)
next
  case (RecordLeases t n now until rows)
  then show ?thesis using q by (auto intro: record_leases_held [OF h])
next
  case (AckMessage t n j)
  then show ?thesis using held_update_where [OF h] by (simp add: ack_message_def Let_def held_row_def)
next
  case (NackMessage t n j)
  then show ?thesis using held_update_where [OF h] q
    by (auto simp: nack_message_def Let_def held_row_def split: option.splits)
next
  case (Publish e t body md nts ex)
  then show ?thesis using h q by (auto simp: publish_message_def Let_def held_def)
next
  case (Sweep ord ord' now limit)
  then show ?thesis using h
    by (auto simp: purge_topic_messages_def Let_def held_def delete_where_def)
qed (use h in \<open>simp_all add: held_def ack_topic_cursor_def register_subscription_def unsubscribe_def
  set_subscription_active_def reap_ephemeral_subscriptions_def Let_def\<close>)

lemma topic_steps_held:
  "db_ok s \<Longrightarrow> held (topic, name, i) lim s \<Longrightarrow> \<forall>c\<in>set cs. quiet (topic, name, i) lim c \<Longrightarrow>
     db_ok (fold topic_step cs s) \<and> held (topic, name, i) lim (fold topic_step cs s)"
  by (induction cs arbitrary: s) (simp_all add: topic_step_keeps topic_step_held)

lemma lease_answers: "\<exists>s' ms. lease_topic_messages topic name limit vis now s = (s', Inr ms)"
  by (simp add: lease_topic_messages_def Let_def)

lemma window_not_held:
  assumes "db_ok s" and "held (topic, name, i) lim s" and "case lim of None \<Rightarrow> True | Some u \<Rightarrow> now < u"
  shows "i \<notin> mg_id ` set (lease_window topic name limit now s)"
  using held_unavailable [OF assms] lease_rows_of [of _ topic name limit now s] by auto

lemma lease_not_held:
  assumes "db_ok s" and "held (topic, name, i) lim s" and "case lim of None \<Rightarrow> True | Some u \<Rightarrow> now < u"
    and "lease_topic_messages topic name limit vis now s = (s', Inr ms)"
  shows "i \<notin> tm_id ` set ms"
  using assms(4) window_not_held [OF assms(1-3), of limit]
  by (auto simp: lease_topic_messages_def Let_def message_of_row_def split: if_splits)

lemma record_leases_holds:
  assumes "m \<in> set rows" and "in_i64 (now + vis)"
  shows "held (topic, name, mg_id m) (Some (now + vis)) (record_leases topic name now (wrap_i64 (now + vis)) rows s)"
  using record_leases_unacked [OF assms(1), of topic name now "now + vis" s] assms(2)
  by (fastforce simp: held_def held_row_def)

text \<open>
  C34. A recorded lease excludes redelivery. Once a lease has written its delivery rows, whenever its
  window was read, and until it runs out, no later read of the window hands the message out to
  the subscription again, whatever calls of other clients come in between, sweeps, acks and
  leases that were already under way included; so no lease call that starts in that time answers
  it. Excepted are a nack by the holder, and an overlapping lease that read its window before and
  asks for a deadline that ends earlier.
\<close>

theorem lease_excludes_redelivery:
  assumes "db_ok s" and "x \<in> set (lease_window topic name limit now s0)" and "in_i64 (now + vis)"
    and "s1 = record_leases topic name now (wrap_i64 (now + vis)) (lease_window topic name limit now s0) s"
    and "\<forall>c\<in>set cs. quiet (topic, name, mg_id x) (Some (now + vis)) c" and "now' < now + vis"
  shows "mg_id x \<notin> mg_id ` set (lease_window topic name limit' now' (fold topic_step cs s1))
    \<and> (\<forall>s2 ms. lease_topic_messages topic name limit' vis' now' (fold topic_step cs s1) = (s2, Inr ms) \<longrightarrow>
         mg_id x \<notin> tm_id ` set ms)"
proof -
  have "db_ok s1" unfolding assms(4) by (rule record_leases_keeps [OF assms(1)])
  moreover have "held (topic, name, mg_id x) (Some (now + vis)) s1"
    unfolding assms(4) by (rule record_leases_holds [OF assms(2,3)])
  ultimately have later: "db_ok (fold topic_step cs s1)"
    "held (topic, name, mg_id x) (Some (now + vis)) (fold topic_step cs s1)"
    using topic_steps_held assms(5) by blast+
  show ?thesis
    using window_not_held [OF later, of now' limit'] lease_not_held [OF later, of now' limit' vis'] assms(6) by auto
qed

lemma topic_leased:
  "\<exists>s1. lease_topic_messages ''t'' ''r'' 1 20 10 topic_db = (s1, Inr [message_of_row (stored_message ''m1'')])
    \<and> topic_deliveries s1 = [lease_row ''t'' ''r'' 10 30 (stored_message ''m1'')]"
  by (simp add: lease_topic_messages_def lease_window_def record_leases_def topic_db_def find_log_subscription_def log_reader_def is_log_row_def Let_def
      mode_as_str_def available_messages_def stored_message_def empty_db_def sql_limit_def upsert_def i64_defs)

theorem lease_excludes_redelivery_witness:
  "\<exists>s1 s2 ms ms'. lease_topic_messages ''t'' ''r'' 1 20 10 topic_db = (s1, Inr ms) \<and> map tm_id ms = [''m1'']
    \<and> lease_topic_messages ''t'' ''r'' 5 20 29 (fold topic_step [Sweep id id 12 9,
         RecordLeases ''t'' ''r'' 11 31 [stored_message ''m1''], Lease ''t'' ''r'' 1 20 15] s1) = (s2, Inr ms')
    \<and> ''m1'' \<notin> tm_id ` set ms'"
proof -
  let ?cs = "[Sweep id id 12 9, RecordLeases ''t'' ''r'' 11 31 [stored_message ''m1''], Lease ''t'' ''r'' 1 20 15]"
  let ?w = "lease_window ''t'' ''r'' 1 10 topic_db"
  have w: "?w = [stored_message ''m1'']"
    by (simp add: lease_window_def topic_db_def available_messages_def stored_message_def empty_db_def sql_limit_def)
  have sub: "find_log_subscription ''t'' ''r'' topic_db \<noteq> None"
    by (simp add: topic_db_def find_log_subscription_def log_reader_def is_log_row_def mode_as_str_def)
  have i: "mg_id (stored_message ''m1'') = ''m1''" by (simp add: stored_message_def)
  define s1 where "s1 = record_leases ''t'' ''r'' 10 (wrap_i64 (10 + 20)) ?w topic_db"
  have l: "lease_topic_messages ''t'' ''r'' 1 20 10 topic_db = (s1, Inr [message_of_row (stored_message ''m1'')])"
    using sub unfolding s1_def w by (simp add: lease_topic_messages_def w Let_def)
  obtain s2 ms' where l2: "lease_topic_messages ''t'' ''r'' 5 20 29 (fold topic_step ?cs s1) = (s2, Inr ms')"
    using lease_answers [of "''t''" "''r''" 5 20 29 "fold topic_step ?cs s1"] by blast
  have "''m1'' \<notin> tm_id ` set ms'"
    using lease_excludes_redelivery [OF topic_ok _ _ s1_def, of "stored_message ''m1''" ?cs 29 5 20] l2
    by (simp add: w i i64_defs)
  then show ?thesis using l l2 i by (auto simp: message_of_row_def)
qed

text \<open>
  C11. Two leases that overlap share a message. When a second lease of the subscription reads its
  window before the first has written, both hand the message out; and when the first consumer
  acks before the second lease writes, that write takes the ack back: the ack was accepted, yet
  the message is available again once the second lease has run out.
\<close>

theorem overlapping_leases_lose_ack:
  assumes "db_ok s" and "x \<in> set (lease_window topic name limit now s)" and "x \<in> set (lease_window topic name limit' now' s)"
    and "s1 = record_leases topic name now (wrap_i64 (now + vis)) (lease_window topic name limit now s) s"
    and "ack_message topic name (mg_id x) s1 = (s2, r)"
    and "s3 = record_leases topic name now' (wrap_i64 (now' + vis')) (lease_window topic name limit' now' s) s2"
    and "in_i64 (now' + vis')" and "now' + vis' \<le> now''"
  shows "r = Inr True \<and> x \<in> set (available_messages topic name now'' s3)"
proof -
  let ?key = "(topic, name, mg_id x)"
  note m = availableD(1,2) [OF lease_rows_of [OF assms(2)]]
  obtain d where "d \<in> set (topic_deliveries s1)" "dv_key d = ?key" "\<not> dv_acked d"
    using record_leases_unacked [OF assms(2)] unfolding assms(4) by blast
  then have "r = Inr True" using assms(5)
    by (auto simp: ack_message_def Let_def count_where_def filter_empty_conv)
  moreover have ok1: "db_ok s1" unfolding assms(4) by (rule record_leases_keeps [OF assms(1)])
  have ok2: "db_ok s2" using ack_message_keeps [OF ok1, of topic name "mg_id x"] assms(5) by simp
  have ok3: "db_ok s3" unfolding assms(6) by (rule record_leases_keeps [OF ok2])
  obtain d3 where d3: "d3 \<in> set (topic_deliveries s3)" "dv_key d3 = ?key" "\<not> dv_acked d3" "dv_lease_expires_at d3 = now' + vis'"
    using record_leases_unacked [OF assms(3)] assms(7) unfolding assms(6) by fastforce
  have one: "filter (\<lambda>y. dv_key y = ?key) (topic_deliveries s3) = [d3]"
    using filter_key_single [OF db_ok_registryD(7) [OF ok3] d3(1)] d3(2) by simp
  have "topic_messages s3 = topic_messages s"
    using assms(5) by (auto simp: assms(4,6) record_leases_def ack_message_def Let_def)
  then have "x \<in> set (available_messages topic name now'' s3)"
    using availableI [OF _ m(2) one d3(3)] m(1) d3(4) assms(8) by simp
  ultimately show ?thesis by simp
qed

theorem overlapping_leases_lose_ack_witness:
  "let w = lease_window ''t'' ''r'' 1 10 topic_db;
       s1 = record_leases ''t'' ''r'' 10 30 w topic_db;
       s2 = fst (ack_message ''t'' ''r'' ''m1'' s1);
       s3 = record_leases ''t'' ''r'' 10 30 w s2
   in map mg_id w = [''m1''] \<and> snd (ack_message ''t'' ''r'' ''m1'' s1) = Inr True
      \<and> stored_message ''m1'' \<in> set (available_messages ''t'' ''r'' 30 s3)"
proof -
  let ?w = "lease_window ''t'' ''r'' 1 10 topic_db"
  let ?s1 = "record_leases ''t'' ''r'' 10 30 ?w topic_db"
  have w: "?w = [stored_message ''m1'']"
    by (simp add: lease_window_def topic_db_def available_messages_def stored_message_def empty_db_def sql_limit_def)
  have i: "mg_id (stored_message ''m1'') = ''m1''" by (simp add: stored_message_def)
  obtain s2 r where a: "ack_message ''t'' ''r'' ''m1'' ?s1 = (s2, r)" by fastforce
  have "r = Inr True \<and> stored_message ''m1'' \<in> set (available_messages ''t'' ''r'' 30 (record_leases ''t'' ''r'' 10 30 ?w s2))"
    using overlapping_leases_lose_ack [OF topic_ok, of "stored_message ''m1''" "''t''" "''r''" 1 10 1 10 ?s1 20 s2 r _ 20 30] a
    by (simp add: w i i64_defs)
  then show ?thesis using a w i by (simp add: Let_def)
qed

text \<open>
  An ack is final as long as no lease overlaps it. Once a subscription has acked a message, no
  lease that starts later hands that message out again, after any calls by anyone, nacks
  included, except the late writes of a lease that read its window before.
\<close>

theorem ack_is_final:
  assumes "db_ok s" and "ack_message topic name i s = (s1, Inr True)"
    and "\<forall>c\<in>set cs. quiet (topic, name, i) None c"
    and "lease_topic_messages topic name limit vis now (fold topic_step cs s1) = (s2, Inr ms)"
  shows "i \<notin> tm_id ` set ms"
proof -
  have ok: "db_ok s1" using ack_message_keeps [OF assms(1), of topic name i] assms(2) by simp
  let ?p = "\<lambda>d. dv_key d = (topic, name, i) \<and> \<not> dv_acked d"
  have s1: "topic_deliveries s1 = update_where ?p (\<lambda>d. d\<lparr>dv_acked := True\<rparr>) (topic_deliveries s)"
    and "filter ?p (topic_deliveries s) \<noteq> []"
    using assms(2) by (simp_all add: ack_message_def Let_def count_where_def) auto
  then obtain d where d: "d \<in> set (topic_deliveries s)" "?p d" unfolding filter_empty_conv by blast
  have "d\<lparr>dv_acked := True\<rparr> \<in> set (topic_deliveries s1)"
    unfolding s1 set_update_where mem_Collect_eq by (rule bexI [OF _ d(1)]) (simp add: d(2))
  moreover have "dv_key (d\<lparr>dv_acked := True\<rparr>) = (topic, name, i) \<and> held_row None (d\<lparr>dv_acked := True\<rparr>)"
    using d(2) by (simp add: held_row_def)
  ultimately have "held (topic, name, i) None s1" unfolding held_def by blast
  note later = topic_steps_held [OF ok this assms(3)]
  show ?thesis by (rule lease_not_held [OF conjunct1 [OF later] conjunct2 [OF later] _ assms(4)]) simp
qed


theorem ack_is_final_witness:
  "\<exists>s0 s1 s2 ms. lease_topic_messages ''t'' ''r'' 1 20 10 topic_db = (s0, Inr [message_of_row (stored_message ''m1'')])
    \<and> ack_message ''t'' ''r'' ''m1'' s0 = (s1, Inr True)
    \<and> lease_topic_messages ''t'' ''r'' 5 20 99 (fold topic_step [NackMessage ''t'' ''r'' ''m1''] s1) = (s2, Inr ms)
    \<and> ''m1'' \<notin> tm_id ` set ms"
proof -
  obtain s0 where l: "lease_topic_messages ''t'' ''r'' 1 20 10 topic_db = (s0, Inr [message_of_row (stored_message ''m1'')])"
    and s0: "topic_deliveries s0 = [lease_row ''t'' ''r'' 10 30 (stored_message ''m1'')]"
    using topic_leased by blast
  have ok: "db_ok s0" using lease_keeps [OF topic_ok, of "''t''" "''r''" 1 20 10] l by simp
  obtain s1 where a: "ack_message ''t'' ''r'' ''m1'' s0 = (s1, Inr True)"
    by (simp add: ack_message_def s0 lease_row_def stored_message_def count_where_def)
  obtain s2 ms where l2: "lease_topic_messages ''t'' ''r'' 5 20 99 (fold topic_step [NackMessage ''t'' ''r'' ''m1''] s1) = (s2, Inr ms)"
    using lease_answers [of "''t''" "''r''" 5 20 99 "fold topic_step [NackMessage ''t'' ''r'' ''m1''] s1"] by blast
  show ?thesis using l a l2 ack_is_final [OF ok a _ l2] by auto
qed


section \<open>Keyed publishes\<close>

lemma split_at_char:
  "c \<notin> set a \<Longrightarrow> c \<notin> set b \<Longrightarrow> a @ c # x = b @ c # y \<longleftrightarrow> a = b \<and> x = y"
proof (induction a arbitrary: b)
  case Nil
  then show ?case by (cases b) auto
next
  case (Cons d a)
  then show ?case by (cases b) auto
qed

lemma salted_key_eq:
  assumes "salted_unique_key key t n = salted_unique_key key t' n'"
  shows "t = t' \<and> n = n'"
proof -
  have colon: "CHR '':'' \<notin> set (show_nat k)" for k by (rule show_nat_no_sign) (simp add: is_digit_def)
  have "length t = length t' \<and> length n = length n' \<and> t @ n = t' @ n'"
    using assms by (simp add: salted_unique_key_def split_at_char [OF colon colon] show_nat_inj)
  then show ?thesis using append_eq_append_conv [of t t' n n'] by simp
qed

lemma salted_name_inj: "salted_unique_key key t n = salted_unique_key key t n' \<Longrightarrow> n = n'"
  by (blast dest: salted_key_eq)

text \<open>
  Under one idempotency key, subscriptions never share a salted key, whatever characters
  the topic and the subscription name contain.
\<close>

theorem salted_key_injective:
  assumes "salted_unique_key key t n = salted_unique_key key t' n'"
  shows "t = t' \<and> n = n'"
  by (rule salted_key_eq [OF assms])

theorem salted_key_injective_witness:
  "salted_unique_key ''k'' ''a:'' ''b'' = salted_unique_key ''k'' (''a'' @ '':'') ''b''
    \<and> ''a:'' = ''a'' @ '':'' \<and> ''b'' = ''b''"
  using salted_key_injective [of "''k''" "''a:''" "''b''" "''a'' @ '':''" "''b''"] by simp

lemma active_duplicate_append:
  "active_duplicate j s = Some r \<Longrightarrow> jobs s' = jobs s @ new \<Longrightarrow> active_duplicate j s' = Some r"
proof -
  have "find p xs = Some r \<Longrightarrow> find p (xs @ ys) = Some r" for p :: "job_row \<Rightarrow> bool" and xs ys
    by (induction xs) (auto split: if_splits)
  then show "active_duplicate j s = Some r \<Longrightarrow> jobs s' = jobs s @ new \<Longrightarrow> ?thesis"
    by (auto simp: active_duplicate_def find_active_by_unique_key_def split: option.splits)
qed

lemma active_duplicate_new:
  assumes "active_duplicate j s = None" and "unique_key j = Some uk" and "status j = Pending"
    and "jobs s' = jobs s @ [new_job_row a j]"
  shows "active_duplicate j s' = Some (new_job_row a j)"
  unfolding active_duplicate_def find_active_by_unique_key_def assms(2,4) option.case
  by (rule find_snoc) (use assms in \<open>auto simp: active_duplicate_def find_active_by_unique_key_def find_None_iff\<close>)

lemma insert_with_deps_jobs:
  assumes "insert_job_with_deps e k j deps s = Inr s'"
  shows "jobs s' = jobs s @ [new_job_row (extract_topic_subscription e (job_notes j)) j]"
    and "topic_subscriptions s' = topic_subscriptions s" and "topic_messages s' = topic_messages s" and "topics s' = topics s"
proof -
  obtain d where "s' = s\<lparr>jobs := jobs s @ [new_job_row (extract_topic_subscription e (job_notes j)) j], job_dependencies := d\<rparr>"
    using assms by (rule insert_job_with_deps_Inr) blast
  then show "jobs s' = jobs s @ [new_job_row (extract_topic_subscription e (job_notes j)) j]"
    "topic_subscriptions s' = topic_subscriptions s" "topic_messages s' = topic_messages s" "topics s' = topics s" by simp_all
qed

lemma unique_all_found:
  "enqueue_unique_all e k ps s = Inr (s', out) \<Longrightarrow> \<forall>(j, ds)\<in>set ps. unique_key j \<noteq> None \<and> status j = Pending \<Longrightarrow>
     list_all2 (\<lambda>(j, _) (x, _). \<exists>r. active_duplicate j s' = Some r \<and> jid r = jid x) ps out
     \<and> (\<exists>new. jobs s' = jobs s @ new) \<and> topic_subscriptions s' = topic_subscriptions s
     \<and> topic_messages s' = topic_messages s \<and> topics s' = topics s"
proof (induction e k ps s arbitrary: out rule: enqueue_unique_all.induct)
  case (2 e k j deps rest s)
  show ?case
  proof (cases "active_duplicate j s")
    case None
    with "2.prems"(1) obtain s1 out' where v: "validate_dependencies deps (namespace j) s = Inr ()"
      and ins: "insert_job_with_deps e k j deps s = Inr s1"
      and all: "enqueue_unique_all e (k + length deps) rest s1 = Inr (s', out')" and out: "out = (j, False) # out'"
      by (auto simp: res_simps)
    obtain uk where "unique_key j = Some uk" "status j = Pending" using "2.prems"(2) by auto
    note fresh = active_duplicate_new [OF None this insert_with_deps_jobs(1) [OF ins]]
    note ih = "2.IH"(1) [OF None v ins all]
    then obtain new where app: "jobs s' = jobs s1 @ new" using "2.prems"(2) by auto
    show ?thesis using ih "2.prems"(2) active_duplicate_append [OF fresh app] insert_with_deps_jobs [OF ins]
      by (auto simp: out)
  next
    case (Some r)
    with "2.prems"(1) obtain out' where all: "enqueue_unique_all e k rest s = Inr (s', out')"
      and out: "out = (job_of_row r, True) # out'" by (auto simp: res_simps)
    note ih = "2.IH"(2) [OF Some all]
    then obtain new where "jobs s' = jobs s @ new" using "2.prems"(2) by auto
    then show ?thesis using ih "2.prems"(2) active_duplicate_append [OF Some] by (auto simp: out)
  qed
qed auto

lemma unique_all_duplicates:
  "\<forall>(j, ds)\<in>set ps. active_duplicate j s \<noteq> None \<Longrightarrow>
     enqueue_unique_all e k ps s = Inr (s, map (\<lambda>(j, _). (job_of_row (the (active_duplicate j s)), True)) ps)"
  by (induction ps) auto


lemma unique_loop_Inr:
  "enqueue_unique_batch_loop n e k ps s = (s', Inr out) \<Longrightarrow> enqueue_unique_all e k ps s = Inr (s', out)"
  by (induction n) (auto simp: write_transaction_def split: sum.splits prod.splits if_splits)

lemma unique_loop_all:
  "enqueue_unique_all e k ps s = Inr (s', out) \<Longrightarrow> enqueue_unique_batch_loop (Suc n) e k ps s = (s', Inr out)"
  by (simp add: res_simps)

lemma into_jobs_nth:
  "list_all2 (\<lambda>nj (j, ds). unique_key j = nj_unique_key nj \<and> namespace j = nj_namespace nj \<and> status j = Pending)
     njs (into_jobs e k njs)"
  by (induction njs arbitrary: k) (auto simp: into_job_def)

definition fan_out :: "publish_request \<Rightarrow> db \<Rightarrow> subscription list" where
  "fan_out req s = filter (\<lambda>x. \<not> is_log (su_mode x)) (list_subscriptions_for_topic (rq_topic req) s)"

lemma fan_out_cong: "topic_subscriptions s' = topic_subscriptions s \<Longrightarrow> fan_out req s' = fan_out req s"
  by (simp add: fan_out_def list_subscriptions_for_topic_def)

text \<open>The two halves of a keyed publish: the log row, and the deduplicated batch.\<close>

definition with_log_row :: "env \<Rightarrow> env \<Rightarrow> publish_request \<Rightarrow> db \<Rightarrow> db \<times> (queue_error + unit)" where
  "with_log_row e em req s =
     (case log_expires e req (list_subscriptions_for_topic (rq_topic req) s) s of
        None \<Rightarrow> (s, Inr ())
      | Some expires \<Rightarrow>
          (case publish_message em (rq_topic req) (rq_payload req) (rq_metadata req) (rq_notes req) expires s of
             (s', Inl err) \<Rightarrow> (s', Inl err)
           | (s', Inr _) \<Rightarrow> (s', Inr ())))"

lemma publish_eq:
  "publish_to_topic e em ej req s =
     (case with_log_row e em req s of
        (s1, Inl err) \<Rightarrow> (s1, Inl err)
      | (s1, Inr _) \<Rightarrow>
          if fan_out req s = [] then (s1, Inr [])
          else if rq_idempotency_key req = None then enqueue_batch ej (map (delivery_job e req) (fan_out req s)) s1
          else enqueue_unique_batch ej (map (delivery_job e req) (fan_out req s)) s1)"
  by (auto simp: publish_to_topic_def with_log_row_def fan_out_def Let_def split: prod.splits option.splits sum.splits)

lemma with_log_row_frame:
  assumes "with_log_row e em req s = (s1, r)"
  shows "jobs s1 = jobs s" and "topic_subscriptions s1 = topic_subscriptions s" and "archived_jobs s1 = archived_jobs s"
    and "db_ok s \<Longrightarrow> db_ok s1" and "uuid em 0 \<notin> mg_id ` set (topic_messages s) \<Longrightarrow> r = Inr ()"
proof -
  have pub: "jobs (fst (publish_message em t b md nts x s)) = jobs s"
    "topic_subscriptions (fst (publish_message em t b md nts x s)) = topic_subscriptions s"
    "archived_jobs (fst (publish_message em t b md nts x s)) = archived_jobs s"
    "uuid em 0 \<notin> mg_id ` set (topic_messages s) \<Longrightarrow> \<not> isl (snd (publish_message em t b md nts x s))" for t b md nts x
    by (simp_all add: publish_message_def Let_def bex_key)
  show "jobs s1 = jobs s" "topic_subscriptions s1 = topic_subscriptions s" "archived_jobs s1 = archived_jobs s"
    "db_ok s \<Longrightarrow> db_ok s1" "uuid em 0 \<notin> mg_id ` set (topic_messages s) \<Longrightarrow> r = Inr ()"
    using assms pub publish_message_keeps [of s em]
    by (auto simp: with_log_row_def split: option.splits prod.splits sum.splits) (metis fst_conv snd_conv sum.disc(1))+
qed

lemma keyed_deliveries:
  assumes "rq_idempotency_key req = Some key"
  shows "\<forall>(j, ds)\<in>set (into_jobs ej k (map (delivery_job e req) subs)). unique_key j \<noteq> None \<and> status j = Pending"
  using assms by (induction subs arbitrary: k) (auto simp: into_job_def delivery_job_def)

text \<open>The delivery a subscription has, looked up by its salted key.\<close>

definition delivered :: "publish_request \<Rightarrow> string \<Rightarrow> db \<Rightarrow> subscription \<Rightarrow> job_row option" where
  "delivered req key s x =
     find_active_by_unique_key (salted_unique_key key (rq_topic req) (su_subscription_name x)) (rq_namespace req) s"

lemma delivered_cong: "jobs s' = jobs s \<Longrightarrow> delivered req key s' = delivered req key s"
  by (simp add: delivered_def find_active_by_unique_key_def fun_eq_iff)

lemma delivered_duplicate:
  assumes "rq_idempotency_key req = Some key"
  shows "list_all2 (\<lambda>x (j, _). active_duplicate j s = delivered req key s x) subs
    (into_jobs ej k (map (delivery_job e req) subs))"
  using assms
  by (induction subs arbitrary: k) (auto simp: into_job_def delivery_job_def active_duplicate_def delivered_def)

lemma batch_delivers:
  assumes key: "rq_idempotency_key req = Some key"
    and b: "enqueue_unique_batch ej (map (delivery_job e req) subs) s = (s', Inr js)"
  shows "map (\<lambda>x. map_option jid (delivered req key s' x)) subs = map (\<lambda>j. Some (jid j)) js"
    and "topic_subscriptions s' = topic_subscriptions s"
proof -
  let ?ps = "into_jobs ej 0 (map (delivery_job e req) subs)"
  obtain out where "enqueue_unique_batch_reporting ej (map (delivery_job e req) subs) s = (s', Inr out)" and js: "js = map fst out"
    using b by (auto simp: enqueue_unique_batch_def split: prod.splits sum.splits)
  then have "enqueue_unique_all ej (length (map (delivery_job e req) subs)) ?ps s = Inr (s', out)"
    by (auto simp: enqueue_unique_batch_reporting_def dest: unique_loop_Inr)
  note found = unique_all_found [OF this keyed_deliveries [OF key]]
  then show "topic_subscriptions s' = topic_subscriptions s" by simp
  have "list_all2 (\<lambda>x (j, _). \<exists>r. delivered req key s' x = Some r \<and> jid r = jid j) subs out"
    using list_all2_trans [OF _ delivered_duplicate [OF key, of s' subs ej 0 e] conjunct1 [OF found],
        of "\<lambda>x (j, _). \<exists>r. delivered req key s' x = Some r \<and> jid r = jid j"] by auto
  then show "map (\<lambda>x. map_option jid (delivered req key s' x)) subs = map (\<lambda>j. Some (jid j)) js"
    unfolding js by (induction rule: list_all2_induct) auto
qed

lemma batch_repeats:
  assumes key: "rq_idempotency_key req = Some key" and all: "\<forall>x\<in>set subs. delivered req key s x \<noteq> None"
  shows "enqueue_unique_batch ej (map (delivery_job e req) subs) s
    = (s, Inr (map (\<lambda>x. job_of_row (the (delivered req key s x))) subs))"
proof -
  let ?ps = "into_jobs ej 0 (map (delivery_job e req) subs)"
  note dup = delivered_duplicate [OF key, of s subs ej 0 e]
  have "\<forall>(j, ds)\<in>set ?ps. active_duplicate j s \<noteq> None"
    using dup all by (induction rule: list_all2_induct) auto
  note unique_loop_all [OF unique_all_duplicates [OF this]]
  moreover have "map (\<lambda>(j, _). job_of_row (the (active_duplicate j s))) ?ps = map (\<lambda>x. job_of_row (the (delivered req key s x))) subs"
    using dup by (induction rule: list_all2_induct) auto
  ultimately show ?thesis
    by (simp add: enqueue_unique_batch_def enqueue_unique_batch_reporting_def MAX_ENQUEUE_ATTEMPTS_def numeral_3_eq_3
        case_prod_unfold comp_def)
qed


lemma keyed_publish:
  assumes "rq_idempotency_key req = Some key" and "publish_to_topic e em ej req s = (s1, Inr js)"
  obtains s0 where "with_log_row e em req s = (s0, Inr ())"
    and "if fan_out req s = [] then s1 = s0 \<and> js = []
       else enqueue_unique_batch ej (map (delivery_job e req) (fan_out req s)) s0 = (s1, Inr js)"
proof -
  obtain s0 r where l: "with_log_row e em req s = (s0, r)" by (cases "with_log_row e em req s")
  show ?thesis
  proof (cases r)
    case (Inl err)
    then show ?thesis using assms l by (simp add: publish_eq)
  next
    case (Inr u)
    then show ?thesis using assms l that [of s0] by (simp add: publish_eq split: if_splits)
  qed
qed

lemma enqueue_unique_batch_keeps: "db_ok s \<Longrightarrow> fresh_ids e s \<Longrightarrow> db_ok (fst (enqueue_unique_batch e njs s))"
  using enqueue_unique_batch_reporting_keeps [of s e njs]
  by (auto simp: enqueue_unique_batch_def split: prod.splits sum.splits)

lemma distinct_map_inj:
  assumes "distinct (map g xs)" and "\<And>x y. x \<in> set xs \<Longrightarrow> y \<in> set xs \<Longrightarrow> f x = f y \<Longrightarrow> g x = g y"
  shows "distinct (map f xs)"
proof -
  have d: "distinct xs" and g: "inj_on g (set xs)" using assms(1) unfolding distinct_map by blast+
  have "inj_on f (set xs)" using inj_onD [OF g] assms(2) by (blast intro: inj_onI)
  with d show ?thesis unfolding distinct_map by blast
qed

lemma distinct_fan_out: "db_ok s \<Longrightarrow> distinct (map su_subscription_name (fan_out req s))"
proof -
  assume ok: "db_ok s"
  let ?T = "filter (\<lambda>b. sb_topic b = rq_topic req \<and> sb_active b) (topic_subscriptions s)"
  have "inj_on sb_key (set ?T)" "distinct ?T"
    using db_ok_registryD(5) [OF ok] by (auto simp: distinct_map intro: inj_on_subset)
  then have "distinct (map sb_subscription_name ?T)" by (auto simp: distinct_map inj_on_def)
  then have "distinct (map sb_subscription_name (sort_key (\<lambda>b. (sb_created_at b, sb_subscription_name b)) ?T))"
    by (simp add: distinct_map)
  then have "distinct (map su_subscription_name (list_subscriptions_for_topic (rq_topic req) s))"
    by (simp add: list_subscriptions_for_topic_def subscription_of_row_def comp_def)
  then show ?thesis unfolding fan_out_def by (rule distinct_map_filter)
qed

lemma delivered_inj:
  assumes ok: "db_ok s" and "delivered req key s x = Some r" and "delivered req key s y = Some r'" and "jid r = jid r'"
  shows "su_subscription_name x = su_subscription_name y"
proof -
  have r: "r \<in> set (jobs s)" "unique_key r = Some (salted_unique_key key (rq_topic req) (su_subscription_name x))"
    and r': "r' \<in> set (jobs s)" "unique_key r' = Some (salted_unique_key key (rq_topic req) (su_subscription_name y))"
    using assms(2,3) by (auto simp: delivered_def find_active_by_unique_key_def dest!: find_SomeD)
  have "r = r'" by (rule distinct_map_key [OF db_ok_distinct(1) [OF ok] r(1) r'(1) assms(4)])
  then have "salted_unique_key key (rq_topic req) (su_subscription_name x)
      = salted_unique_key key (rq_topic req) (su_subscription_name y)" using r(2) r'(2) by simp
  then show ?thesis by (rule salted_name_inj)
qed

text \<open>
  C35. A keyed publish delivers once. It answers one job for each active fan-out subscription of
  the topic, no two the same; publishing the same event again while they are active
  answers the same jobs and adds none.
\<close>

theorem republish_delivers_once:
  assumes "db_ok s" and "fresh_ids ej s" and "rq_idempotency_key req = Some key"
    and "publish_to_topic e em ej req s = (s1, Inr js)"
    and "uuid em' 0 \<notin> mg_id ` set (topic_messages s1)"
  shows "length js = length (fan_out req s) \<and> distinct (map jid js)
    \<and> (\<exists>s2 js2. publish_to_topic e' em' ej' req s1 = (s2, Inr js2) \<and> map jid js2 = map jid js \<and> jobs s2 = jobs s1)"
proof -
  let ?subs = "fan_out req s"
  obtain s0 where log: "with_log_row e em req s = (s0, Inr ())"
    and s1: "if ?subs = [] then s1 = s0 \<and> js = []
       else enqueue_unique_batch ej (map (delivery_job e req) ?subs) s0 = (s1, Inr js)"
    by (rule keyed_publish [OF assms(3,4)])
  note frame = with_log_row_frame [OF log]
  have fresh: "fresh_ids ej s0" using assms(2) unfolding fresh_ids_def frame(3) .
  have ok: "db_ok s1"
    using s1 frame(4) [OF assms(1)] enqueue_unique_batch_keeps [OF frame(4) [OF assms(1)] fresh, of "map (delivery_job e req) ?subs"]
    by (cases "?subs = []") simp_all
  have found: "map (\<lambda>x. map_option jid (delivered req key s1 x)) ?subs = map (\<lambda>j. Some (jid j)) js"
    and subs: "topic_subscriptions s1 = topic_subscriptions s"
    using s1 batch_delivers [OF assms(3)] frame(2) by (auto split: if_splits)
  have len: "length js = length ?subs" using arg_cong [OF found, of length] by simp
  have "distinct (map (\<lambda>x. map_option jid (delivered req key s1 x)) ?subs)"
  proof (rule distinct_map_inj [OF distinct_fan_out [OF assms(1)]])
    fix x y assume xy: "x \<in> set ?subs" "y \<in> set ?subs"
      "map_option jid (delivered req key s1 x) = map_option jid (delivered req key s1 y)"
    have "map_option jid (delivered req key s1 x) \<in> set (map (\<lambda>j. Some (jid j)) js)"
      using xy(1) unfolding found [symmetric] by auto
    then obtain r r' where "delivered req key s1 x = Some r" "delivered req key s1 y = Some r'" "jid r = jid r'"
      using xy(3) by auto
    from delivered_inj [OF ok this] show "su_subscription_name x = su_subscription_name y" .
  qed
  then have dist: "distinct (map jid js)" unfolding found by (simp add: distinct_map inj_on_def)
  obtain s1' where log2: "with_log_row e' em' req s1 = (s1', Inr ())"
    using with_log_row_frame(5) [OF _ assms(5)] by (metis surj_pair)
  note frame2 = with_log_row_frame [OF log2]
  have subs2: "fan_out req s1 = ?subs" by (rule fan_out_cong [OF subs])
  have "map_option jid (delivered req key s1 x) \<in> set (map (\<lambda>j. Some (jid j)) js)" if "x \<in> set ?subs" for x
    using that unfolding found [symmetric] by auto
  then have all: "\<forall>x\<in>set ?subs. delivered req key s1' x \<noteq> None" by (fastforce simp: delivered_cong [OF frame2(1)])
  have ids: "map jid (map (\<lambda>x. job_of_row (the (delivered req key s1' x))) ?subs) = map jid js"
  proof -
    have "map (\<lambda>x. Some (jid (the (delivered req key s1 x)))) ?subs = map (\<lambda>j. Some (jid j)) js"
      unfolding found [symmetric] using all
      by (intro map_cong refl) (auto simp: delivered_cong [OF frame2(1)])
    then have "map the (map (\<lambda>x. Some (jid (the (delivered req key s1 x)))) ?subs) = map the (map (\<lambda>j. Some (jid j)) js)"
      by (rule arg_cong)
    then show ?thesis by (simp add: comp_def delivered_cong [OF frame2(1)])
  qed
  have "\<exists>s2 js2. publish_to_topic e' em' ej' req s1 = (s2, Inr js2) \<and> map jid js2 = map jid js \<and> jobs s2 = jobs s1"
    using log2 subs2 batch_repeats [OF assms(3) all] ids frame2(1) assms(3) len by (auto simp: publish_eq)
  then show ?thesis using len dist by blast
qed


definition fan_reader :: subscription_row where
  "fan_reader = (log_reader ''f'' None)\<lparr>sb_mode := ''fanout'', sb_task_name := ''mail''\<rparr>"

definition fan_db :: db where
  "fan_db = empty_db\<lparr>topic_subscriptions := [fan_reader]\<rparr>"

definition keyed_request :: publish_request where
  "keyed_request = \<lparr>rq_topic = ''t'', rq_payload = [1], rq_idempotency_key = Some ''k'', rq_metadata = None, rq_notes = None,
     rq_priority = None, rq_scheduled_at = 5, rq_max_retries = None, rq_timeout_ms = None, rq_expires_at = None,
     rq_result_ttl_ms = None, rq_namespace = None,
     rq_queue_defaults = \<lparr>dd_priority = 0, dd_max_retries = 3, dd_timeout_ms = 300000\<rparr>\<rparr>"

lemma fan_publish:
  "\<exists>s1 j. publish_to_topic (plain_env 5) (plain_env 5) (plain_env 5) keyed_request fan_db = (s1, Inr [j])
    \<and> topic_messages s1 = []"
proof -
  have fo: "fan_out keyed_request fan_db = [subscription_of_row fan_reader]"
    by (simp add: fan_out_def list_subscriptions_for_topic_def fan_db_def keyed_request_def fan_reader_def log_reader_def
        subscription_of_row_def mode_from_wire_def is_log_def)
  have log: "with_log_row (plain_env 5) (plain_env 5) keyed_request fan_db = (fan_db, Inr ())"
    by (simp add: with_log_row_def log_expires_def list_subscriptions_for_topic_def fan_db_def keyed_request_def
        fan_reader_def log_reader_def subscription_of_row_def mode_from_wire_def is_log_def get_topic_def empty_db_def)
  have "rq_idempotency_key keyed_request = Some ''k''" by (simp add: keyed_request_def)
  then show ?thesis unfolding publish_eq log fo
    by (simp add: enqueue_unique_batch_def enqueue_unique_batch_reporting_def MAX_ENQUEUE_ATTEMPTS_def numeral_3_eq_3
        write_transaction_def active_duplicate_def delivery_job_def into_job_def find_active_by_unique_key_def fan_db_def
        empty_db_def insert_job_with_deps_def insert_job_row_def)
qed

theorem republish_delivers_once_witness:
  "\<exists>s1 j s2 js2. publish_to_topic (plain_env 5) (plain_env 5) (plain_env 5) keyed_request fan_db = (s1, Inr [j])
    \<and> publish_to_topic (plain_env 9) (plain_env 9) (plain_env 9) keyed_request s1 = (s2, Inr js2)
    \<and> map jid js2 = [jid j] \<and> jobs s2 = jobs s1"
proof -
  obtain s1 j where p: "publish_to_topic (plain_env 5) (plain_env 5) (plain_env 5) keyed_request fan_db = (s1, Inr [j])"
    and m: "topic_messages s1 = []" using fan_publish by blast
  have ok: "db_ok fan_db" unfolding fan_db_def by (intro db_ok_registryI db_ok_empty) simp
  have fresh: "fresh_ids (plain_env 5) fan_db" by (simp add: fresh_ids_def fan_db_def empty_db_def)
  have key: "rq_idempotency_key keyed_request = Some ''k''" by (simp add: keyed_request_def)
  have id: "uuid (plain_env 9) 0 \<notin> mg_id ` set (topic_messages s1)" by (simp add: m)
  show ?thesis using republish_delivers_once [OF ok fresh key p id, of "plain_env 9" "plain_env 9"] p by auto
qed

text \<open>
  Salted keys of different idempotency keys meet: the key is not length-prefixed, so it can swallow
  the prefix of another salted key.
\<close>

lemma salted_key_swallows:
  assumes "t = x @ ''::'' @ show_nat (length y) @ '':'' @ show_nat (length z) @ '':'' @ y"
  shows "salted_unique_key (key @ ''::'' @ show_nat (length t) @ '':'' @ show_nat (length z) @ '':'' @ x) y z
    = salted_unique_key key t z"
  by (simp add: salted_unique_key_def assms)

text \<open>
  C36. A keyed publish can be swallowed by one to another topic. After a publish under the key
  \<open>key\<close> to a topic whose name ends like a salted key, a publish to the topic \<open>y\<close> under a longer
  key, with whatever payload, finds the delivery of the first to a subscription of the same
  name: it succeeds, answers the job of the other topic, and no delivery to its own subscription
  is ever enqueued.
\<close>

theorem salted_key_collides:
  assumes "rq_idempotency_key req = Some key" and "publish_to_topic e em ej req s = (s1, Inr js)"
    and "z \<in> su_subscription_name ` set (fan_out req s)"
    and "rq_topic req = x @ ''::'' @ show_nat (length (rq_topic req')) @ '':'' @ show_nat (length z) @ '':'' @ rq_topic req'"
    and "rq_idempotency_key req'
      = Some (key @ ''::'' @ show_nat (length (rq_topic req)) @ '':'' @ show_nat (length z) @ '':'' @ x)"
    and "rq_namespace req' = rq_namespace req" and "map su_subscription_name (fan_out req' s1) = [z]"
    and "uuid em' 0 \<notin> mg_id ` set (topic_messages s1)"
  shows "rq_topic req' \<noteq> rq_topic req
    \<and> (\<exists>s2 j. publish_to_topic e' em' ej' req' s1 = (s2, Inr [j]) \<and> jid j \<in> jid ` set js \<and> jobs s2 = jobs s1)"
proof -
  let ?subs = "fan_out req s"
  obtain a where a: "a \<in> set ?subs" "su_subscription_name a = z" using assms(3) by auto
  then have "?subs \<noteq> []" by auto
  with keyed_publish [OF assms(1,2)] obtain s0
    where "enqueue_unique_batch ej (map (delivery_job e req) ?subs) s0 = (s1, Inr js)" by metis
  note found = batch_delivers(1) [OF assms(1) this]
  have "map_option jid (delivered req key s1 a) \<in> set (map (\<lambda>j. Some (jid j)) js)"
    using a(1) unfolding found [symmetric] by auto
  then obtain r where r: "delivered req key s1 a = Some r" "jid r \<in> jid ` set js" by auto
  obtain b where b: "fan_out req' s1 = [b]" "su_subscription_name b = z" using assms(7) by auto
  obtain key' where key': "rq_idempotency_key req' = Some key'"
    "key' = key @ ''::'' @ show_nat (length (rq_topic req)) @ '':'' @ show_nat (length z) @ '':'' @ x"
    using assms(5) by blast
  have same: "delivered req' key' t b = delivered req key t a" for t
    unfolding delivered_def key'(2) a(2) b(2) assms(6) salted_key_swallows [OF assms(4)] ..
  obtain s1' where log: "with_log_row e' em' req' s1 = (s1', Inr ())"
    using with_log_row_frame(5) [OF _ assms(8)] by (metis surj_pair)
  note frame = with_log_row_frame [OF log]
  have "delivered req' key' s1' b = Some r" unfolding same delivered_cong [OF frame(1)] by (rule r(1))
  then have "enqueue_unique_batch ej' (map (delivery_job e' req') [b]) s1' = (s1', Inr [job_of_row r])"
    using batch_repeats [OF key'(1), of "[b]" s1' ej' e'] by simp
  then have "publish_to_topic e' em' ej' req' s1 = (s1', Inr [job_of_row r])"
    unfolding publish_eq log b(1) using key'(1) by simp
  moreover have "rq_topic req' \<noteq> rq_topic req" using arg_cong [OF assms(4), of length] by auto
  ultimately show ?thesis using r(2) frame(1) by simp
qed

definition two_topics_db :: db where
  "two_topics_db = empty_db\<lparr>topic_subscriptions :=
     [fan_reader\<lparr>sb_topic := ''x::1:1:y''\<rparr>, fan_reader\<lparr>sb_topic := ''y''\<rparr>]\<rparr>"

definition long_request :: publish_request where
  "long_request = keyed_request\<lparr>rq_topic := ''x::1:1:y''\<rparr>"

definition short_request :: publish_request where
  "short_request = keyed_request\<lparr>rq_topic := ''y'', rq_payload := [2], rq_idempotency_key := Some ''k::8:1:x''\<rparr>"

lemma long_publish:
  "\<exists>s1 j. publish_to_topic (plain_env 5) (plain_env 5) (plain_env 5) long_request two_topics_db = (s1, Inr [j])
    \<and> topic_messages s1 = [] \<and> topic_subscriptions s1 = topic_subscriptions two_topics_db"
proof -
  let ?b = "subscription_of_row (fan_reader\<lparr>sb_topic := ''x::1:1:y''\<rparr>)"
  have fo: "fan_out long_request two_topics_db = [?b]"
    by (simp add: fan_out_def list_subscriptions_for_topic_def two_topics_db_def long_request_def keyed_request_def
        fan_reader_def log_reader_def subscription_of_row_def mode_from_wire_def is_log_def)
  have log: "with_log_row (plain_env 5) (plain_env 5) long_request two_topics_db = (two_topics_db, Inr ())"
    by (simp add: with_log_row_def log_expires_def list_subscriptions_for_topic_def two_topics_db_def long_request_def
        keyed_request_def fan_reader_def log_reader_def subscription_of_row_def mode_from_wire_def is_log_def get_topic_def
        empty_db_def)
  have "rq_idempotency_key long_request = Some ''k''" by (simp add: long_request_def keyed_request_def)
  then show ?thesis unfolding publish_eq log fo
    by (simp add: enqueue_unique_batch_def enqueue_unique_batch_reporting_def MAX_ENQUEUE_ATTEMPTS_def numeral_3_eq_3
        write_transaction_def active_duplicate_def delivery_job_def into_job_def find_active_by_unique_key_def two_topics_db_def
        empty_db_def insert_job_with_deps_def insert_job_row_def)
qed

theorem salted_key_collides_witness:
  "\<exists>s1 j s2 j2. publish_to_topic (plain_env 5) (plain_env 5) (plain_env 5) long_request two_topics_db = (s1, Inr [j])
    \<and> publish_to_topic (plain_env 9) (plain_env 9) (plain_env 9) short_request s1 = (s2, Inr [j2])
    \<and> jid j2 = jid j \<and> jobs s2 = jobs s1"
proof -
  obtain s1 j where p: "publish_to_topic (plain_env 5) (plain_env 5) (plain_env 5) long_request two_topics_db = (s1, Inr [j])"
    and m: "topic_messages s1 = []" and subs: "topic_subscriptions s1 = topic_subscriptions two_topics_db"
    using long_publish by blast
  have key: "rq_idempotency_key long_request = Some ''k''" "rq_namespace short_request = rq_namespace long_request"
    by (simp_all add: long_request_def short_request_def keyed_request_def)
  have f1: "''f'' \<in> su_subscription_name ` set (fan_out long_request two_topics_db)"
    by (simp add: fan_out_def list_subscriptions_for_topic_def two_topics_db_def long_request_def keyed_request_def
        fan_reader_def log_reader_def subscription_of_row_def mode_from_wire_def is_log_def)
  have f2: "map su_subscription_name (fan_out short_request s1) = [''f'']"
    unfolding fan_out_cong [OF subs]
    by (simp add: fan_out_def list_subscriptions_for_topic_def two_topics_db_def short_request_def keyed_request_def
        fan_reader_def log_reader_def subscription_of_row_def mode_from_wire_def is_log_def)
  have t: "rq_topic long_request = ''x'' @ ''::'' @ show_nat (length (rq_topic short_request)) @ '':''
      @ show_nat (length ''f'') @ '':'' @ rq_topic short_request"
    unfolding long_request_def short_request_def keyed_request_def by code_simp
  have k: "rq_idempotency_key short_request = Some (''k'' @ ''::'' @ show_nat (length (rq_topic long_request)) @ '':''
      @ show_nat (length ''f'') @ '':'' @ ''x'')"
    unfolding long_request_def short_request_def keyed_request_def by code_simp
  have "uuid (plain_env 9) 0 \<notin> mg_id ` set (topic_messages s1)" by (simp add: m)
  from salted_key_collides [OF key(1) p f1 t k key(2) f2 this, of "plain_env 9" "plain_env 9"] p
  show ?thesis by auto
qed

end
