(* ===== verification/Registry.thy ===== *)
theory Registry
  imports Claims
begin

text \<open>
  The registries and logs beside the job tables: paused queues
  (\<open>storage/diesel_common/queue_state.rs\<close>), workers (\<open>workers.rs\<close>), periodic schedules
  (\<open>periodic.rs\<close>), dashboard settings (\<open>dashboard_settings.rs\<close>), the audit trail
  (\<open>audit.rs\<close>), task logs, metrics and replays (\<open>logs.rs\<close>, \<open>metrics.rs\<close>), the archive
  listings (\<open>archival.rs\<close>), the breaker and rate-limit rows, and the page cursor
  (\<open>storage/cursor.rs\<close>).
\<close>

text \<open>SQLite's \<open>REPLACE INTO\<close>: the conflicting row is deleted and the new one inserted.\<close>

definition replace_into :: "('r \<Rightarrow> 'k) \<Rightarrow> 'r \<Rightarrow> 'r list \<Rightarrow> 'r list" where
  "replace_into key row t = delete_where (\<lambda>x. key x = key row) t @ [row]"

section \<open>Paused queues\<close>

definition in_queue_state_namespace :: "string option \<Rightarrow> queue_state_row \<Rightarrow> bool" where
  "in_queue_state_namespace ns q =
     (case ns of Some n \<Rightarrow> qs_namespace q = Some n | None \<Rightarrow> qs_namespace q = None)"

definition pause_queue_once :: "env \<Rightarrow> string \<Rightarrow> string option \<Rightarrow> unit op" where
  "pause_queue_once e name ns = write_transaction (\<lambda>s.
     let p = (\<lambda>q. in_queue_state_namespace ns q \<and> qs_queue_name q = name);
         s1 = s\<lparr>queue_state := update_where p
                  (\<lambda>q. q\<lparr>qs_paused := True, qs_paused_at := Some (now_millis e)\<rparr>) (queue_state s)\<rparr>
     in if count_where p (queue_state s) = 0
        then (if \<exists>q\<in>set (queue_state s1). (qs_namespace q, qs_queue_name q) = (ns, name)
              then Inl (Storage UniqueViolation)
              else Inr (s1\<lparr>queue_state := queue_state s1 @
                     [\<lparr>qs_queue_name = name, qs_paused = True, qs_paused_at = Some (now_millis e),
                       qs_namespace = ns\<rparr>]\<rparr>, ()))
        else Inr (s1, ()))"

text \<open>One retry after a unique violation; \<open>e'\<close> is what the retry reads of its environment.\<close>

definition pause_queue :: "env \<Rightarrow> env \<Rightarrow> string \<Rightarrow> string option \<Rightarrow> unit op" where
  "pause_queue e e' name ns s =
     (case pause_queue_once e name ns s of
        (s', Inl (Storage UniqueViolation)) \<Rightarrow> pause_queue_once e' name ns s'
      | r \<Rightarrow> r)"

definition resume_queue :: "string \<Rightarrow> string option \<Rightarrow> unit op" where
  "resume_queue name ns s =
     (s\<lparr>queue_state := delete_where (\<lambda>q. in_queue_state_namespace ns q \<and> qs_queue_name q = name)
          (queue_state s)\<rparr>, Inr ())"

definition list_paused_queues :: "string option \<Rightarrow> db \<Rightarrow> string list" where
  "list_paused_queues ns s =
     map qs_queue_name (filter (\<lambda>q. in_queue_state_namespace ns q \<and> qs_paused q) (queue_state s))"

section \<open>Workers\<close>

datatype worker_status = Active | Draining

definition worker_status_str :: "worker_status \<Rightarrow> string" where
  "worker_status_str w = (case w of Active \<Rightarrow> ''active'' | Draining \<Rightarrow> ''draining'')"

definition worker_status_from_wire :: "string \<Rightarrow> worker_status" where
  "worker_status_from_wire wire = (if wire = ''draining'' then Draining else Active)"

definition worker_status_parse :: "string \<Rightarrow> worker_status option" where
  "worker_status_parse wire =
     (if wire = ''active'' then Some Active
      else if wire = ''draining'' then Some Draining else None)"

record worker_registration =
  wr_worker_id :: string
  wr_queues :: string
  wr_tags :: "string option"
  wr_resources :: "string option"
  wr_resource_health :: "string option"
  wr_threads :: int
  wr_hostname :: "string option"
  wr_pid :: "int option"
  wr_pool_type :: "string option"
  wr_sdk :: "string option"
  wr_sdk_version :: "string option"
  wr_registry_fingerprint :: "string option"
  wr_namespace :: "string option"

definition new_registration :: "string \<Rightarrow> string \<Rightarrow> int \<Rightarrow> worker_registration" where
  "new_registration worker queues threads =
     \<lparr>wr_worker_id = worker, wr_queues = queues, wr_tags = None, wr_resources = None,
      wr_resource_health = None, wr_threads = threads, wr_hostname = None, wr_pid = None,
      wr_pool_type = None, wr_sdk = None, wr_sdk_version = None, wr_registry_fingerprint = None,
      wr_namespace = None\<rparr>"

definition joining :: "worker_registration \<Rightarrow> millis \<Rightarrow> worker_row" where
  "joining r now =
     \<lparr>wk_worker_id = wr_worker_id r, wk_last_heartbeat = now, wk_queues = wr_queues r,
      wk_status = ''active'', wk_tags = wr_tags r, wk_resources = wr_resources r,
      wk_resource_health = wr_resource_health r, wk_threads = wr_threads r,
      wk_started_at = Some now, wk_hostname = wr_hostname r, wk_pid = wr_pid r,
      wk_pool_type = wr_pool_type r, wk_sdk = wr_sdk r, wk_sdk_version = wr_sdk_version r,
      wk_registry_fingerprint = wr_registry_fingerprint r, wk_namespace = wr_namespace r\<rparr>"

definition register_worker :: "env \<Rightarrow> worker_registration \<Rightarrow> unit op" where
  "register_worker e r s =
     (s\<lparr>workers := replace_into wk_worker_id (joining r (now_millis e)) (workers s)\<rparr>, Inr ())"

definition heartbeat :: "env \<Rightarrow> string \<Rightarrow> string option \<Rightarrow> worker_status option op" where
  "heartbeat e w health s =
     (let s' = s\<lparr>workers := update_where (\<lambda>x. wk_worker_id x = w)
                  (\<lambda>x. x\<lparr>wk_last_heartbeat := now_millis e, wk_resource_health := health\<rparr>) (workers s)\<rparr>
      in (s', Inr (map_option (\<lambda>x. worker_status_from_wire (wk_status x))
                 (find (\<lambda>x. wk_worker_id x = w) (workers s')))))"

definition request_worker_drain :: "string \<Rightarrow> string option \<Rightarrow> bool op" where
  "request_worker_drain w ns s =
     (let p = (\<lambda>x. wk_worker_id x = w \<and>
                 (case ns of Some n \<Rightarrow> wk_namespace x = Some n | None \<Rightarrow> wk_namespace x = None))
      in (s\<lparr>workers := update_where p (\<lambda>x. x\<lparr>wk_status := worker_status_str Draining\<rparr>) (workers s)\<rparr>,
          Inr (0 < count_where p (workers s))))"

definition update_worker_status :: "string \<Rightarrow> worker_status \<Rightarrow> unit op" where
  "update_worker_status w st s =
     (s\<lparr>workers := update_where (\<lambda>x. wk_worker_id x = w)
          (\<lambda>x. x\<lparr>wk_status := worker_status_str st\<rparr>) (workers s)\<rparr>, Inr ())"

definition list_workers :: "string option \<Rightarrow> db \<Rightarrow> worker_row list" where
  "list_workers ns s = filter (\<lambda>x. case ns of Some n \<Rightarrow> wk_namespace x = Some n
     | None \<Rightarrow> wk_namespace x = None) (workers s)"

definition list_live_worker_ids :: "millis \<Rightarrow> db \<Rightarrow> string list" where
  "list_live_worker_ids cutoff s =
     map wk_worker_id (filter (\<lambda>x. cutoff \<le> wk_last_heartbeat x) (workers s))"

definition dead_worker_cutoff :: "millis \<Rightarrow> millis" where
  "dead_worker_cutoff now = saturating_sub now DEAD_WORKER_THRESHOLD_MS"

definition reap_dead_workers :: "env \<Rightarrow> string list op" where
  "reap_dead_workers e s =
     (let cutoff = dead_worker_cutoff (now_millis e);
          dead_ids = map wk_worker_id (filter (\<lambda>x. wk_last_heartbeat x < cutoff) (workers s))
      in (if dead_ids \<noteq> []
          then s\<lparr>workers := delete_where (\<lambda>x. wk_worker_id x \<in> set dead_ids \<and> wk_last_heartbeat x < cutoff)
                   (workers s)\<rparr>
          else s,
          Inr dead_ids))"

definition unregister_worker :: "string \<Rightarrow> unit op" where
  "unregister_worker w s =
     (s\<lparr>workers := delete_where (\<lambda>x. wk_worker_id x = w) (workers s)\<rparr>, Inr ())"

definition list_claims_by_worker :: "string \<Rightarrow> db \<Rightarrow> string list" where
  "list_claims_by_worker w s = map cl_job_id (filter (\<lambda>c. cl_worker_id c = w) (execution_claims s))"

section \<open>Periodic schedules\<close>

record new_periodic_task =
  np_name :: string
  np_task_name :: string
  np_cron_expr :: string
  np_args :: "bytes option"
  np_kwargs :: "bytes option"
  np_queue :: string
  np_enabled :: bool
  np_next_run :: millis
  np_timezone :: "string option"
  np_namespace :: "string option"

definition ensure_kwargs_unset :: "new_periodic_task \<Rightarrow> queue_error + unit" where
  "ensure_kwargs_unset t =
     (case np_kwargs t of
        None \<Rightarrow> Inr ()
      | Some _ \<Rightarrow> Inl (Config (''periodic task '' @ CHR 0x27 # np_name t @ CHR 0x27 #
          '': kwargs is reserved; fold keyword arguments into args'')))"

definition in_periodic_namespace :: "string option \<Rightarrow> periodic_row \<Rightarrow> bool" where
  "in_periodic_namespace ns p =
     (case ns of Some n \<Rightarrow> pt_namespace p = Some n | None \<Rightarrow> pt_namespace p = None)"

definition with_registration_retry :: "unit op \<Rightarrow> unit op" where
  "with_registration_retry attempt s =
     (case attempt s of (s', Inl (Storage UniqueViolation)) \<Rightarrow> attempt s' | r \<Rightarrow> r)"

text \<open>The row a registration inserts; \<open>last_run\<close> has no value yet.\<close>

definition new_periodic_row :: "new_periodic_task \<Rightarrow> periodic_row" where
  "new_periodic_row t =
     \<lparr>pt_name = np_name t, pt_task_name = np_task_name t, pt_cron_expr = np_cron_expr t,
      pt_args = np_args t, pt_kwargs = np_kwargs t, pt_queue = np_queue t,
      pt_enabled = np_enabled t, pt_last_run = None, pt_next_run = np_next_run t,
      pt_timezone = np_timezone t, pt_namespace = np_namespace t\<rparr>"

definition insert_periodic :: "periodic_row \<Rightarrow> db \<Rightarrow> queue_error + db" where
  "insert_periodic row s =
     (if \<exists>p\<in>set (periodic_tasks s). (pt_namespace p, pt_name p) = (pt_namespace row, pt_name row)
      then Inl (Storage UniqueViolation)
      else Inr (s\<lparr>periodic_tasks := periodic_tasks s @ [row]\<rparr>))"

text \<open>The shape both writes share: update the row named by \<open>(namespace, name)\<close>, or insert it.\<close>

definition update_else_insert ::
  "(periodic_row \<Rightarrow> periodic_row) \<Rightarrow> new_periodic_task \<Rightarrow> unit op" where
  "update_else_insert upd t = write_transaction (\<lambda>s.
     let p = (\<lambda>r. in_periodic_namespace (np_namespace t) r \<and> pt_name r = np_name t);
         s1 = s\<lparr>periodic_tasks := update_where p upd (periodic_tasks s)\<rparr>
     in if count_where p (periodic_tasks s) = 0
        then and_then (insert_periodic (new_periodic_row t) s1) (\<lambda>s2. Inr (s2, ()))
        else Inr (s1, ()))"

definition register_periodic_once :: "new_periodic_task \<Rightarrow> unit op" where
  "register_periodic_once t = update_else_insert
     (\<lambda>r. r\<lparr>pt_task_name := np_task_name t, pt_cron_expr := np_cron_expr t, pt_args := np_args t,
            pt_kwargs := np_kwargs t, pt_queue := np_queue t, pt_enabled := np_enabled t,
            pt_next_run := np_next_run t, pt_timezone := np_timezone t\<rparr>) t"

definition register_periodic :: "new_periodic_task \<Rightarrow> unit op" where
  "register_periodic t s =
     (case ensure_kwargs_unset t of
        Inl err \<Rightarrow> (s, Inl err)
      | Inr _ \<Rightarrow> with_registration_retry (register_periodic_once t) s)"

definition periodic_schedule_changed :: "new_periodic_task \<Rightarrow> periodic_row \<Rightarrow> bool" where
  "periodic_schedule_changed t r =
     (case np_timezone t of
        Some tz \<Rightarrow> pt_cron_expr r \<noteq> np_cron_expr t \<or> pt_timezone r = None \<or> pt_timezone r \<noteq> Some tz
      | None \<Rightarrow> pt_cron_expr r \<noteq> np_cron_expr t \<or> pt_timezone r \<noteq> None)"

definition declare_periodic_once :: "new_periodic_task \<Rightarrow> unit op" where
  "declare_periodic_once t = update_else_insert
     (\<lambda>r. r\<lparr>pt_task_name := np_task_name t, pt_cron_expr := np_cron_expr t, pt_args := np_args t,
            pt_kwargs := np_kwargs t, pt_queue := np_queue t, pt_timezone := np_timezone t,
            pt_next_run := (if periodic_schedule_changed t r then np_next_run t else pt_next_run r)\<rparr>) t"

definition declare_periodic :: "new_periodic_task \<Rightarrow> unit op" where
  "declare_periodic t s =
     (case ensure_kwargs_unset t of
        Inl err \<Rightarrow> (s, Inl err)
      | Inr _ \<Rightarrow> with_registration_retry (declare_periodic_once t) s)"

definition get_due_periodic :: "millis \<Rightarrow> string option \<Rightarrow> db \<Rightarrow> periodic_row list" where
  "get_due_periodic now ns s =
     filter (\<lambda>r. pt_enabled r \<and> pt_next_run r \<le> now
               \<and> (ns \<noteq> None \<longrightarrow> in_periodic_namespace ns r)) (periodic_tasks s)"

definition update_periodic_schedule :: "string \<Rightarrow> millis \<Rightarrow> millis \<Rightarrow> string option \<Rightarrow> unit op" where
  "update_periodic_schedule name last_run next_run ns s =
     (s\<lparr>periodic_tasks := update_where (\<lambda>r. in_periodic_namespace ns r \<and> pt_name r = name)
          (\<lambda>r. r\<lparr>pt_last_run := Some last_run, pt_next_run := next_run\<rparr>) (periodic_tasks s)\<rparr>, Inr ())"

definition list_periodic :: "string option \<Rightarrow> db \<Rightarrow> periodic_row list" where
  "list_periodic ns s = filter (in_periodic_namespace ns) (periodic_tasks s)"

definition delete_periodic :: "string \<Rightarrow> string option \<Rightarrow> bool op" where
  "delete_periodic name ns s =
     (let p = (\<lambda>r. in_periodic_namespace ns r \<and> pt_name r = name)
      in (s\<lparr>periodic_tasks := delete_where p (periodic_tasks s)\<rparr>,
          Inr (0 < count_where p (periodic_tasks s))))"

definition set_periodic_enabled :: "string \<Rightarrow> bool \<Rightarrow> string option \<Rightarrow> bool op" where
  "set_periodic_enabled name enabled ns s =
     (let p = (\<lambda>r. in_periodic_namespace ns r \<and> pt_name r = name)
      in (s\<lparr>periodic_tasks := update_where p (\<lambda>r. r\<lparr>pt_enabled := enabled\<rparr>) (periodic_tasks s)\<rparr>,
          Inr (0 < count_where p (periodic_tasks s))))"

definition PERIODIC_DEFAULT_MAX_RETRIES :: int where "PERIODIC_DEFAULT_MAX_RETRIES = 3"
definition PERIODIC_DEFAULT_TIMEOUT_MS :: millis where "PERIODIC_DEFAULT_TIMEOUT_MS = 300000"

definition periodic_job :: "periodic_row \<Rightarrow> millis \<Rightarrow> string option \<Rightarrow> new_job" where
  "periodic_job t now ukey =
     \<lparr>nj_queue = pt_queue t, nj_task_name = pt_task_name t,
      nj_payload = (case pt_args t of Some a \<Rightarrow> a | None \<Rightarrow> []), nj_priority = 0,
      nj_scheduled_at = now, nj_max_retries = PERIODIC_DEFAULT_MAX_RETRIES,
      nj_timeout_ms = PERIODIC_DEFAULT_TIMEOUT_MS, nj_unique_key = ukey, nj_metadata = None,
      nj_notes = None, nj_depends_on = [], nj_expires_at = None, nj_result_ttl_ms = None,
      nj_namespace = pt_namespace t, nj_debounce_key = None, nj_enqueued_by = None\<rparr>"

section \<open>Dashboard settings\<close>

definition get_setting :: "string \<Rightarrow> db \<Rightarrow> string option" where
  "get_setting key s = map_option se_value (find (\<lambda>x. se_key x = key) (dashboard_settings s))"

definition set_setting :: "env \<Rightarrow> string \<Rightarrow> string \<Rightarrow> unit op" where
  "set_setting e key v s =
     (s\<lparr>dashboard_settings := upsert se_key
          \<lparr>se_key = key, se_value = v, se_updated_at = now_millis e\<rparr>
          (\<lambda>x. x\<lparr>se_value := v, se_updated_at := now_millis e\<rparr>) (dashboard_settings s)\<rparr>, Inr ())"

definition set_setting_if :: "env \<Rightarrow> string \<Rightarrow> string option \<Rightarrow> string \<Rightarrow> bool op" where
  "set_setting_if e key expected v s =
     (case expected of
        Some old \<Rightarrow>
          (let p = (\<lambda>x. se_key x = key \<and> se_value x = old)
           in (s\<lparr>dashboard_settings := update_where p
                    (\<lambda>x. x\<lparr>se_value := v, se_updated_at := now_millis e\<rparr>) (dashboard_settings s)\<rparr>,
               Inr (0 < count_where p (dashboard_settings s))))
      | None \<Rightarrow>
          (if \<exists>x\<in>set (dashboard_settings s). se_key x = key then (s, Inr False)
           else (s\<lparr>dashboard_settings := dashboard_settings s @
                     [\<lparr>se_key = key, se_value = v, se_updated_at = now_millis e\<rparr>]\<rparr>, Inr True)))"

definition delete_setting :: "string \<Rightarrow> bool op" where
  "delete_setting key s =
     (s\<lparr>dashboard_settings := delete_where (\<lambda>x. se_key x = key) (dashboard_settings s)\<rparr>,
      Inr (0 < count_where (\<lambda>x. se_key x = key) (dashboard_settings s)))"

text \<open>Later rows win when the map is collected.\<close>

definition list_settings :: "db \<Rightarrow> (string \<rightharpoonup> string)" where
  "list_settings s = map_of (rev (map (\<lambda>x. (se_key x, se_value x)) (dashboard_settings s)))"

section \<open>The audit trail\<close>

definition AUDIT_ACCESS_WRITE :: string where "AUDIT_ACCESS_WRITE = ''write''"
definition AUDIT_ACCESS_READ :: string where "AUDIT_ACCESS_READ = ''read''"

record audit_cutoffs =
  writes_before_ms :: millis
  reads_before_ms :: millis

definition uniform_cutoffs :: "millis \<Rightarrow> audit_cutoffs" where
  "uniform_cutoffs t = \<lparr>writes_before_ms = t, reads_before_ms = t\<rparr>"

record audit_filter =
  af_token_id :: "string option"
  af_principal_kind :: "string option"
  af_target_kind :: "string option"
  af_target :: "string option"
  af_since_ms :: "millis option"
  af_until_ms :: "millis option"

text \<open>\<open>AuditFilter::matches\<close>, the reference the query languages are held to.\<close>

definition audit_field :: "string option \<Rightarrow> string option \<Rightarrow> bool" where
  "audit_field want have_field = (case want of None \<Rightarrow> True | Some w \<Rightarrow> have_field = Some w)"

definition audit_matches :: "audit_filter \<Rightarrow> audit_row \<Rightarrow> bool" where
  "audit_matches f r \<longleftrightarrow>
     audit_field (af_token_id f) (Some (au_token_id r))
     \<and> audit_field (af_principal_kind f) (Some (au_principal_kind r))
     \<and> audit_field (af_target_kind f) (au_target_kind r)
     \<and> audit_field (af_target f) (au_target r)
     \<and> (case af_since_ms f of None \<Rightarrow> True | Some t \<Rightarrow> t \<le> au_at_ms r)
     \<and> (case af_until_ms f of None \<Rightarrow> True | Some t \<Rightarrow> au_at_ms r < t)"

definition insert_audit :: "audit_row \<Rightarrow> db \<Rightarrow> db" where
  "insert_audit r s =
     (if \<exists>x\<in>set (audit_log s). au_id x = au_id r then s else s\<lparr>audit_log := audit_log s @ [r]\<rparr>)"

definition append_audit :: "audit_row list \<Rightarrow> unit op" where
  "append_audit rs s =
     (if rs = [] then (s, Inr ())
      else write_transaction (\<lambda>s. Inr (fold insert_audit rs s, ())) s)"

text \<open>The boxed query, one filter after the other as the code adds them.\<close>

definition list_audit_after ::
  "string \<Rightarrow> audit_filter \<Rightarrow> int \<Rightarrow> (millis \<times> string) option \<Rightarrow> db \<Rightarrow> audit_row list" where
  "list_audit_after ns f lim after s =
     (if lim \<le> 0 then []
      else (let q0 = filter (\<lambda>r. au_namespace r = ns) (audit_log s);
                q1 = (case after of None \<Rightarrow> q0
                      | Some (at, i) \<Rightarrow> filter (\<lambda>r. au_at_ms r < at \<or> au_at_ms r = at \<and> au_id r < i) q0);
                q2 = (case af_token_id f of None \<Rightarrow> q1 | Some t \<Rightarrow> filter (\<lambda>r. au_token_id r = t) q1);
                q3 = (case af_principal_kind f of None \<Rightarrow> q2
                      | Some k \<Rightarrow> filter (\<lambda>r. au_principal_kind r = k) q2);
                q4 = (case af_target_kind f of None \<Rightarrow> q3
                      | Some k \<Rightarrow> filter (\<lambda>r. au_target_kind r = Some k) q3);
                q5 = (case af_target f of None \<Rightarrow> q4 | Some t \<Rightarrow> filter (\<lambda>r. au_target r = Some t) q4);
                q6 = (case af_since_ms f of None \<Rightarrow> q5 | Some t \<Rightarrow> filter (\<lambda>r. t \<le> au_at_ms r) q5);
                q7 = (case af_until_ms f of None \<Rightarrow> q6 | Some t \<Rightarrow> filter (\<lambda>r. au_at_ms r < t) q6)
            in sql_limit lim (order_desc (\<lambda>r. (au_at_ms r, au_id r)) q7)))"

abbreviation put_audit :: "audit_row list \<Rightarrow> db \<Rightarrow> db" where
  "put_audit t s \<equiv> s\<lparr>audit_log := t\<rparr>"

definition audit_due :: "string \<Rightarrow> millis \<Rightarrow> string option \<Rightarrow> audit_row \<Rightarrow> bool" where
  "audit_due ns before access r \<longleftrightarrow> au_namespace r = ns \<and> au_at_ms r < before
     \<and> (case access of None \<Rightarrow> True | Some a \<Rightarrow> au_access r = a)"

definition drain_audit :: "string \<Rightarrow> millis \<Rightarrow> string option \<Rightarrow> nat op" where
  "drain_audit ns before access =
     drain_batches (purge_rows_where audit_log put_audit au_id (audit_due ns before access))"

definition purge_audit :: "string \<Rightarrow> audit_cutoffs \<Rightarrow> nat op" where
  "purge_audit ns c s =
     (case drain_audit ns (writes_before_ms c) None s of
        (s1, Inl err) \<Rightarrow> (s1, Inl err)
      | (s1, Inr n) \<Rightarrow>
          (case drain_audit ns (reads_before_ms c) (Some AUDIT_ACCESS_READ) s1 of
             (s2, Inl err) \<Rightarrow> (s2, Inl err)
           | (s2, Inr m) \<Rightarrow> (s2, Inr (n + m))))"

section \<open>Task logs, metrics and replays\<close>

definition insert_task_log :: "task_log_row \<Rightarrow> unit op" where
  "insert_task_log r s =
     (if \<exists>x\<in>set (task_logs s). tl_id x = tl_id r then (s, Inl (Storage UniqueViolation))
      else (s\<lparr>task_logs := task_logs s @ [r]\<rparr>, Inr ()))"

definition write_task_log ::
  "env \<Rightarrow> string \<Rightarrow> string \<Rightarrow> string \<Rightarrow> string \<Rightarrow> string option \<Rightarrow> string option \<Rightarrow> unit op" where
  "write_task_log e job task level message extra ns =
     insert_task_log \<lparr>tl_id = uuid e 0, tl_job_id = job, tl_task_name = task, tl_level = level,
       tl_message = message, tl_extra = extra, tl_logged_at = now_millis e, tl_namespace = ns\<rparr>"

definition get_task_logs :: "string \<Rightarrow> string option \<Rightarrow> db \<Rightarrow> task_log_row list" where
  "get_task_logs job ns s =
     sort_key tl_logged_at (filter (\<lambda>x. tl_job_id x = job \<and> in_namespace (tl_namespace x) ns) (task_logs s))"

definition get_task_logs_after :: "string \<Rightarrow> string option \<Rightarrow> string option \<Rightarrow> db \<Rightarrow> task_log_row list" where
  "get_task_logs_after job after ns s =
     sort_key tl_id (filter (\<lambda>x. tl_job_id x = job \<and> in_namespace (tl_namespace x) ns
       \<and> (case after of None \<Rightarrow> True | Some c \<Rightarrow> c < tl_id x)) (task_logs s))"

definition query_task_logs ::
  "string option \<Rightarrow> string option \<Rightarrow> millis \<Rightarrow> int \<Rightarrow> string option \<Rightarrow> db \<Rightarrow> task_log_row list" where
  "query_task_logs task level since lim ns s =
     sql_limit lim (order_desc tl_logged_at (filter (\<lambda>x. since \<le> tl_logged_at x
       \<and> (case task of None \<Rightarrow> True | Some t \<Rightarrow> tl_task_name x = t)
       \<and> (case level of None \<Rightarrow> True | Some l \<Rightarrow> tl_level x = l)
       \<and> in_namespace (tl_namespace x) ns) (task_logs s)))"

abbreviation put_task_logs :: "task_log_row list \<Rightarrow> db \<Rightarrow> db" where
  "put_task_logs t s \<equiv> s\<lparr>task_logs := t\<rparr>"

definition purge_task_logs :: "millis \<Rightarrow> nat op" where
  "purge_task_logs older =
     drain_batches (purge_rows_where task_logs put_task_logs tl_id (\<lambda>x. tl_logged_at x < older))"

definition record_metric ::
  "env \<Rightarrow> string \<Rightarrow> string \<Rightarrow> int \<Rightarrow> int \<Rightarrow> bool \<Rightarrow> string option \<Rightarrow> unit op" where
  "record_metric e task job wall mem ok ns s =
     (case insert_metric \<lparr>tm_id = uuid e 0, tm_task_name = task, tm_job_id = job,
             tm_wall_time_ns = wall, tm_memory_bytes = mem, tm_succeeded = ok,
             tm_recorded_at = now_millis e, tm_namespace = ns\<rparr> s of
        Inl err \<Rightarrow> (s, Inl err)
      | Inr s' \<Rightarrow> (s', Inr ()))"

definition get_metrics :: "string option \<Rightarrow> millis \<Rightarrow> string option \<Rightarrow> db \<Rightarrow> task_metric_row list" where
  "get_metrics name since ns s =
     order_desc tm_recorded_at (filter (\<lambda>x. since \<le> tm_recorded_at x
       \<and> (case name of None \<Rightarrow> True | Some n \<Rightarrow> tm_task_name x = n)
       \<and> in_namespace (tm_namespace x) ns) (task_metrics s))"

abbreviation put_metrics :: "task_metric_row list \<Rightarrow> db \<Rightarrow> db" where
  "put_metrics t s \<equiv> s\<lparr>task_metrics := t\<rparr>"

definition purge_metrics :: "millis \<Rightarrow> nat op" where
  "purge_metrics older =
     drain_batches (purge_rows_where task_metrics put_metrics tm_id (\<lambda>x. tm_recorded_at x < older))"

definition record_replay ::
  "env \<Rightarrow> string \<Rightarrow> string \<Rightarrow> bytes option \<Rightarrow> bytes option \<Rightarrow> string option \<Rightarrow> string option \<Rightarrow> unit op" where
  "record_replay e original replay ores rres oerr rerr s =
     (if \<exists>x\<in>set (replay_history s). rh_id x = uuid e 0 then (s, Inl (Storage UniqueViolation))
      else (s\<lparr>replay_history := replay_history s @
               [\<lparr>rh_id = uuid e 0, rh_original_job_id = original, rh_replay_job_id = replay,
                 rh_replayed_at = now_millis e, rh_original_result = ores, rh_replay_result = rres,
                 rh_original_error = oerr, rh_replay_error = rerr\<rparr>]\<rparr>, Inr ()))"

definition get_replay_history :: "string \<Rightarrow> db \<Rightarrow> replay_row list" where
  "get_replay_history original s =
     order_desc rh_replayed_at (filter (\<lambda>x. rh_original_job_id x = original) (replay_history s))"

section \<open>The archive\<close>

definition list_archived :: "int \<Rightarrow> int \<Rightarrow> string option \<Rightarrow> db \<Rightarrow> job list" where
  "list_archived lim off ns s =
     map from_narrow_archived (sql_limit lim (sql_offset off
       (order_desc completed_at (filter (\<lambda>a. in_namespace (namespace a) ns) (archived_jobs s)))))"

definition archived_past_cursor :: "(millis \<times> string) option \<Rightarrow> archived_job_row \<Rightarrow> bool" where
  "archived_past_cursor c a =
     (case c of None \<Rightarrow> True
      | Some (t, i) \<Rightarrow> (case completed_at a of None \<Rightarrow> False | Some x \<Rightarrow> x < t \<or> x = t \<and> jid a < i))"

definition list_archived_after :: "int \<Rightarrow> (millis \<times> string) option \<Rightarrow> string option \<Rightarrow> db \<Rightarrow> job list" where
  "list_archived_after lim after ns s =
     (if lim \<le> 0 then []
      else map from_narrow_archived (sql_limit lim (order_desc (\<lambda>a. (completed_at a, jid a))
        (filter (archived_past_cursor after)
          (filter (\<lambda>a. in_namespace (namespace a) ns) (archived_jobs s))))))"

definition archivable :: "millis \<Rightarrow> job_row \<Rightarrow> bool" where
  "archivable cutoff r \<longleftrightarrow>
     row_status r \<in> {status_i32 Complete, status_i32 Dead, status_i32 Cancelled}
     \<and> (case completed_at r of None \<Rightarrow> False | Some t \<Rightarrow> t < cutoff)"

definition archive_old_jobs :: "millis \<Rightarrow> nat op" where
  "archive_old_jobs cutoff = write_transaction (\<lambda>s.
     let fresh = filter (\<lambda>r. jid r \<notin> archived_ids s) (filter (archivable cutoff) (jobs s))
     in Inr (s\<lparr>archived_jobs := archived_jobs s @ map archived_of_row fresh,
               jobs := delete_where (archivable cutoff) (jobs s)\<rparr>, length fresh))"

section \<open>Breaker and rate-limit rows\<close>

definition get_circuit_breaker :: "string \<Rightarrow> db \<Rightarrow> breaker_row option" where
  "get_circuit_breaker task s = find (\<lambda>x. cb_task_name x = task) (circuit_breakers s)"

definition upsert_circuit_breaker :: "breaker_row \<Rightarrow> unit op" where
  "upsert_circuit_breaker r s =
     (s\<lparr>circuit_breakers := replace_into cb_task_name r (circuit_breakers s)\<rparr>, Inr ())"

definition list_circuit_breakers :: "db \<Rightarrow> breaker_row list" where
  "list_circuit_breakers s = circuit_breakers s"

definition get_rate_limit :: "string \<Rightarrow> db \<Rightarrow> rate_limit_row option" where
  "get_rate_limit key s = find (\<lambda>x. rl_key x = key) (rate_limits s)"

definition upsert_rate_limit :: "rate_limit_row \<Rightarrow> unit op" where
  "upsert_rate_limit r s = (s\<lparr>rate_limits := replace_into rl_key r (rate_limits s)\<rparr>, Inr ())"

section \<open>The page cursor\<close>

fun split_once :: "char \<Rightarrow> string \<Rightarrow> (string \<times> string) option" where
  "split_once c [] = None"
| "split_once c (x # xs) =
     (if x = c then Some ([], xs) else map_option (\<lambda>(l, r). (x # l, r)) (split_once c xs))"

definition encode_cursor :: "int \<Rightarrow> string \<Rightarrow> string" where
  "encode_cursor k i = show_int k @ '':'' @ i"

definition decode_cursor :: "string \<Rightarrow> queue_error + (int \<times> string)" where
  "decode_cursor cursor =
     (let bad = Inl (Other (''invalid cursor: '' @ cursor))
      in (case split_once (CHR '':'') cursor of
            None \<Rightarrow> bad
          | Some (key, i) \<Rightarrow>
              (case parse_i64 key of
                 None \<Rightarrow> bad
               | Some k \<Rightarrow> if k < 0 \<or> i = [] then bad else Inr (k, i))))"

definition next_cursor :: "'r list \<Rightarrow> int \<Rightarrow> ('r \<Rightarrow> int \<times> string) \<Rightarrow> string option" where
  "next_cursor rows lim key =
     (if int (length rows) < lim then None
      else (if rows = [] then None else (let (k, i) = key (last rows) in Some (encode_cursor k i))))"

record 'r page =
  items :: "'r list"
  next_page :: "string option"

definition page_of :: "'r list \<Rightarrow> int \<Rightarrow> ('r \<Rightarrow> int \<times> string) \<Rightarrow> 'r page" where
  "page_of rows lim key = \<lparr>items = rows, next_page = next_cursor rows lim key\<rparr>"

section \<open>What the writes amount to\<close>

lemma in_queue_state_namespace_iff [simp]: "in_queue_state_namespace ns q \<longleftrightarrow> qs_namespace q = ns"
  by (auto simp: in_queue_state_namespace_def split: option.splits)

lemma in_periodic_namespace_iff [simp]: "in_periodic_namespace ns p \<longleftrightarrow> pt_namespace p = ns"
  by (auto simp: in_periodic_namespace_def split: option.splits)

lemma distinct_replace_into: "distinct (map key t) \<Longrightarrow> distinct (map key (replace_into key row t))"
  by (auto simp: replace_into_def delete_where_def distinct_map_filter)

abbreviation qs_ident :: "queue_state_row \<Rightarrow> string option \<times> string" where
  "qs_ident q \<equiv> (qs_namespace q, qs_queue_name q)"

abbreviation pt_ident :: "periodic_row \<Rightarrow> string option \<times> string" where
  "pt_ident p \<equiv> (pt_namespace p, pt_name p)"

text \<open>
  An update that inserts when it touched nothing is an upsert on the identity index, which
  Diesel cannot name; the insert never meets a row, so the retry is for other connections.
\<close>

lemma update_where_none: "\<forall>x\<in>set t. \<not> p x \<Longrightarrow> update_where p f t = t"
  by (induction t) (auto simp: update_where_def)

lemma pause_queue_once_eq:
  "pause_queue_once e name ns s =
     (s\<lparr>queue_state := upsert qs_ident
          \<lparr>qs_queue_name = name, qs_paused = True, qs_paused_at = Some (now_millis e), qs_namespace = ns\<rparr>
          (\<lambda>q. q\<lparr>qs_paused := True, qs_paused_at := Some (now_millis e)\<rparr>) (queue_state s)\<rparr>, Inr ())"
proof (cases "\<exists>q\<in>set (queue_state s). qs_ident q = (ns, name)")
  case True
  then have "count_where (\<lambda>q. qs_namespace q = ns \<and> qs_queue_name q = name) (queue_state s) \<noteq> 0"
    by (auto simp: count_where_0)
  then show ?thesis using True
    by (simp add: pause_queue_once_def write_transaction_def upsert_def)
next
  case False
  then have "count_where (\<lambda>q. qs_namespace q = ns \<and> qs_queue_name q = name) (queue_state s) = 0"
    by (auto simp: count_where_0)
  moreover have "update_where (\<lambda>q. qs_namespace q = ns \<and> qs_queue_name q = name)
      (\<lambda>q. q\<lparr>qs_paused := True, qs_paused_at := Some (now_millis e)\<rparr>) (queue_state s) = queue_state s"
    using False by (intro update_where_none) auto
  ultimately show ?thesis using False
    by (auto simp: pause_queue_once_def write_transaction_def upsert_def)
qed

lemma pause_queue_eq: "pause_queue e e' name ns s = pause_queue_once e name ns s"
  by (simp add: pause_queue_def pause_queue_once_eq)

lemma update_else_insert_eq:
  assumes "\<And>r. pt_ident (upd r) = pt_ident r"
  shows "update_else_insert upd t s =
    (s\<lparr>periodic_tasks := upsert pt_ident (new_periodic_row t) upd (periodic_tasks s)\<rparr>, Inr ())"
proof (cases "\<exists>r\<in>set (periodic_tasks s). pt_ident r = (np_namespace t, np_name t)")
  case True
  then have "count_where (\<lambda>r. pt_namespace r = np_namespace t \<and> pt_name r = np_name t) (periodic_tasks s) \<noteq> 0"
    by (auto simp: count_where_0)
  then show ?thesis using True
    by (simp add: update_else_insert_def write_transaction_def upsert_def new_periodic_row_def)
next
  case False
  then have "count_where (\<lambda>r. pt_namespace r = np_namespace t \<and> pt_name r = np_name t) (periodic_tasks s) = 0"
    by (auto simp: count_where_0)
  moreover have "update_where (\<lambda>r. pt_namespace r = np_namespace t \<and> pt_name r = np_name t) upd
      (periodic_tasks s) = periodic_tasks s"
    using False by (intro update_where_none) auto
  ultimately show ?thesis using False
    by (auto simp: update_else_insert_def write_transaction_def upsert_def new_periodic_row_def
        insert_periodic_def)
qed

lemma register_periodic_once_eq:
  "register_periodic_once t s =
     (s\<lparr>periodic_tasks := upsert pt_ident (new_periodic_row t)
        (\<lambda>r. r\<lparr>pt_task_name := np_task_name t, pt_cron_expr := np_cron_expr t, pt_args := np_args t,
               pt_kwargs := np_kwargs t, pt_queue := np_queue t, pt_enabled := np_enabled t,
               pt_next_run := np_next_run t, pt_timezone := np_timezone t\<rparr>) (periodic_tasks s)\<rparr>, Inr ())"
  unfolding register_periodic_once_def by (rule update_else_insert_eq) simp

lemma declare_periodic_once_eq:
  "declare_periodic_once t s =
     (s\<lparr>periodic_tasks := upsert pt_ident (new_periodic_row t)
        (\<lambda>r. r\<lparr>pt_task_name := np_task_name t, pt_cron_expr := np_cron_expr t, pt_args := np_args t,
               pt_kwargs := np_kwargs t, pt_queue := np_queue t, pt_timezone := np_timezone t,
               pt_next_run := (if periodic_schedule_changed t r then np_next_run t else pt_next_run r)\<rparr>)
        (periodic_tasks s)\<rparr>, Inr ())"
  unfolding declare_periodic_once_def by (rule update_else_insert_eq) simp

lemma registration_eq:
  "register_periodic t s = (case ensure_kwargs_unset t of Inl err \<Rightarrow> (s, Inl err)
     | Inr _ \<Rightarrow> register_periodic_once t s)"
  "declare_periodic t s = (case ensure_kwargs_unset t of Inl err \<Rightarrow> (s, Inl err)
     | Inr _ \<Rightarrow> declare_periodic_once t s)"
  by (simp_all add: register_periodic_def declare_periodic_def with_registration_retry_def
      register_periodic_once_eq declare_periodic_once_eq split: sum.splits)

section \<open>The invariant of the registries\<close>

lemma registry_upserts_keep:
  assumes ok: "db_ok s"
  shows "db_ok (fst (pause_queue e e' name ns s))" and "db_ok (fst (resume_queue name ns s))"
    and "db_ok (fst (register_periodic t s))" and "db_ok (fst (declare_periodic t s))"
    and "db_ok (fst (set_setting e key v s))"
proof -
  show "db_ok (fst (pause_queue e e' name ns s))"
    using db_ok_registryD(1) [OF ok]
    by (auto simp: pause_queue_eq pause_queue_once_eq intro!: db_ok_registryI [OF ok] distinct_upsert)
  show "db_ok (fst (resume_queue name ns s))"
    using db_ok_registryD(1) [OF ok]
    by (auto simp: resume_queue_def intro!: db_ok_registryI [OF ok] distinct_map_delete_where)
  show "db_ok (fst (register_periodic t s))" "db_ok (fst (declare_periodic t s))"
    using db_ok_registryD(3) [OF ok] ok
    by (auto simp: registration_eq register_periodic_once_eq declare_periodic_once_eq split: sum.splits
        intro!: db_ok_registryI [OF ok] distinct_upsert)
  show "db_ok (fst (set_setting e key v s))"
    using db_ok_registryD(8) [OF ok]
    by (auto simp: set_setting_def intro!: db_ok_registryI [OF ok] distinct_upsert)
qed

lemma worker_ops_keep:
  assumes ok: "db_ok s"
  shows "db_ok (fst (register_worker e r s))" and "db_ok (fst (heartbeat e w h s))"
    and "db_ok (fst (request_worker_drain w ns s))" and "db_ok (fst (update_worker_status w st s))"
    and "db_ok (fst (reap_dead_workers e s))" and "db_ok (fst (unregister_worker w s))"
  using db_ok_registryD(2) [OF ok] ok
  by (auto simp: register_worker_def heartbeat_def request_worker_drain_def update_worker_status_def
      reap_dead_workers_def unregister_worker_def Let_def map_key_update_where
      intro!: db_ok_registryI(2) [OF ok] distinct_replace_into distinct_map_delete_where)

lemma periodic_ops_keep:
  assumes ok: "db_ok s"
  shows "db_ok (fst (update_periodic_schedule name l n ns s))" and "db_ok (fst (delete_periodic name ns s))"
    and "db_ok (fst (set_periodic_enabled name en ns s))"
  using db_ok_registryD(3) [OF ok] ok
  by (auto simp: update_periodic_schedule_def delete_periodic_def set_periodic_enabled_def Let_def
      map_key_update_where intro!: db_ok_registryI(3) [OF ok] distinct_map_delete_where)

lemma setting_ops_keep:
  assumes ok: "db_ok s"
  shows "db_ok (fst (set_setting_if e key x v s))" and "db_ok (fst (delete_setting key s))"
  using db_ok_registryD(8) [OF ok] ok
  by (auto simp: set_setting_if_def delete_setting_def Let_def map_key_update_where split: option.splits
      intro!: db_ok_registryI(8) [OF ok] distinct_map_delete_where)

lemma breaker_rows_keep:
  assumes ok: "db_ok s"
  shows "db_ok (fst (upsert_circuit_breaker b s))" and "db_ok (fst (upsert_rate_limit l s))"
  using db_ok_registryD(10,11) [OF ok]
  by (auto simp: upsert_circuit_breaker_def upsert_rate_limit_def
      intro!: db_ok_registryI [OF ok] distinct_replace_into)

lemma db_ok_logs [simp]:
  "db_ok (s\<lparr>task_logs := l\<rparr>) = db_ok s" "db_ok (s\<lparr>task_metrics := m\<rparr>) = db_ok s"
  "db_ok (s\<lparr>replay_history := h\<rparr>) = db_ok s"
  by (simp_all add: db_ok_def ok_defs steps_ok_def steps_of_def unique_ok_def)

lemma log_ops_keep:
  "db_ok s \<Longrightarrow> db_ok (fst (write_task_log e job task level msg extra ns s))"
  "db_ok s \<Longrightarrow> db_ok (fst (record_metric e task job wall mem succ ns s))"
  "db_ok s \<Longrightarrow> db_ok (fst (record_replay e orig repl ores rres oerr rerr s))"
  by (auto simp: write_task_log_def insert_task_log_def record_metric_def insert_metric_def record_replay_def)

text \<open>No live row carries a terminal status, so there is nothing left for \<open>archive_old_jobs\<close> to move.\<close>

lemma not_archivable: "row_ok r \<Longrightarrow> \<not> archivable cutoff r"
  by (auto simp: row_ok_def archivable_def)

lemma archive_old_jobs_idle:
  assumes "db_ok s"
  shows "archive_old_jobs cutoff s = (s, Inr 0)"
proof -
  have "\<forall>r\<in>set (jobs s). \<not> archivable cutoff r"
    using assms not_archivable by (auto simp: ok_defs)
  then have "filter (archivable cutoff) (jobs s) = []" "delete_where (archivable cutoff) (jobs s) = jobs s"
    by (simp_all add: filter_empty_conv delete_where_def filter_id_conv)
  then show ?thesis by (simp add: archive_old_jobs_def write_transaction_def del: filter_filter)
qed

section \<open>The contracts the registries provide\<close>

interpretation worker_status_codec: enum_codec worker_status_str worker_status_parse
  by unfold_locales (auto simp: worker_status_str_def worker_status_parse_def split: worker_status.splits if_splits)

interpretation audit_table: purged_table db_ok audit_log put_audit au_id
proof
  show "distinct (map au_id (audit_log s))" if "db_ok s" for s by (rule db_ok_registryD(9) [OF that])
  then show "db_ok (put_audit (delete_where p (audit_log s)) s)" if "db_ok s" for s p
    using that by (intro db_ok_registryI(9) distinct_map_delete_where)
qed simp_all

text \<open>The log tables have only their primary key, beside the invariant the sweeps keep.\<close>

abbreviation logs_ok :: "db \<Rightarrow> bool" where
  "logs_ok s \<equiv> distinct (map tl_id (task_logs s)) \<and> distinct (map tm_id (task_metrics s))
     \<and> distinct (map je_id (job_errors s))"

interpretation log_table: purged_table logs_ok task_logs put_task_logs tl_id
  by unfold_locales (simp_all add: distinct_map_delete_where)

interpretation metric_table: purged_table logs_ok task_metrics put_metrics tm_id
  by unfold_locales (simp_all add: distinct_map_delete_where)

lemma drain_audit_total:
  assumes "db_ok s" and "p = audit_due ns before access"
  shows "\<exists>s'. drain_audit ns before access s = (s', Inr (min 100000 (length (filter p (audit_log s)))))
    \<and> filter p (audit_log s') = drop 100000 (filter p (audit_log s))
    \<and> (filter (\<lambda>r. \<not> p r) (audit_log s'), put_audit [] s') = (filter (\<lambda>r. \<not> p r) (audit_log s), put_audit [] s)
    \<and> db_ok s'"
  unfolding drain_audit_def assms(2) by (rule audit_table.purge.drain_total [OF assms(1)])

lemma insert_audit_keeps: "db_ok s \<Longrightarrow> db_ok (insert_audit r s)"
  using db_ok_registryD(9) [of s] by (auto simp: insert_audit_def intro!: db_ok_registryI(9)) blast

lemma fold_insert_audit_keeps: "db_ok s \<Longrightarrow> db_ok (fold insert_audit rs s)"
  by (induction rs arbitrary: s) (simp_all add: insert_audit_keeps)

lemma audit_ops_keep:
  assumes "db_ok s"
  shows "db_ok (fst (append_audit rs s))" and "db_ok (fst (purge_audit ns c s))"
proof -
  show "db_ok (fst (append_audit rs s))"
    using assms by (simp add: append_audit_def write_transaction_def fold_insert_audit_keeps)
  obtain s1 n where s1: "drain_audit ns (writes_before_ms c) None s = (s1, Inr n)" "db_ok s1"
    using drain_audit_total [OF assms refl, of ns "writes_before_ms c" None] by blast
  obtain s2 m where "drain_audit ns (reads_before_ms c) (Some AUDIT_ACCESS_READ) s1 = (s2, Inr m)" "db_ok s2"
    using drain_audit_total [OF s1(2) refl, of ns "reads_before_ms c" "Some AUDIT_ACCESS_READ"] by blast
  then show "db_ok (fst (purge_audit ns c s))" using s1 by (simp add: purge_audit_def)
qed

text \<open>The audit listing asks the filters one after the other; together they are \<open>audit_matches\<close>.\<close>

abbreviation audit_key :: "audit_row \<Rightarrow> millis \<times> string" where
  "audit_key r \<equiv> (au_at_ms r, au_id r)"

definition matching_audit :: "string \<Rightarrow> audit_filter \<Rightarrow> db \<Rightarrow> audit_row list" where
  "matching_audit ns f s = filter (\<lambda>r. au_namespace r = ns \<and> audit_matches f r) (audit_log s)"

lemma option_filter:
  "(case x of None \<Rightarrow> t | Some v \<Rightarrow> filter (p v) t) = filter (\<lambda>r. case x of None \<Rightarrow> True | Some v \<Rightarrow> p v r) t"
  by (cases x) simp_all

lemma audit_past_cursor:
  "(case after of None \<Rightarrow> t | Some (at, i) \<Rightarrow> filter (\<lambda>r. au_at_ms r < at \<or> au_at_ms r = at \<and> au_id r < i) t)
     = filter (\<lambda>r. after_cursor after (audit_key r)) t"
  by (cases after) (auto intro!: filter_cong)

lemma list_audit_after_eq:
  assumes "0 < n"
  shows "list_audit_after ns f n after s =
    take (nat n) (order_desc audit_key (filter (\<lambda>r. after_cursor after (audit_key r)) (matching_audit ns f s)))"
proof -
  have "filter (\<lambda>r. after_cursor after (audit_key r)) (matching_audit ns f s)
      = filter (\<lambda>r. case af_until_ms f of None \<Rightarrow> True | Some t \<Rightarrow> au_at_ms r < t)
       (filter (\<lambda>r. case af_since_ms f of None \<Rightarrow> True | Some t \<Rightarrow> t \<le> au_at_ms r)
       (filter (\<lambda>r. case af_target f of None \<Rightarrow> True | Some t \<Rightarrow> au_target r = Some t)
       (filter (\<lambda>r. case af_target_kind f of None \<Rightarrow> True | Some t \<Rightarrow> au_target_kind r = Some t)
       (filter (\<lambda>r. case af_principal_kind f of None \<Rightarrow> True | Some t \<Rightarrow> au_principal_kind r = t)
       (filter (\<lambda>r. case af_token_id f of None \<Rightarrow> True | Some t \<Rightarrow> au_token_id r = t)
       (filter (\<lambda>r. after_cursor after (audit_key r)) (filter (\<lambda>r. au_namespace r = ns) (audit_log s))))))))"
    unfolding matching_audit_def audit_matches_def audit_field_def option.inject filter_filter
    by (rule filter_cong) auto
  then show ?thesis using assms
    by (simp only: list_audit_after_def Let_def option_filter audit_past_cursor sql_limit_def) simp
qed

interpretation audit_pages: keyset_listing db_ok "matching_audit ns f" audit_key
  "\<lambda>s n c. list_audit_after ns f n c s" for ns f
proof
  fix s :: db
  assume "db_ok s"
  then have "distinct (map au_id (matching_audit ns f s))"
    unfolding matching_audit_def by (intro distinct_map_filter db_ok_registryD)
  then show "distinct (map audit_key (matching_audit ns f s))"
    by (auto simp: distinct_map inj_on_def)
qed (rule list_audit_after_eq)

text \<open>The archive is listed by completion time, which every archived row has.\<close>

abbreviation archive_key :: "job \<Rightarrow> millis \<times> string" where
  "archive_key j \<equiv> (the (completed_at j), jid j)"

definition archive_of :: "string option \<Rightarrow> db \<Rightarrow> job list" where
  "archive_of ns s = map from_narrow_archived (filter (\<lambda>a. in_namespace (namespace a) ns) (archived_jobs s))"

lemma order_desc_mono:
  assumes "distinct (map k t)"
    and "\<And>x y. x \<in> set t \<Longrightarrow> y \<in> set t \<Longrightarrow> k x < k y \<Longrightarrow> k' x < k' y"
  shows "order_desc k t = order_desc k' t"
proof -
  have sd: "sorted_wrt (\<lambda>a b. k b < k a) (order_desc k t)" by (rule sorted_wrt_order_desc [OF assms(1)])
  then have s': "sorted_wrt (\<lambda>a b. k' b < k' a) (order_desc k t)"
    by (rule sorted_wrt_mono_rel [rotated]) (use assms(2) in simp)
  have "inj_on k' (set t)"
  proof (rule inj_onI)
    fix x y assume xy: "x \<in> set t" "y \<in> set t" "k' x = k' y"
    then have "\<not> k x < k y" "\<not> k y < k x" using assms(2) by fastforce+
    then have "k x = k y" by simp
    then show "x = y" using assms(1) xy(1,2) by (simp add: distinct_map inj_on_def)
  qed
  moreover have "distinct t" using assms(1) by (simp add: distinct_map)
  ultimately have "distinct (map k' t)" by (simp add: distinct_map)
  then have "order_desc k' t = order_desc k t" by (rule order_desc_unique [OF _ s']) simp
  then show ?thesis by simp
qed

lemma list_archived_after_eq:
  assumes ok: "db_ok s" and n: "0 < n"
  shows "list_archived_after n after ns s =
    take (nat n) (order_desc archive_key (filter (\<lambda>j. after_cursor after (archive_key j)) (archive_of ns s)))"
proof -
  let ?A = "filter (\<lambda>a. in_namespace (namespace a) ns) (archived_jobs s)"
  let ?F = "filter (\<lambda>a. after_cursor after (the (completed_at a), jid a)) ?A"
  have some: "completed_at a \<noteq> None" if "a \<in> set (archived_jobs s)" for a
    using ok that by (auto simp: db_ok_def jobs_ok_def archived_ok_def)
  have F: "filter (archived_past_cursor after) ?A = ?F"
    by (rule filter_cong) (auto simp: archived_past_cursor_def split: option.splits dest!: some)
  have d: "distinct (map jid ?F)"
    by (intro distinct_map_filter db_ok_distinct(2) [OF ok])
  have "order_desc (\<lambda>a. (completed_at a, jid a)) ?F = order_desc (\<lambda>a. (the (completed_at a), jid a)) ?F"
  proof (rule order_desc_mono)
    show "distinct (map (\<lambda>a. (completed_at a, jid a)) ?F)" using d by (auto simp: distinct_map inj_on_def)
    fix x y
    assume xy: "x \<in> set ?F" "y \<in> set ?F" "(completed_at x, jid x) < (completed_at y, jid y)"
    obtain cx cy where "completed_at x = Some cx" "completed_at y = Some cy"
      using some [of x] some [of y] xy(1,2) by auto
    then show "(the (completed_at x), jid x) < (the (completed_at y), jid y)" using xy(3) by simp
  qed
  then show ?thesis using n
    by (simp add: list_archived_after_def sql_limit_def F archive_of_def order_desc_map filter_map comp_def
        take_map del: filter_filter)
qed

interpretation archive_pages: keyset_listing db_ok "archive_of ns" archive_key
  "\<lambda>s n c. list_archived_after n c ns s" for ns
proof
  fix s :: db
  assume "db_ok s"
  then have "distinct (map jid (filter (\<lambda>a. in_namespace (namespace a) ns) (archived_jobs s)))"
    by (intro distinct_map_filter db_ok_distinct(2))
  then show "distinct (map archive_key (archive_of ns s))"
    by (auto simp: archive_of_def distinct_map inj_on_def)
qed (rule list_archived_after_eq)

lemma log_sweeps_keep:
  assumes "db_ok s"
  shows "db_ok (fst (purge_task_logs older s))" and "db_ok (fst (purge_metrics older s))"
  unfolding purge_task_logs_def purge_metrics_def
  by (rule drain_batches_keeps [OF _ assms]; simp add: rows_batch_fst)+

lemma archive_old_jobs_keeps: "db_ok s \<Longrightarrow> db_ok (fst (archive_old_jobs cutoff s))"
  by (simp add: archive_old_jobs_idle)

lemmas registry_all_keep = registry_upserts_keep worker_ops_keep periodic_ops_keep setting_ops_keep
  breaker_rows_keep log_ops_keep audit_ops_keep log_sweeps_keep archive_old_jobs_keeps

section \<open>Cursors\<close>

lemma split_once_append: "c \<notin> set xs \<Longrightarrow> split_once c (xs @ c # ys) = Some (xs, ys)"
  by (induction xs) auto

lemma colon_not_digit: "is_digit c \<Longrightarrow> c \<noteq> CHR '':''"
  by (auto simp: is_digit_def)

lemma colon_notin_show_int: "CHR '':'' \<notin> set (show_int k)"
proof -
  have "CHR '':'' \<notin> set (show_nat n)" for n
    using show_nat_digits colon_not_digit by blast
  then show ?thesis by (simp add: show_int_def)
qed

lemma decode_encode_cursor:
  assumes "in_i64 k"
  shows "decode_cursor (encode_cursor k i) =
    (if 0 \<le> k \<and> i \<noteq> [] then Inr (k, i) else Inl (Other (''invalid cursor: '' @ encode_cursor k i)))"
proof -
  have "split_once (CHR '':'') (encode_cursor k i) = Some (show_int k, i)"
    using split_once_append [OF colon_notin_show_int, of k i] by (simp add: encode_cursor_def)
  then show ?thesis using assms by (auto simp: decode_cursor_def)
qed

section \<open>Settings\<close>

lemma get_set_setting: "get_setting k' (fst (set_setting e k v s)) = (if k' = k then Some v else get_setting k' s)"
proof -
  let ?row = "\<lparr>se_key = k, se_value = v, se_updated_at = now_millis e\<rparr>"
  let ?upd = "\<lambda>x. x\<lparr>se_value := v, se_updated_at := now_millis e\<rparr> :: setting_row"
  have "find (\<lambda>x. se_key x = k) (upsert se_key ?row ?upd (dashboard_settings s))
      = Some (case find (\<lambda>x. se_key x = k) (dashboard_settings s) of None \<Rightarrow> ?row | Some x \<Rightarrow> ?upd x)"
    using find_upsert [of se_key ?upd ?row "dashboard_settings s"] by simp
  moreover have "find (\<lambda>x. se_key x = k') (upsert se_key ?row ?upd (dashboard_settings s))
      = find (\<lambda>x. se_key x = k') (dashboard_settings s)" if "k' \<noteq> k"
    using that by (intro find_upsert_other) simp_all
  ultimately show ?thesis by (auto simp: get_setting_def set_setting_def split: option.splits)
qed

lemma get_setting_update:
  "get_setting k' (s\<lparr>dashboard_settings := update_where (\<lambda>x. se_key x = k \<and> se_value x = old)
      (\<lambda>x. x\<lparr>se_value := v, se_updated_at := now\<rparr>) (dashboard_settings s)\<rparr>)
    = (if k' = k \<and> get_setting k s = Some old then Some v else get_setting k' s)"
proof -
  have "map_option se_value (find (\<lambda>x. se_key x = k') (update_where (\<lambda>x. se_key x = k \<and> se_value x = old)
      (\<lambda>x. x\<lparr>se_value := v, se_updated_at := now\<rparr>) t))
    = (if k' = k \<and> map_option se_value (find (\<lambda>x. se_key x = k) t) = Some old then Some v
       else map_option se_value (find (\<lambda>x. se_key x = k') t))" for t :: "setting_row list"
    by (induction t) (auto simp: update_where_def)
  from this [of "dashboard_settings s"] show ?thesis
    unfolding get_setting_def by (simp split del: if_split del: map_option_eq_Some)
qed

lemma setting_row_iff:
  assumes "db_ok s"
  shows "(\<exists>x\<in>set (dashboard_settings s). se_key x = k \<and> se_value x = v) \<longleftrightarrow> get_setting k s = Some v"
proof -
  have "(\<exists>x\<in>set t. se_key x = k \<and> se_value x = v) \<longleftrightarrow> map_option se_value (find (\<lambda>x. se_key x = k) t) = Some v"
    if "distinct (map se_key t)" for t
    using that by (induction t) (auto simp: image_iff)
  then show ?thesis using db_ok_registryD(8) [OF assms] by (simp add: get_setting_def)
qed

lemma get_setting_None: "get_setting k s = None \<longleftrightarrow> (\<forall>x\<in>set (dashboard_settings s). se_key x \<noteq> k)"
  by (auto simp: get_setting_def find_None_iff)

section \<open>Properties\<close>

text \<open>
  A conditional write of a setting is a compare-and-swap: it reports success exactly when
  the setting held the expected value (\<open>None\<close> expects an unset key), a success makes the new
  value the setting's, a failure changes no setting, and no other key is touched.
\<close>

theorem set_setting_if_cas:
  assumes "db_ok s"
  shows "snd (set_setting_if e k expected v s) = Inr (get_setting k s = expected)
    \<and> get_setting k' (fst (set_setting_if e k expected v s))
        = (if k' = k \<and> get_setting k s = expected then Some v else get_setting k' s)"
proof (cases expected)
  case None
  show ?thesis
  proof (cases "get_setting k s = None")
    case True
    then have "set_setting_if e k None v s = (fst (set_setting e k v s), Inr True)"
      unfolding get_setting_None by (auto simp: set_setting_if_def set_setting_def upsert_def)
    then show ?thesis using True None by (simp add: get_set_setting)
  next
    case False
    then have "set_setting_if e k None v s = (s, Inr False)"
      unfolding get_setting_None by (auto simp: set_setting_if_def)
    then show ?thesis using False None by simp
  qed
next
  case (Some old)
  have "0 < count_where (\<lambda>x. se_key x = k \<and> se_value x = old) (dashboard_settings s) \<longleftrightarrow> get_setting k s = expected"
    using setting_row_iff [OF assms(1), of k old] Some
    by (auto simp: count_where_def filter_empty_conv)
  then show ?thesis using Some
    by (auto simp: set_setting_if_def get_setting_update)
qed

theorem set_setting_if_cas_witness:
  "snd (set_setting_if (plain_env 5) ''a'' None ''1'' empty_db) = Inr True
   \<and> get_setting ''a'' (fst (set_setting_if (plain_env 5) ''a'' None ''1'' empty_db)) = Some ''1''"
  using set_setting_if_cas [OF db_ok_empty, of "plain_env 5" "''a''" None "''1''" "''a''"]
  by (simp add: get_setting_def empty_db_def)

text \<open>
  Declaring a schedule never overrides the operator or the scheduler. A declaration without
  the reserved \<open>kwargs\<close> always succeeds; an existing row of its namespace and name takes the
  declared task, arguments, queue and schedule, and keeps its pause flag, its last firing and,
  unless the cron expression or the time zone changed, its next firing; a missing row is
  inserted whole; every other schedule, also one of the same name in another namespace, stays.
\<close>

theorem declare_periodic_respects_operator:
  assumes "np_kwargs t = None"
    and "find (\<lambda>p. pt_ident p = (np_namespace t, np_name t)) (periodic_tasks s) = found"
  shows "\<exists>s' r'. declare_periodic t s = (s', Inr ())
    \<and> find (\<lambda>p. pt_ident p = (np_namespace t, np_name t)) (periodic_tasks s') = Some r'
    \<and> (pt_task_name r', pt_args r', pt_queue r', pt_cron_expr r', pt_timezone r')
        = (np_task_name t, np_args t, np_queue t, np_cron_expr t, np_timezone t)
    \<and> (case found of
         None \<Rightarrow> (pt_enabled r', pt_last_run r', pt_next_run r') = (np_enabled t, None, np_next_run t)
       | Some r \<Rightarrow> (pt_enabled r', pt_last_run r') = (pt_enabled r, pt_last_run r)
           \<and> pt_next_run r' = (if pt_cron_expr r = np_cron_expr t \<and> pt_timezone r = np_timezone t
                              then pt_next_run r else np_next_run t))
    \<and> (\<forall>k. k \<noteq> (np_namespace t, np_name t) \<longrightarrow>
         find (\<lambda>p. pt_ident p = k) (periodic_tasks s') = find (\<lambda>p. pt_ident p = k) (periodic_tasks s))
    \<and> jobs s' = jobs s"
proof -
  let ?row = "new_periodic_row t"
  let ?upd = "\<lambda>r. r\<lparr>pt_task_name := np_task_name t, pt_cron_expr := np_cron_expr t, pt_args := np_args t,
    pt_kwargs := np_kwargs t, pt_queue := np_queue t, pt_timezone := np_timezone t,
    pt_next_run := (if periodic_schedule_changed t r then np_next_run t else pt_next_run r)\<rparr>"
  define t' where "t' = upsert pt_ident ?row ?upd (periodic_tasks s)"
  define r' where "r' = (case found of None \<Rightarrow> ?row | Some x \<Rightarrow> ?upd x)"
  have run: "declare_periodic t s = (s\<lparr>periodic_tasks := t'\<rparr>, Inr ())"
    using assms(1) by (simp add: registration_eq ensure_kwargs_unset_def declare_periodic_once_eq t'_def)
  have key: "pt_ident ?row = (np_namespace t, np_name t)" by (simp add: new_periodic_row_def)
  have hit: "find (\<lambda>p. pt_ident p = (np_namespace t, np_name t)) t' = Some r'"
    using find_upsert [of pt_ident ?upd ?row "periodic_tasks s"] assms(2)
    unfolding key t'_def r'_def by simp
  have miss: "find (\<lambda>p. pt_ident p = k) t' = find (\<lambda>p. pt_ident p = k) (periodic_tasks s)"
    if "k \<noteq> (np_namespace t, np_name t)" for k
    using that unfolding key [symmetric] t'_def by (intro find_upsert_other) simp_all
  have chg: "periodic_schedule_changed t r \<longleftrightarrow> \<not> (pt_cron_expr r = np_cron_expr t \<and> pt_timezone r = np_timezone t)" for r
    by (auto simp: periodic_schedule_changed_def split: option.splits)
  have cols: "(pt_task_name r', pt_args r', pt_queue r', pt_cron_expr r', pt_timezone r')
      = (np_task_name t, np_args t, np_queue t, np_cron_expr t, np_timezone t)"
    by (simp add: r'_def new_periodic_row_def split: option.splits)
  have kept: "case found of
       None \<Rightarrow> (pt_enabled r', pt_last_run r', pt_next_run r') = (np_enabled t, None, np_next_run t)
     | Some r \<Rightarrow> (pt_enabled r', pt_last_run r') = (pt_enabled r, pt_last_run r)
         \<and> pt_next_run r' = (if pt_cron_expr r = np_cron_expr t \<and> pt_timezone r = np_timezone t
                            then pt_next_run r else np_next_run t)"
    by (simp add: r'_def new_periodic_row_def chg split: option.splits)
  show ?thesis unfolding run
    by (intro exI [of _ "s\<lparr>periodic_tasks := t'\<rparr>"] exI [of _ r'] conjI refl cols kept)
      (use hit miss in simp_all)
qed

definition nightly :: new_periodic_task where
  "nightly = \<lparr>np_name = ''nightly'', np_task_name = ''report'', np_cron_expr = ''0 0 0 * * *'',
     np_args = None, np_kwargs = None, np_queue = ''default'', np_enabled = True, np_next_run = 900,
     np_timezone = None, np_namespace = None\<rparr>"

definition paused_nightly_db :: db where
  "paused_nightly_db = empty_db\<lparr>periodic_tasks :=
     [(new_periodic_row nightly)\<lparr>pt_enabled := False, pt_last_run := Some 100, pt_next_run := 500\<rparr>]\<rparr>"

theorem declare_periodic_respects_operator_witness:
  "\<exists>s' r'. declare_periodic nightly paused_nightly_db = (s', Inr ()) \<and> \<not> pt_enabled r'
     \<and> pt_last_run r' = Some 100 \<and> pt_next_run r' = 500
     \<and> find (\<lambda>p. pt_ident p = (None, ''nightly'')) (periodic_tasks s') = Some r'"
  using declare_periodic_respects_operator [of nightly paused_nightly_db, OF _ refl]
  by (auto simp: nightly_def paused_nightly_db_def new_periodic_row_def)

text \<open>
  Page cursors are read back exactly. For every sort key of an \<open>i64\<close> column, decoding what
  was encoded gives the key and the id when the key is not negative and the id not empty, and
  is refused otherwise; the cursor of a full page is the encoded key of its last row, and a
  short or empty page has none.
\<close>

theorem cursor_round_trip:
  assumes "in_i64 k"
  shows "decode_cursor (encode_cursor k i) =
      (if 0 \<le> k \<and> i \<noteq> [] then Inr (k, i) else Inl (Other (''invalid cursor: '' @ encode_cursor k i)))
    \<and> (next_page (page_of rows lim key) =
        (if int (length rows) < lim \<or> rows = [] then None
         else Some (encode_cursor (fst (key (last rows))) (snd (key (last rows))))))"
  using decode_encode_cursor [OF assms] by (auto simp: page_of_def next_cursor_def split: prod.splits)

theorem cursor_round_trip_witness:
  "decode_cursor (encode_cursor 1720000000123 ''job-a:b'') = Inr (1720000000123, ''job-a:b'')"
  using cursor_round_trip [of 1720000000123 "''job-a:b''" "[] :: nat list" 0 "\<lambda>n. (0, [])"]
  by (simp add: i64_defs)

text \<open>
  Reaping dead workers and listing live ones agree. A reap removes exactly the workers whose
  heartbeat is older than the cutoff and reports their ids; the workers it leaves are those the
  orphan recovery lists as live at that cutoff, also one whose heartbeat is at the cutoff.
\<close>

theorem reap_splits_live:
  fixes e :: env and s :: db
  defines "cutoff \<equiv> dead_worker_cutoff (now_millis e)"
  shows "reap_dead_workers e s =
      (s\<lparr>workers := filter (\<lambda>w. cutoff \<le> wk_last_heartbeat w) (workers s)\<rparr>,
       Inr (map wk_worker_id (filter (\<lambda>w. \<not> cutoff \<le> wk_last_heartbeat w) (workers s))))
    \<and> list_live_worker_ids cutoff s = map wk_worker_id (workers (fst (reap_dead_workers e s)))"
proof -
  let ?dead = "map wk_worker_id (filter (\<lambda>w. wk_last_heartbeat w < cutoff) (workers s))"
  have del: "delete_where (\<lambda>w. wk_worker_id w \<in> set ?dead \<and> wk_last_heartbeat w < cutoff) (workers s)
      = filter (\<lambda>w. cutoff \<le> wk_last_heartbeat w) (workers s)"
    unfolding delete_where_def by (rule filter_cong) auto
  have none: "filter (\<lambda>w. cutoff \<le> wk_last_heartbeat w) (workers s) = workers s" if "?dead = []"
    using that by (auto simp: filter_empty_conv filter_id_conv not_less)
  have "reap_dead_workers e s =
      (s\<lparr>workers := filter (\<lambda>w. cutoff \<le> wk_last_heartbeat w) (workers s)\<rparr>, Inr ?dead)"
    using del none by (simp add: reap_dead_workers_def Let_def cutoff_def [symmetric] del: map_is_Nil_conv)
  then show ?thesis by (simp add: list_live_worker_ids_def not_le)
qed

text \<open>Pausing and resuming act on one namespace: the paused queues of every other one stay.\<close>

lemma in_paused: "n \<in> set (list_paused_queues ns s) \<longleftrightarrow> (\<exists>q\<in>set (queue_state s). qs_ident q = (ns, n) \<and> qs_paused q)"
  by (auto simp: list_paused_queues_def)

lemma bex_upsert:
  assumes "\<And>x. key (upd x) = key x"
  shows "(\<exists>x\<in>set (upsert key row upd t). key x = k \<and> P x) \<longleftrightarrow>
    (if k = key row then (\<exists>x\<in>set t. key x = k \<and> P (upd x)) \<or> (\<forall>x\<in>set t. key x \<noteq> k) \<and> P row
     else (\<exists>x\<in>set t. key x = k \<and> P x))"
proof (cases "\<exists>x\<in>set t. key x = key row")
  case True
  then show ?thesis using assms by (auto simp: upsert_def update_where_def simp del: if_image_distrib)
next
  case False
  then show ?thesis by (auto simp: upsert_def)
qed

lemma paused_after_pause:
  "n \<in> set (list_paused_queues ns' (fst (pause_queue e e' name ns s))) \<longleftrightarrow>
     (ns', n) = (ns, name) \<or> n \<in> set (list_paused_queues ns' s)"
proof -
  have "(\<exists>q\<in>set (upsert qs_ident
        \<lparr>qs_queue_name = name, qs_paused = True, qs_paused_at = Some (now_millis e), qs_namespace = ns\<rparr>
        (\<lambda>q. q\<lparr>qs_paused := True, qs_paused_at := Some (now_millis e)\<rparr>) (queue_state s)).
      qs_ident q = (ns', n) \<and> qs_paused q)
    \<longleftrightarrow> (ns', n) = (ns, name) \<or> (\<exists>q\<in>set (queue_state s). qs_ident q = (ns', n) \<and> qs_paused q)"
    by (subst bex_upsert) auto
  then show ?thesis unfolding in_paused pause_queue_eq pause_queue_once_eq by simp
qed

lemma paused_after_resume:
  "set (list_paused_queues ns' (fst (resume_queue name ns s))) =
     (if ns' = ns then set (list_paused_queues ns s) - {name} else set (list_paused_queues ns' s))"
  by (auto simp: list_paused_queues_def resume_queue_def delete_where_def)

text \<open>
  Purging the trail of a namespace: every record before the writes cutoff goes, reads also
  before the reads cutoff, and nothing else, so a read never outlives a write of its age.
\<close>

lemma purge_audit_exact:
  assumes "db_ok s"
    and "length (filter (audit_due ns (writes_before_ms c) None) (audit_log s)) \<le> 100000"
    and "length (filter (audit_due ns (reads_before_ms c) (Some AUDIT_ACCESS_READ)) (audit_log s)) \<le> 100000"
  shows "audit_log (fst (purge_audit ns c s)) =
    filter (\<lambda>r. \<not> (au_namespace r = ns \<and> (au_at_ms r < writes_before_ms c
       \<or> au_access r = AUDIT_ACCESS_READ \<and> au_at_ms r < reads_before_ms c))) (audit_log s)"
proof -
  let ?w = "audit_due ns (writes_before_ms c) None"
  let ?r = "audit_due ns (reads_before_ms c) (Some AUDIT_ACCESS_READ)"
  obtain s1 n where s1: "drain_audit ns (writes_before_ms c) None s = (s1, Inr n)"
    "filter ?w (audit_log s1) = []" "filter (\<lambda>x. \<not> ?w x) (audit_log s1) = filter (\<lambda>x. \<not> ?w x) (audit_log s)" "db_ok s1"
    using drain_audit_total [OF assms(1) refl, of ns "writes_before_ms c" None] assms(2) by auto
  have a1: "audit_log s1 = filter (\<lambda>x. \<not> ?w x) (audit_log s)"
    using filter_Nil_partition [OF s1(2)] s1(3) by simp
  have "length (filter ?r (filter (\<lambda>x. \<not> ?w x) t)) \<le> length (filter ?r t)" for t
    by (induction t) auto
  from this [of "audit_log s"] have le: "length (filter ?r (audit_log s1)) \<le> 100000"
    using assms(3) unfolding a1 by linarith
  obtain s2 m where s2: "drain_audit ns (reads_before_ms c) (Some AUDIT_ACCESS_READ) s1 = (s2, Inr m)"
    "filter ?r (audit_log s2) = []" "filter (\<lambda>x. \<not> ?r x) (audit_log s2) = filter (\<lambda>x. \<not> ?r x) (audit_log s1)"
    using drain_audit_total [OF s1(4) refl, of ns "reads_before_ms c" "Some AUDIT_ACCESS_READ"] le by auto
  have "audit_log s2 = filter (\<lambda>x. \<not> ?r x) (audit_log s1)"
    using filter_Nil_partition [OF s2(2)] s2(3) by simp
  moreover have "fst (purge_audit ns c s) = s2" using s1(1) s2(1) by (simp add: purge_audit_def)
  ultimately show ?thesis unfolding a1 by (auto simp: audit_due_def intro!: filter_cong)
qed

end
