(* ===== verification/Retention.thy ===== *)
theory Retention
  imports Registry Pubsub "HOL-Library.Sublist"
begin

text \<open>
  Retention windows (\<open>scheduler/retention.rs\<close>, \<open>scheduler/retention_override.rs\<close>), the
  read-only dry run (\<open>storage/diesel_common/retention.rs\<close>), the leader election
  (\<open>try_lead\<close> of \<open>storage/mod.rs\<close>) and the cleanup sweep of the scheduler
  (\<open>auto_cleanup\<close> of \<open>scheduler/maintenance.rs\<close>). The \<open>serde_json\<close> codecs of the stored
  documents are arguments.
\<close>

section \<open>Windows and cutoffs\<close>

definition DAY_MS :: millis where "DAY_MS = 86400000"

definition DEFAULT_NAMESPACE :: string where "DEFAULT_NAMESPACE = ''default''"

definition RETENTION_SETTING_PREFIX :: string where "RETENTION_SETTING_PREFIX = ''retention:effective:''"

definition DEFAULT_ARCHIVED_JOBS_TTL_MS :: millis where "DEFAULT_ARCHIVED_JOBS_TTL_MS = 7 * DAY_MS"
definition DEFAULT_DEAD_LETTER_TTL_MS :: millis where "DEFAULT_DEAD_LETTER_TTL_MS = 30 * DAY_MS"
definition DEFAULT_TASK_LOGS_TTL_MS :: millis where "DEFAULT_TASK_LOGS_TTL_MS = 3 * DAY_MS"
definition DEFAULT_TASK_METRICS_TTL_MS :: millis where "DEFAULT_TASK_METRICS_TTL_MS = 7 * DAY_MS"
definition DEFAULT_JOB_ERRORS_TTL_MS :: millis where "DEFAULT_JOB_ERRORS_TTL_MS = 7 * DAY_MS"

record retention_config =
  archived_jobs_ttl_ms :: "millis option"
  dead_letter_ttl_ms :: "millis option"
  task_logs_ttl_ms :: "millis option"
  task_metrics_ttl_ms :: "millis option"
  job_errors_ttl_ms :: "millis option"

definition default_retention :: retention_config where
  "default_retention = \<lparr>archived_jobs_ttl_ms = None, dead_letter_ttl_ms = None, task_logs_ttl_ms = None,
     task_metrics_ttl_ms = None, job_errors_ttl_ms = None\<rparr>"

definition uniform_retention :: "millis \<Rightarrow> retention_config" where
  "uniform_retention ttl = \<lparr>archived_jobs_ttl_ms = Some ttl, dead_letter_ttl_ms = Some ttl,
     task_logs_ttl_ms = Some ttl, task_metrics_ttl_ms = Some ttl, job_errors_ttl_ms = Some ttl\<rparr>"

definition recommended :: retention_config where
  "recommended = \<lparr>archived_jobs_ttl_ms = Some DEFAULT_ARCHIVED_JOBS_TTL_MS,
     dead_letter_ttl_ms = Some DEFAULT_DEAD_LETTER_TTL_MS,
     task_logs_ttl_ms = Some DEFAULT_TASK_LOGS_TTL_MS,
     task_metrics_ttl_ms = Some DEFAULT_TASK_METRICS_TTL_MS,
     job_errors_ttl_ms = Some DEFAULT_JOB_ERRORS_TTL_MS\<rparr>"

definition retention_is_empty :: "retention_config \<Rightarrow> bool" where
  "retention_is_empty r \<longleftrightarrow> r = default_retention"

definition keep_window :: "millis option \<Rightarrow> millis option" where
  "keep_window ttl = (case ttl of Some t \<Rightarrow> if t \<ge> 0 then Some t else None | None \<Rightarrow> None)"

definition sanitized :: "retention_config \<Rightarrow> retention_config" where
  "sanitized r = \<lparr>archived_jobs_ttl_ms = keep_window (archived_jobs_ttl_ms r),
     dead_letter_ttl_ms = keep_window (dead_letter_ttl_ms r),
     task_logs_ttl_ms = keep_window (task_logs_ttl_ms r),
     task_metrics_ttl_ms = keep_window (task_metrics_ttl_ms r),
     job_errors_ttl_ms = keep_window (job_errors_ttl_ms r)\<rparr>"

record retention_cutoffs =
  rc_archived_jobs :: "millis option"
  rc_dead_letter :: "millis option"
  rc_task_logs :: "millis option"
  rc_task_metrics :: "millis option"
  rc_job_errors :: "millis option"

definition cutoff_at :: "millis \<Rightarrow> millis option \<Rightarrow> millis option" where
  "cutoff_at now ttl = map_option (\<lambda>t. saturating_sub now t) ttl"

definition cutoffs :: "retention_config \<Rightarrow> millis \<Rightarrow> retention_cutoffs" where
  "cutoffs r now =
     (let s = sanitized r
      in \<lparr>rc_archived_jobs = cutoff_at now (archived_jobs_ttl_ms s),
          rc_dead_letter = cutoff_at now (dead_letter_ttl_ms s),
          rc_task_logs = cutoff_at now (task_logs_ttl_ms s),
          rc_task_metrics = cutoff_at now (task_metrics_ttl_ms s),
          rc_job_errors = cutoff_at now (job_errors_ttl_ms s)\<rparr>)"

definition resolve_effective_retention :: "retention_config option \<Rightarrow> millis option \<Rightarrow> retention_config" where
  "resolve_effective_retention r ttl =
     (case r of
        Some c \<Rightarrow> sanitized c
      | None \<Rightarrow> (case ttl of
          Some t \<Rightarrow> if t \<ge> 0 then uniform_retention t else default_retention
        | None \<Rightarrow> recommended))"

definition is_retention_defaulted :: "retention_config option \<Rightarrow> millis option \<Rightarrow> bool" where
  "is_retention_defaulted r ttl \<longleftrightarrow> r = None \<and> ttl = None"

section \<open>The dry run\<close>

record retention_counts =
  rn_archived_jobs :: nat
  rn_dead_letter :: nat
  rn_task_logs :: nat
  rn_task_metrics :: nat
  rn_job_errors :: nat

definition counts_total :: "retention_counts \<Rightarrow> nat" where
  "counts_total c = rn_archived_jobs c + rn_dead_letter c + rn_task_logs c + rn_task_metrics c + rn_job_errors c"

definition count_expired_rows :: "retention_cutoffs \<Rightarrow> millis \<Rightarrow> db \<Rightarrow> retention_counts" where
  "count_expired_rows c now s =
     (let archived_global = (case rc_archived_jobs c of
            Some t \<Rightarrow> length (filter (\<lambda>a. result_ttl_ms a = None
                       \<and> (case completed_at a of Some x \<Rightarrow> x < t | None \<Rightarrow> False)) (archived_jobs s))
          | None \<Rightarrow> 0);
          archived_per_entry = length (filter (\<lambda>a. result_ttl_ms a \<noteq> None \<and> completed_at a \<noteq> None
                       \<and> the (completed_at a) + the (result_ttl_ms a) < now) (archived_jobs s));
          dead_global = (case rc_dead_letter c of
            Some t \<Rightarrow> length (filter (\<lambda>d. dl_result_ttl_ms d = None \<and> dl_failed_at d < t) (dead_letter s))
          | None \<Rightarrow> 0);
          dead_per_entry = length (filter (\<lambda>d. dl_result_ttl_ms d \<noteq> None
                       \<and> dl_failed_at d + the (dl_result_ttl_ms d) < now) (dead_letter s))
      in \<lparr>rn_archived_jobs = archived_global + archived_per_entry,
          rn_dead_letter = dead_global + dead_per_entry,
          rn_task_logs = (case rc_task_logs c of
            Some t \<Rightarrow> length (filter (\<lambda>x. tl_logged_at x < t) (task_logs s)) | None \<Rightarrow> 0),
          rn_task_metrics = (case rc_task_metrics c of
            Some t \<Rightarrow> length (filter (\<lambda>x. tm_recorded_at x < t) (task_metrics s)) | None \<Rightarrow> 0),
          rn_job_errors = (case rc_job_errors c of
            Some t \<Rightarrow> length (filter (\<lambda>x. je_failed_at x < t) (job_errors s)) | None \<Rightarrow> 0)\<rparr>)"

record retention_preview =
  rp_enabled :: bool
  rp_defaulted :: bool
  rp_namespace :: string
  rp_reference_time :: millis
  rp_windows :: retention_config
  rp_counts :: retention_counts
  rp_total :: nat

definition dry_run ::
  "retention_config option \<Rightarrow> millis option \<Rightarrow> string option \<Rightarrow> millis \<Rightarrow> db \<Rightarrow> retention_preview" where
  "dry_run r ttl ns now s =
     (let windows = resolve_effective_retention r ttl;
          counts = count_expired_rows (cutoffs windows now) now s
      in \<lparr>rp_enabled = \<not> retention_is_empty windows,
          rp_defaulted = is_retention_defaulted r ttl,
          rp_namespace = (case ns of Some n \<Rightarrow> n | None \<Rightarrow> DEFAULT_NAMESPACE),
          rp_reference_time = now, rp_windows = windows, rp_counts = counts,
          rp_total = counts_total counts\<rparr>)"

section \<open>Overrides from the dashboard\<close>

definition RETENTION_OVERRIDE_PREFIX :: string where "RETENTION_OVERRIDE_PREFIX = ''retention:override:''"

definition MIN_OVERRIDE_WINDOW_MS :: millis where "MIN_OVERRIDE_WINDOW_MS = 3600000"

datatype retention_source = Code | Dashboard

record retention_override =
  ro_source :: retention_source
  ro_windows :: retention_config
  ro_updated_at :: "millis option"

definition active_windows :: "retention_override \<Rightarrow> retention_config option" where
  "active_windows r = (if ro_source r = Dashboard then Some (sanitized (ro_windows r)) else None)"

definition windows_by_field :: "retention_config \<Rightarrow> (string \<times> millis option) list" where
  "windows_by_field w =
     [(''archived_jobs_ttl_ms'', archived_jobs_ttl_ms w), (''dead_letter_ttl_ms'', dead_letter_ttl_ms w),
      (''task_logs_ttl_ms'', task_logs_ttl_ms w), (''task_metrics_ttl_ms'', task_metrics_ttl_ms w),
      (''job_errors_ttl_ms'', job_errors_ttl_ms w)]"

text \<open>\<open>parse\<close> is the strict \<open>serde_json\<close> decoder of a request body.\<close>

fun check_windows :: "(string \<times> millis option) list \<Rightarrow> string + unit" where
  "check_windows [] = Inr ()"
| "check_windows ((field, window) # ws) =
     (case window of
        Some ms \<Rightarrow>
          if ms < MIN_OVERRIDE_WINDOW_MS
          then Inl (field @ '' must be at least '' @ show_int MIN_OVERRIDE_WINDOW_MS
                 @ '' ms (one hour), or null to keep the table forever'')
          else check_windows ws
      | None \<Rightarrow> check_windows ws)"

definition from_request_json ::
  "(string \<Rightarrow> string + (retention_source \<times> retention_config)) \<Rightarrow> string \<Rightarrow> millis \<Rightarrow> string + retention_override" where
  "from_request_json parse body now =
     (case parse body of
        Inl err \<Rightarrow> Inl (''invalid body: '' @ err)
      | Inr (source, windows) \<Rightarrow>
          (case check_windows (windows_by_field windows) of
             Inl err \<Rightarrow> Inl err
           | Inr _ \<Rightarrow> Inr \<lparr>ro_source = source, ro_windows = windows, ro_updated_at = Some now\<rparr>))"

definition retention_override_key :: "string option \<Rightarrow> string" where
  "retention_override_key ns =
     RETENTION_OVERRIDE_PREFIX @ (case ns of Some n \<Rightarrow> n | None \<Rightarrow> DEFAULT_NAMESPACE)"

definition read_retention_override ::
  "(string \<Rightarrow> queue_error + retention_override) \<Rightarrow> string option \<Rightarrow> db \<Rightarrow> queue_error + retention_override option" where
  "read_retention_override dec ns s =
     (case get_setting (retention_override_key ns) s of
        None \<Rightarrow> Inr None
      | Some raw \<Rightarrow> (case dec raw of Inl err \<Rightarrow> Inl err | Inr d \<Rightarrow> Inr (Some d)))"

definition write_retention_override ::
  "(retention_override \<Rightarrow> queue_error + string) \<Rightarrow> env \<Rightarrow> string option \<Rightarrow> retention_override \<Rightarrow> unit op" where
  "write_retention_override enc e ns d s =
     (case enc d of Inl err \<Rightarrow> (s, Inl err) | Inr json \<Rightarrow> set_setting e (retention_override_key ns) json s)"

definition clear_retention_override :: "string option \<Rightarrow> bool op" where
  "clear_retention_override ns = delete_setting (retention_override_key ns)"

section \<open>Publishing the windows\<close>

record effective_retention =
  er_enabled :: bool
  er_defaulted :: bool
  er_namespace :: string
  er_reported_at :: millis
  er_windows :: retention_config
  er_source :: retention_source
  er_code_windows :: "retention_config option"

definition retention_setting_key :: "string option \<Rightarrow> string" where
  "retention_setting_key ns =
     RETENTION_SETTING_PREFIX @ (case ns of Some n \<Rightarrow> n | None \<Rightarrow> DEFAULT_NAMESPACE)"

definition publish_effective_retention ::
  "(effective_retention \<Rightarrow> queue_error + string) \<Rightarrow> env \<Rightarrow> string option \<Rightarrow> effective_retention \<Rightarrow> unit op" where
  "publish_effective_retention enc e ns snap s =
     (case enc snap of Inl err \<Rightarrow> (s, Inl err) | Inr json \<Rightarrow> set_setting e (retention_setting_key ns) json s)"

definition read_effective_retention ::
  "(string \<Rightarrow> effective_retention option) \<Rightarrow> string option \<Rightarrow> db \<Rightarrow> effective_retention option" where
  "read_effective_retention dec ns s =
     (case get_setting (retention_setting_key ns) s of None \<Rightarrow> None | Some raw \<Rightarrow> dec raw)"

text \<open>The previews that follow a stored policy.\<close>

definition dry_run_applied ::
  "(string \<Rightarrow> queue_error + retention_override) \<Rightarrow> retention_config option \<Rightarrow> millis option \<Rightarrow> string option
     \<Rightarrow> millis \<Rightarrow> db \<Rightarrow> queue_error + retention_preview" where
  "dry_run_applied dec r ttl ns now s =
     (case read_retention_override dec ns s of
        Inl err \<Rightarrow> Inl err
      | Inr doc \<Rightarrow>
          (case Option.bind doc active_windows of
             Some windows \<Rightarrow> Inr (dry_run (Some windows) None ns now s)
           | None \<Rightarrow> Inr (dry_run r ttl ns now s)))"

definition dry_run_reported ::
  "(string \<Rightarrow> queue_error + retention_override) \<Rightarrow> (string \<Rightarrow> effective_retention option) \<Rightarrow> string option
     \<Rightarrow> millis \<Rightarrow> db \<Rightarrow> queue_error + retention_preview" where
  "dry_run_reported dec dec_effective ns now s =
     (case read_retention_override dec ns s of
        Inl err \<Rightarrow> Inl err
      | Inr doc \<Rightarrow>
          (case Option.bind doc active_windows of
             Some windows \<Rightarrow> Inr (dry_run (Some windows) None ns now s)
           | None \<Rightarrow>
               (case read_effective_retention dec_effective ns s of
                  None \<Rightarrow> Inr (dry_run None None ns now s)
                | Some published \<Rightarrow>
                    (let windows = sanitized (er_windows published);
                         counts = count_expired_rows (cutoffs windows now) now s
                     in Inr \<lparr>rp_enabled = \<not> retention_is_empty windows, rp_defaulted = er_defaulted published,
                          rp_namespace = (case ns of Some n \<Rightarrow> n | None \<Rightarrow> DEFAULT_NAMESPACE),
                          rp_reference_time = now, rp_windows = windows, rp_counts = counts,
                          rp_total = counts_total counts\<rparr>))))"

section \<open>Electing one cleaner\<close>

definition RETENTION_LOCK :: string where "RETENTION_LOCK = ''flexiq:retention''"
definition RETENTION_LOCK_TTL_MS :: millis where "RETENTION_LOCK_TTL_MS = 300000"
definition REAPER_LOCK :: string where "REAPER_LOCK = ''flexiq:reaper''"
definition REAPER_LOCK_TTL_MS :: millis where "REAPER_LOCK_TTL_MS = 15000"

text \<open>Renew first, acquire only when that failed; \<open>e\<close> and \<open>e'\<close> are the two calls' environments.\<close>

definition try_lead :: "env \<Rightarrow> env \<Rightarrow> string \<Rightarrow> string \<Rightarrow> millis \<Rightarrow> bool op" where
  "try_lead e e' name owner ttl s =
     (case extend_lock e name owner ttl s of
        (s1, Inl err) \<Rightarrow> (s1, Inl err)
      | (s1, Inr True) \<Rightarrow> (s1, Inr True)
      | (s1, Inr False) \<Rightarrow> acquire_lock e' name owner ttl s1)"

definition reap_dead_workers_if_leader :: "env \<Rightarrow> env \<Rightarrow> env \<Rightarrow> string \<Rightarrow> db \<Rightarrow> db \<times> string list" where
  "reap_dead_workers_if_leader e e' e'' owner s =
     (case try_lead e e' REAPER_LOCK owner REAPER_LOCK_TTL_MS s of
        (s1, Inr True) \<Rightarrow>
          (case reap_dead_workers e'' s1 of (s2, Inr dead) \<Rightarrow> (s2, dead) | (s2, Inl _) \<Rightarrow> (s2, []))
      | (s1, _) \<Rightarrow> (s1, []))"

section \<open>Namespace quotas the sweep reads\<close>

text \<open>\<open>str::len\<close> counts bytes, and the model's characters are bytes.\<close>

definition quota_key :: "string option \<Rightarrow> string" where
  "quota_key ns =
     (case ns of None \<Rightarrow> ''quota:default''
      | Some n \<Rightarrow> ''quota:ns:'' @ show_nat (length n) @ '':'' @ n)"

definition strip_prefix :: "string \<Rightarrow> string \<Rightarrow> string option" where
  "strip_prefix p s = (if take (length p) s = p then Some (drop (length p) s) else None)"

text \<open>\<open>str::parse::<usize>\<close>: digits with an optional plus sign, in range.\<close>

definition parse_usize :: "string \<Rightarrow> nat option" where
  "parse_usize s =
     (case parse_nat (case s of c # cs \<Rightarrow> if c = CHR ''+'' then cs else s | [] \<Rightarrow> s) of
        Some n \<Rightarrow> if n < 2 ^ 64 then Some n else None
      | None \<Rightarrow> None)"

definition namespace_of_quota_key :: "string \<Rightarrow> string option option" where
  "namespace_of_quota_key key =
     (if key = ''quota:default'' then Some None
      else Option.bind (strip_prefix ''quota:ns:'' key) (\<lambda>rest.
           Option.bind (split_once (CHR '':'') rest) (\<lambda>(len, n).
           Option.bind (parse_usize len) (\<lambda>l. if length n = l then Some (Some n) else None))))"

definition enqueue_rate_key :: "string option \<Rightarrow> string" where
  "enqueue_rate_key ns =
     (case ns of None \<Rightarrow> ''quota::-::enqueue''
      | Some n \<Rightarrow> ''quota::'' @ show_nat (length n) @ '':'' @ n @ ''::enqueue'')"

datatype quota_overflow = Reject | Drop

definition quota_overflow_str :: "quota_overflow \<Rightarrow> string" where
  "quota_overflow_str q = (case q of Reject \<Rightarrow> ''reject'' | Drop \<Rightarrow> ''drop'')"

definition quota_overflow_parse :: "string \<Rightarrow> quota_overflow option" where
  "quota_overflow_parse s =
     (if s = ''reject'' then Some Reject else if s = ''drop'' then Some Drop else None)"

record namespace_quota =
  nq_max_pending :: "int option"
  nq_on_excess :: quota_overflow
  nq_enqueue_rate :: "string option"
  nq_max_running :: "int option"
  nq_max_archived_rows :: "int option"
  nq_max_dead_rows :: "int option"

section \<open>The cleanup sweep\<close>

definition TOPIC_MESSAGE_PURGE_LIMIT :: int where "TOPIC_MESSAGE_PURGE_LIMIT = 10000"

text \<open>A sweep that fails is logged and counts nothing.\<close>

definition sweep :: "'n::zero op \<Rightarrow> db \<Rightarrow> db \<times> 'n" where
  "sweep purge s = (case purge s of (s', Inr n) \<Rightarrow> (s', n) | (s', Inl _) \<Rightarrow> (s', 0))"

definition sweep_some :: "(millis \<Rightarrow> nat op) \<Rightarrow> millis option \<Rightarrow> db \<Rightarrow> db \<times> nat" where
  "sweep_some purge cutoff s = (case cutoff of Some c \<Rightarrow> sweep (purge c) s | None \<Rightarrow> (s, 0))"

text \<open>
  The five history tables, in the order of the sweep; \<open>e\<close> and \<open>e'\<close> are the environments of
  the two purges that read the clock themselves.
\<close>

definition sweep_tables ::
  "env \<Rightarrow> env \<Rightarrow> retention_config \<Rightarrow> millis \<Rightarrow> db \<Rightarrow> db \<times> retention_counts" where
  "sweep_tables e e' windows now s =
     (let (s1, completed) = sweep (purge_completed_with_ttl e (cutoff_at now (archived_jobs_ttl_ms windows))) s;
          (s2, dead) = sweep (purge_dead_with_ttl e' (cutoff_at now (dead_letter_ttl_ms windows))) s1;
          (s3, errors) = sweep_some purge_job_errors (cutoff_at now (job_errors_ttl_ms windows)) s2;
          (s4, metrics) = sweep_some purge_metrics (cutoff_at now (task_metrics_ttl_ms windows)) s3;
          (s5, logs) = sweep_some purge_task_logs (cutoff_at now (task_logs_ttl_ms windows)) s4
      in (s5, \<lparr>rn_archived_jobs = completed, rn_dead_letter = dead, rn_task_logs = logs,
               rn_task_metrics = metrics, rn_job_errors = errors\<rparr>))"

text \<open>
  \<open>from_json\<close> decodes and validates a quota document; \<open>ord\<close> is the iteration order of the
  settings map. An unreadable quota is skipped.
\<close>

definition trim_one ::
  "(string \<Rightarrow> queue_error + namespace_quota) \<Rightarrow> string \<times> string \<Rightarrow> db \<times> nat \<Rightarrow> db \<times> nat" where
  "trim_one from_json = (\<lambda>(key, raw) (s, trimmed).
     case namespace_of_quota_key key of
       None \<Rightarrow> (s, trimmed)
     | Some ns \<Rightarrow>
         (case from_json raw of
            Inl _ \<Rightarrow> (s, trimmed)
          | Inr quota \<Rightarrow>
              (let (s1, a) = (case nq_max_archived_rows quota of
                     Some keep \<Rightarrow> sweep (trim_archived_over ns keep) s | None \<Rightarrow> (s, 0));
                   (s2, d) = (case nq_max_dead_rows quota of
                     Some keep \<Rightarrow> sweep (trim_dead_over ns keep) s1 | None \<Rightarrow> (s1, 0))
               in (s2, trimmed + a + d))))"

definition trim_to_quotas ::
  "(string \<Rightarrow> queue_error + namespace_quota) \<Rightarrow> ((string \<times> string) list \<Rightarrow> (string \<times> string) list)
     \<Rightarrow> db \<Rightarrow> db \<times> nat" where
  "trim_to_quotas from_json ord s =
     fold (trim_one from_json) (ord (map (\<lambda>x. (se_key x, se_value x)) (dashboard_settings s))) (s, 0)"

record cleaner =
  cn_namespace :: "string option"
  cn_claim_owner :: string
  cn_retention :: "retention_config option"
  cn_result_ttl_ms :: "millis option"
  cn_honor_retention_override :: bool

record codecs =
  dec_override :: "string \<Rightarrow> queue_error + retention_override"
  enc_effective :: "effective_retention \<Rightarrow> queue_error + string"
  dec_quota :: "string \<Rightarrow> queue_error + namespace_quota"

definition sweep_windows :: "codecs \<Rightarrow> cleaner \<Rightarrow> retention_config \<Rightarrow> db \<Rightarrow> retention_config \<times> retention_source" where
  "sweep_windows k c code s =
     (if \<not> cn_honor_retention_override c then (code, Code)
      else (case read_retention_override (dec_override k) (cn_namespace c) s of
              Inl _ \<Rightarrow> (code, Code)
            | Inr doc \<Rightarrow> (case Option.bind doc active_windows of
                Some windows \<Rightarrow> (windows, Dashboard)
              | None \<Rightarrow> (code, Code))))"

definition publish_retention ::
  "codecs \<Rightarrow> env \<Rightarrow> cleaner \<Rightarrow> retention_config \<Rightarrow> retention_source \<Rightarrow> retention_config \<Rightarrow> millis \<Rightarrow> unit op" where
  "publish_retention k e c windows source code now =
     publish_effective_retention (enc_effective k) e (cn_namespace c)
       \<lparr>er_enabled = \<not> retention_is_empty windows,
        er_defaulted = (source = Code \<and> is_retention_defaulted (cn_retention c) (cn_result_ttl_ms c)),
        er_namespace = (case cn_namespace c of Some n \<Rightarrow> n | None \<Rightarrow> DEFAULT_NAMESPACE),
        er_reported_at = now, er_windows = windows, er_source = source, er_code_windows = Some code\<rparr>"

text \<open>
  One tick: \<open>es\<close> numbers the environments of its calls in call order. The call itself answers
  nothing; the result pairs the database with the numbers of its log line, what the five table
  sweeps, the topic sweep and the quotas removed, or \<open>None\<close> when another cleaner leads.
\<close>

definition auto_cleanup ::
  "codecs \<Rightarrow> (nat \<Rightarrow> env) \<Rightarrow> ((string \<times> string) list \<Rightarrow> (string \<times> string) list)
     \<Rightarrow> (string list \<Rightarrow> string list) \<Rightarrow> (string list \<Rightarrow> string list) \<Rightarrow> cleaner \<Rightarrow> db
     \<Rightarrow> db \<times> (retention_counts \<times> int \<times> nat) option" where
  "auto_cleanup k es ord ord1 ord2 c s =
     (case try_lead (es 0) (es 1) RETENTION_LOCK (cn_claim_owner c) RETENTION_LOCK_TTL_MS s of
        (s1, Inr True) \<Rightarrow>
          (let now = now_millis (es 2);
               code = resolve_effective_retention (cn_retention c) (cn_result_ttl_ms c);
               (windows, source) = sweep_windows k c code s1;
               (s2, _) = publish_retention k (es 3) c windows source code now s1;
               (s3, counts) = sweep_tables (es 4) (es 5) windows now s2;
               (s4, topic_msgs) = sweep (purge_topic_messages ord1 ord2 now TOPIC_MESSAGE_PURGE_LIMIT) s3;
               (s5, trimmed) = trim_to_quotas (dec_quota k) ord s4
           in (s5, Some (counts, topic_msgs, trimmed)))
      | (s1, _) \<Rightarrow> (s1, None))"

section \<open>What the sweep removes\<close>

text \<open>A drain whose rows fit the cap of one sweep removes them all and touches nothing else.\<close>

context purged_table
begin

lemma drain_exact:
  assumes "ok s" and "length (filter p (get s)) \<le> 100000"
  shows "\<exists>s'. drain_batches (purge_rows_where get put key p) s = (s', Inr (length (filter p (get s))))
    \<and> get s' = filter (\<lambda>r. \<not> p r) (get s) \<and> put [] s' = put [] s \<and> ok s'"
proof -
  obtain s' where s': "drain_batches (purge_rows_where get put key p) s = (s', Inr (length (filter p (get s))))"
    "filter p (get s') = []" "filter (\<lambda>r. \<not> p r) (get s') = filter (\<lambda>r. \<not> p r) (get s)"
    "put [] s' = put [] s" "ok s'"
    using purge.drain_total [OF assms(1), of p] assms(2) by auto
  moreover have "get s' = filter (\<lambda>r. \<not> p r) (get s)"
    using filter_Nil_partition [OF s'(2)] s'(3) by simp
  ultimately show ?thesis by blast
qed

end

abbreviation side_tables :: "db \<Rightarrow> job_error_row list \<times> task_log_row list \<times> task_metric_row list" where
  "side_tables s \<equiv> (job_errors s, task_logs s, task_metrics s)"

text \<open>Which rows of the five history tables are past their cutoffs, and what is left without them.\<close>

definition past :: "millis option \<Rightarrow> millis \<Rightarrow> bool" where
  "past cutoff at = (case cutoff of Some t \<Rightarrow> at < t | None \<Rightarrow> False)"

definition archived_expired :: "millis option \<Rightarrow> millis \<Rightarrow> archived_job_row \<Rightarrow> bool" where
  "archived_expired cutoff now a =
     (case (result_ttl_ms a, completed_at a) of
        (Some ttl, Some c) \<Rightarrow> c + ttl < now
      | (None, Some c) \<Rightarrow> past cutoff c
      | (_, None) \<Rightarrow> False)"

definition dead_expired :: "millis option \<Rightarrow> millis \<Rightarrow> dead_letter_row \<Rightarrow> bool" where
  "dead_expired cutoff now d =
     (case dl_result_ttl_ms d of
        Some ttl \<Rightarrow> dl_failed_at d + ttl < now
      | None \<Rightarrow> past cutoff (dl_failed_at d))"

lemma archived_expired_iff:
  "archived_expired cutoff now a \<longleftrightarrow>
     past_own_ttl now a \<or> (\<exists>c. cutoff = Some c \<and> past_global_cutoff c a)"
  by (auto simp: archived_expired_def past_def past_own_ttl_def past_global_cutoff_def completed_before_def
      split: option.splits)

lemma dead_expired_iff:
  "dead_expired cutoff now d \<longleftrightarrow> dead_past_ttl now d \<or> (\<exists>c. cutoff = Some c \<and> dead_past_cutoff c d)"
  by (auto simp: dead_expired_def past_def dead_past_ttl_def dead_past_cutoff_def split: option.splits)

lemma archived_id_batch_side: "side_tables (fst (purge_archived_id_batch ids False s)) = side_tables s"
  by (simp add: purge_archived_id_batch_def delete_job_relations_eq delete_relations_chunk_def Let_def)

lemma archived_batch_side: "side_tables (fst (purge_archived_where p False s)) = side_tables s"
  by (simp add: purge_archived_where_def write_transaction_def purge_archived_id_batch_def
      delete_job_relations_eq delete_relations_chunk_def Let_def)

lemma archived_drain_side: "side_tables (fst (drain_batches (purge_archived_where p False) s)) = side_tables s"
  unfolding drain_batches_def
  by (rule drain_loop_inv [where I = "\<lambda>t. side_tables t = side_tables s"]) (simp_all add: archived_batch_side)

text \<open>One drain of the archive whose rows fit the cap of a sweep.\<close>

lemma archived_drain:
  assumes "db_ok s" and "length (filter p (archived_jobs s)) \<le> 100000"
  shows "\<exists>s'. drain_batches (purge_archived_where p False) s = (s', Inr (length (filter p (archived_jobs s))))
    \<and> archived_jobs s' = filter (\<lambda>a. \<not> p a) (archived_jobs s) \<and> dead_letter s' = dead_letter s
    \<and> side_tables s' = side_tables s \<and> db_ok s'"
proof -
  obtain s' where s': "drain_batches (purge_archived_where p False) s = (s', Inr (length (filter p (archived_jobs s))))"
    "filter p (archived_jobs s') = []"
    "filter (\<lambda>a. \<not> p a) (archived_jobs s') = filter (\<lambda>a. \<not> p a) (archived_jobs s)"
    "dead_letter s' = dead_letter s" "db_ok s'"
    using archive_purge.drain_total [OF assms(1), of p False] assms(2) by auto
  moreover have "archived_jobs s' = filter (\<lambda>a. \<not> p a) (archived_jobs s)"
    using filter_Nil_partition [OF s'(2)] s'(3) by simp
  moreover have "side_tables s' = side_tables s" using archived_drain_side [of p s] s'(1) by simp
  ultimately show ?thesis by blast
qed

lemma dead_drain:
  assumes "db_ok s" and "length (filter p (dead_letter s)) \<le> 100000"
  shows "\<exists>s'. drain_batches (purge_rows_where dead_letter put_dead dl_id p) s = (s', Inr (length (filter p (dead_letter s))))
    \<and> dead_letter s' = filter (\<lambda>d. \<not> p d) (dead_letter s) \<and> archived_jobs s' = archived_jobs s
    \<and> side_tables s' = side_tables s \<and> db_ok s'"
proof -
  obtain s' where s': "drain_batches (purge_rows_where dead_letter put_dead dl_id p) s
      = (s', Inr (length (filter p (dead_letter s))))"
    "dead_letter s' = filter (\<lambda>d. \<not> p d) (dead_letter s)" "put_dead [] s' = put_dead [] s" "db_ok s'"
    using dlq_table.drain_exact [OF assms] by blast
  moreover have "side_tables s' = side_tables s" "archived_jobs s' = archived_jobs s"
    using arg_cong [OF s'(3), of side_tables] arg_cong [OF s'(3), of archived_jobs] by simp_all
  ultimately show ?thesis by blast
qed

lemma archived_sweep:
  assumes ok: "db_ok s"
    and own: "length (filter (past_own_ttl (now_millis e)) (archived_jobs s)) \<le> 100000"
    and glob: "\<forall>c. cutoff = Some c \<longrightarrow> length (filter (past_global_cutoff c) (archived_jobs s)) \<le> 100000"
  shows "\<exists>s'. purge_completed_with_ttl e cutoff s =
      (s', Inr ((case cutoff of Some c \<Rightarrow> length (filter (past_global_cutoff c) (archived_jobs s)) | None \<Rightarrow> 0)
              + length (filter (past_own_ttl (now_millis e)) (archived_jobs s))))
    \<and> archived_jobs s' = filter (\<lambda>a. \<not> archived_expired cutoff (now_millis e) a) (archived_jobs s)
    \<and> dead_letter s' = dead_letter s \<and> side_tables s' = side_tables s \<and> db_ok s'"
proof (cases cutoff)
  case None
  then show ?thesis using archived_drain [OF ok own]
    by (auto simp: purge_completed_with_ttl_def archived_expired_iff)
next
  case (Some c)
  obtain s1 where s1: "drain_batches (purge_archived_where (past_global_cutoff c) False) s
      = (s1, Inr (length (filter (past_global_cutoff c) (archived_jobs s))))"
    "archived_jobs s1 = filter (\<lambda>a. \<not> past_global_cutoff c a) (archived_jobs s)"
    "dead_letter s1 = dead_letter s" "side_tables s1 = side_tables s" "db_ok s1"
    using archived_drain [OF ok, of "past_global_cutoff c"] glob Some by blast
  have same: "filter (past_own_ttl (now_millis e)) (archived_jobs s1) = filter (past_own_ttl (now_millis e)) (archived_jobs s)"
    unfolding s1(2) filter_filter by (rule filter_cong) (auto simp: past_global_cutoff_def past_own_ttl_def)
  obtain s2 where "drain_batches (purge_archived_where (past_own_ttl (now_millis e)) False) s1
      = (s2, Inr (length (filter (past_own_ttl (now_millis e)) (archived_jobs s))))"
    "archived_jobs s2 = filter (\<lambda>a. \<not> past_own_ttl (now_millis e) a) (archived_jobs s1)"
    "dead_letter s2 = dead_letter s1" "side_tables s2 = side_tables s1" "db_ok s2"
    using archived_drain [OF s1(5), of "past_own_ttl (now_millis e)"] own unfolding same by blast
  note s2 = this
  have "archived_jobs s2 = filter (\<lambda>a. \<not> archived_expired cutoff (now_millis e) a) (archived_jobs s)"
    unfolding s2(2) s1(2) filter_filter by (rule filter_cong) (auto simp: archived_expired_iff Some)
  then show ?thesis using s1(1,3,4) s2(1,3-) Some by (simp add: purge_completed_with_ttl_def)
qed

lemma dead_sweep:
  assumes ok: "db_ok s"
    and own: "length (filter (dead_past_ttl (now_millis e)) (dead_letter s)) \<le> 100000"
    and glob: "\<forall>c. cutoff = Some c \<longrightarrow> length (filter (dead_past_cutoff c) (dead_letter s)) \<le> 100000"
  shows "\<exists>s'. purge_dead_with_ttl e cutoff s =
      (s', Inr ((case cutoff of Some c \<Rightarrow> length (filter (dead_past_cutoff c) (dead_letter s)) | None \<Rightarrow> 0)
              + length (filter (dead_past_ttl (now_millis e)) (dead_letter s))))
    \<and> dead_letter s' = filter (\<lambda>d. \<not> dead_expired cutoff (now_millis e) d) (dead_letter s)
    \<and> archived_jobs s' = archived_jobs s \<and> side_tables s' = side_tables s \<and> db_ok s'"
proof (cases cutoff)
  case None
  then show ?thesis using dead_drain [OF ok own] by (auto simp: purge_dead_with_ttl_def dead_expired_iff)
next
  case (Some c)
  obtain s1 where s1: "drain_batches (purge_rows_where dead_letter put_dead dl_id (dead_past_cutoff c)) s
      = (s1, Inr (length (filter (dead_past_cutoff c) (dead_letter s))))"
    "dead_letter s1 = filter (\<lambda>d. \<not> dead_past_cutoff c d) (dead_letter s)"
    "archived_jobs s1 = archived_jobs s" "side_tables s1 = side_tables s" "db_ok s1"
    using dead_drain [OF ok, of "dead_past_cutoff c"] glob Some by blast
  have same: "filter (dead_past_ttl (now_millis e)) (dead_letter s1) = filter (dead_past_ttl (now_millis e)) (dead_letter s)"
    unfolding s1(2) filter_filter by (rule filter_cong) (auto simp: dead_past_cutoff_def dead_past_ttl_def)
  obtain s2 where "drain_batches (purge_rows_where dead_letter put_dead dl_id (dead_past_ttl (now_millis e))) s1
      = (s2, Inr (length (filter (dead_past_ttl (now_millis e)) (dead_letter s))))"
    "dead_letter s2 = filter (\<lambda>d. \<not> dead_past_ttl (now_millis e) d) (dead_letter s1)"
    "archived_jobs s2 = archived_jobs s1" "side_tables s2 = side_tables s1" "db_ok s2"
    using dead_drain [OF s1(5), of "dead_past_ttl (now_millis e)"] own unfolding same by blast
  note s2 = this
  have "dead_letter s2 = filter (\<lambda>d. \<not> dead_expired cutoff (now_millis e) d) (dead_letter s)"
    unfolding s2(2) s1(2) filter_filter by (rule filter_cong) (auto simp: dead_expired_iff Some)
  then show ?thesis using s1(1,3,4) s2(1,3-) Some by (simp add: purge_dead_with_ttl_def)
qed

abbreviation history :: "db \<Rightarrow> archived_job_row list \<times> dead_letter_row list \<times> task_log_row list
    \<times> task_metric_row list \<times> job_error_row list" where
  "history s \<equiv> (archived_jobs s, dead_letter s, task_logs s, task_metrics s, job_errors s)"

lemma job_errors_sweep:
  assumes "logs_ok s" and "length (filter (\<lambda>x. je_failed_at x < t) (job_errors s)) \<le> 100000"
  shows "\<exists>s'. purge_job_errors t s = (s', Inr (length (filter (\<lambda>x. je_failed_at x < t) (job_errors s))))
    \<and> history s' = history (s\<lparr>job_errors := filter (\<lambda>x. \<not> je_failed_at x < t) (job_errors s)\<rparr>) \<and> logs_ok s'"
proof -
  obtain s' where s': "purge_job_errors t s = (s', Inr (length (filter (\<lambda>x. je_failed_at x < t) (job_errors s))))"
    "job_errors s' = filter (\<lambda>x. \<not> je_failed_at x < t) (job_errors s)"
    "s'\<lparr>job_errors := []\<rparr> = s\<lparr>job_errors := []\<rparr>" "distinct (map je_id (job_errors s'))"
    using error_log.drain_exact [of s "\<lambda>x. je_failed_at x < t"] assms
    unfolding purge_job_errors_def purge_job_errors_batch_def by blast
  have "history (s'\<lparr>job_errors := []\<rparr>) = history (s\<lparr>job_errors := []\<rparr>)" using s'(3) by (rule arg_cong)
  then show ?thesis using assms(1) s'(1,2,4) by simp
qed

lemma metrics_sweep:
  assumes "logs_ok s" and "length (filter (\<lambda>x. tm_recorded_at x < t) (task_metrics s)) \<le> 100000"
  shows "\<exists>s'. purge_metrics t s = (s', Inr (length (filter (\<lambda>x. tm_recorded_at x < t) (task_metrics s))))
    \<and> history s' = history (s\<lparr>task_metrics := filter (\<lambda>x. \<not> tm_recorded_at x < t) (task_metrics s)\<rparr>) \<and> logs_ok s'"
proof -
  obtain s' where s': "purge_metrics t s = (s', Inr (length (filter (\<lambda>x. tm_recorded_at x < t) (task_metrics s))))"
    "task_metrics s' = filter (\<lambda>x. \<not> tm_recorded_at x < t) (task_metrics s)"
    "put_metrics [] s' = put_metrics [] s" "logs_ok s'"
    using metric_table.drain_exact [OF assms] unfolding purge_metrics_def by blast
  have "history (put_metrics [] s') = history (put_metrics [] s)" using s'(3) by (rule arg_cong)
  then show ?thesis using s'(1,2,4) by simp
qed

lemma logs_sweep:
  assumes "logs_ok s" and "length (filter (\<lambda>x. tl_logged_at x < t) (task_logs s)) \<le> 100000"
  shows "\<exists>s'. purge_task_logs t s = (s', Inr (length (filter (\<lambda>x. tl_logged_at x < t) (task_logs s))))
    \<and> history s' = history (s\<lparr>task_logs := filter (\<lambda>x. \<not> tl_logged_at x < t) (task_logs s)\<rparr>)"
proof -
  obtain s' where s': "purge_task_logs t s = (s', Inr (length (filter (\<lambda>x. tl_logged_at x < t) (task_logs s))))"
    "task_logs s' = filter (\<lambda>x. \<not> tl_logged_at x < t) (task_logs s)" "s'\<lparr>task_logs := []\<rparr> = s\<lparr>task_logs := []\<rparr>"
    using log_table.drain_exact [OF assms] unfolding purge_task_logs_def by blast
  have "history (s'\<lparr>task_logs := []\<rparr>) = history (s\<lparr>task_logs := []\<rparr>)" using s'(3) by (rule arg_cong)
  then show ?thesis using s'(1,2) by simp
qed

lemma resolve_sanitized [simp]: "sanitized (resolve_effective_retention r ttl) = resolve_effective_retention r ttl"
  by (auto simp: resolve_effective_retention_def sanitized_def keep_window_def uniform_retention_def
      default_retention_def recommended_def DAY_MS_def DEFAULT_ARCHIVED_JOBS_TTL_MS_def DEFAULT_DEAD_LETTER_TTL_MS_def
      DEFAULT_TASK_LOGS_TTL_MS_def DEFAULT_TASK_METRICS_TTL_MS_def DEFAULT_JOB_ERRORS_TTL_MS_def split: option.splits)

text \<open>The predicates of the dry run are those of the purges.\<close>

lemma past_count:
  "(case cutoff of Some t \<Rightarrow> length (filter (\<lambda>x. at x < t) xs) | None \<Rightarrow> 0) = length (filter (\<lambda>x. past cutoff (at x)) xs)"
  by (simp add: past_def split: option.split)

lemma count_expired_eq:
  "count_expired_rows c now s =
     \<lparr>rn_archived_jobs = (case rc_archived_jobs c of Some t \<Rightarrow> length (filter (past_global_cutoff t) (archived_jobs s)) | None \<Rightarrow> 0)
        + length (filter (past_own_ttl now) (archived_jobs s)),
      rn_dead_letter = (case rc_dead_letter c of Some t \<Rightarrow> length (filter (dead_past_cutoff t) (dead_letter s)) | None \<Rightarrow> 0)
        + length (filter (dead_past_ttl now) (dead_letter s)),
      rn_task_logs = length (filter (\<lambda>x. past (rc_task_logs c) (tl_logged_at x)) (task_logs s)),
      rn_task_metrics = length (filter (\<lambda>x. past (rc_task_metrics c) (tm_recorded_at x)) (task_metrics s)),
      rn_job_errors = length (filter (\<lambda>x. past (rc_job_errors c) (je_failed_at x)) (job_errors s))\<rparr>"
proof -
  have "(\<lambda>a. result_ttl_ms a = None \<and> (case completed_at a of Some x \<Rightarrow> x < t | None \<Rightarrow> False))
      = (past_global_cutoff t :: archived_job_row \<Rightarrow> bool)" for t
    by (auto simp: past_global_cutoff_def completed_before_def fun_eq_iff)
  moreover have "(\<lambda>a. result_ttl_ms a \<noteq> None \<and> completed_at a \<noteq> None \<and> the (completed_at a) + the (result_ttl_ms a) < now)
      = (past_own_ttl now :: archived_job_row \<Rightarrow> bool)"
    by (auto simp: past_own_ttl_def fun_eq_iff split: option.splits)
  moreover have "(\<lambda>d. dl_result_ttl_ms d = None \<and> dl_failed_at d < t) = (dead_past_cutoff t :: dead_letter_row \<Rightarrow> bool)" for t
    by (auto simp: dead_past_cutoff_def fun_eq_iff)
  moreover have "(\<lambda>d. dl_result_ttl_ms d \<noteq> None \<and> dl_failed_at d + the (dl_result_ttl_ms d) < now)
      = (dead_past_ttl now :: dead_letter_row \<Rightarrow> bool)"
    by (auto simp: dead_past_ttl_def fun_eq_iff split: option.splits)
  ultimately show ?thesis by (simp only: count_expired_rows_def Let_def past_count)
qed

section \<open>The invariant through a sweep\<close>

lemma write_override_keeps: "db_ok s \<Longrightarrow> db_ok (fst (write_retention_override enc e ns d s))"
  by (simp add: write_retention_override_def registry_all_keep split: sum.splits)

lemma clear_override_keeps: "db_ok s \<Longrightarrow> db_ok (fst (clear_retention_override ns s))"
  by (simp add: clear_retention_override_def registry_all_keep)

lemma try_lead_keeps:
  assumes "db_ok s"
  shows "db_ok (fst (try_lead e e' n owner ttl s))"
proof -
  obtain s1 r where s1: "extend_lock e n owner ttl s = (s1, r)" by fastforce
  then have "db_ok s1" using lock_calls_keep [OF assms, of "CallExtend e n owner ttl"] by simp
  moreover have "db_ok (fst (acquire_lock e' n owner ttl s1))"
    using lock_calls_keep [OF \<open>db_ok s1\<close>, of "CallAcquire e' n owner ttl"] by simp
  ultimately show ?thesis by (simp add: try_lead_def s1 split: sum.splits bool.splits)
qed

lemma reap_if_leader_keeps:
  assumes "db_ok s"
  shows "db_ok (fst (reap_dead_workers_if_leader e e' e'' owner s))"
proof -
  obtain s1 r where s1: "try_lead e e' REAPER_LOCK owner REAPER_LOCK_TTL_MS s = (s1, r)" by fastforce
  then have ok1: "db_ok s1" using try_lead_keeps [OF assms] by (metis fst_conv)
  obtain s2 d where s2: "reap_dead_workers e'' s1 = (s2, d)" by fastforce
  then have "db_ok s2" using worker_ops_keep(5) [OF ok1, of e''] by simp
  then show ?thesis using ok1
    by (simp add: reap_dead_workers_if_leader_def s1 s2 split: sum.splits bool.splits)
qed

lemma sweep_fst [simp]: "fst (sweep f s) = fst (f s)"
  by (simp add: sweep_def split: prod.splits sum.splits)

lemma sweep_some_keeps: "(\<And>c t. db_ok t \<Longrightarrow> db_ok (fst (f c t))) \<Longrightarrow> db_ok s \<Longrightarrow> db_ok (fst (sweep_some f c s))"
  by (simp add: sweep_some_def split: option.splits)

lemma sweep_tables_keeps: "db_ok s \<Longrightarrow> db_ok (fst (sweep_tables e e' w now s))"
  unfolding sweep_tables_def Let_def case_prod_unfold fst_conv
  by (intro sweep_some_keeps log_sweeps_keep purge_job_errors_keeps)
    (simp_all add: purge_ttl_keeps dead_letter_all_keep log_sweeps_keep purge_job_errors_keeps)

lemma trim_one_keeps: "db_ok (fst x) \<Longrightarrow> db_ok (fst (trim_one from_json kv x))"
  by (simp add: trim_one_def Let_def case_prod_unfold dead_letter_all_keep trim_archived_keeps
      split: option.splits sum.splits)

lemma trim_to_quotas_keeps:
  assumes "db_ok s"
  shows "db_ok (fst (trim_to_quotas from_json ord s))"
proof -
  have "db_ok (fst (fold (trim_one from_json) kvs x))" if "db_ok (fst x)" for kvs x
    using that by (induction kvs arbitrary: x) (simp_all add: trim_one_keeps)
  then show ?thesis using assms by (simp add: trim_to_quotas_def)
qed

lemma publish_retention_keeps: "db_ok s \<Longrightarrow> db_ok (fst (publish_retention k e c w src code now s))"
  by (simp add: publish_retention_def publish_effective_retention_def registry_all_keep split: sum.splits)

lemma auto_cleanup_keeps:
  assumes "db_ok s"
  shows "db_ok (fst (auto_cleanup k es ord ord1 ord2 c s))"
proof -
  obtain s1 r where s1: "try_lead (es 0) (es 1) RETENTION_LOCK (cn_claim_owner c) RETENTION_LOCK_TTL_MS s = (s1, r)"
    by fastforce
  have ok: "db_ok s1" using try_lead_keeps [OF assms] s1 by (metis fst_conv)
  show ?thesis
    unfolding auto_cleanup_def s1 Let_def case_prod_unfold
    by (simp add: ok trim_to_quotas_keeps purge_topic_keeps sweep_tables_keeps publish_retention_keeps
        split: sum.splits bool.splits)
qed

text \<open>The optional sweeps of the side tables.\<close>

lemma sweep_some_Some: "purge c s = (s', Inr n) \<Longrightarrow> sweep_some purge (Some c) s = (s', n)"
  by (simp add: sweep_some_def sweep_def)

lemma sweep_some_past:
  assumes "\<And>t. cutoff = Some t \<Longrightarrow> \<exists>s'. purge t s = (s', Inr (length (filter (\<lambda>x. at x < t) xs)))
      \<and> history s' = history (put (filter (\<lambda>x. \<not> at x < t) xs) s) \<and> ok s'"
    and "history (put xs s) = history s" and "ok s"
  shows "\<exists>s'. sweep_some purge cutoff s = (s', length (filter (\<lambda>x. past cutoff (at x)) xs))
    \<and> history s' = history (put (filter (\<lambda>x. \<not> past cutoff (at x)) xs) s) \<and> ok s'"
proof (cases cutoff)
  case None
  then show ?thesis using assms(2,3) by (simp add: sweep_some_def past_def)
next
  case (Some t)
  then show ?thesis using assms(1) [OF Some] sweep_some_Some [of purge t s] by (force simp: past_def)
qed

lemma sweep_some_job_errors:
  assumes "logs_ok s" and "length (filter (\<lambda>x. past cutoff (je_failed_at x)) (job_errors s)) \<le> 100000"
  shows "\<exists>s'. sweep_some purge_job_errors cutoff s = (s', length (filter (\<lambda>x. past cutoff (je_failed_at x)) (job_errors s)))
    \<and> history s' = history (s\<lparr>job_errors := filter (\<lambda>x. \<not> past cutoff (je_failed_at x)) (job_errors s)\<rparr>) \<and> logs_ok s'"
proof -
  have "\<exists>s'. purge_job_errors t s = (s', Inr (length (filter (\<lambda>x. je_failed_at x < t) (job_errors s))))
      \<and> history s' = history (s\<lparr>job_errors := filter (\<lambda>x. \<not> je_failed_at x < t) (job_errors s)\<rparr>) \<and> logs_ok s'"
    if "cutoff = Some t" for t
    using job_errors_sweep [OF assms(1), of t] assms(2) that by (simp add: past_def)
  then show ?thesis
    using sweep_some_past [of cutoff purge_job_errors s je_failed_at "job_errors s" "\<lambda>t s. s\<lparr>job_errors := t\<rparr>" "logs_ok"] assms(1) by simp
qed

lemma sweep_some_metrics:
  assumes "logs_ok s" and "length (filter (\<lambda>x. past cutoff (tm_recorded_at x)) (task_metrics s)) \<le> 100000"
  shows "\<exists>s'. sweep_some purge_metrics cutoff s = (s', length (filter (\<lambda>x. past cutoff (tm_recorded_at x)) (task_metrics s)))
    \<and> history s' = history (s\<lparr>task_metrics := filter (\<lambda>x. \<not> past cutoff (tm_recorded_at x)) (task_metrics s)\<rparr>) \<and> logs_ok s'"
proof -
  have "\<exists>s'. purge_metrics t s = (s', Inr (length (filter (\<lambda>x. tm_recorded_at x < t) (task_metrics s))))
      \<and> history s' = history (s\<lparr>task_metrics := filter (\<lambda>x. \<not> tm_recorded_at x < t) (task_metrics s)\<rparr>) \<and> logs_ok s'"
    if "cutoff = Some t" for t
    using metrics_sweep [OF assms(1), of t] assms(2) that by (simp add: past_def)
  then show ?thesis
    using sweep_some_past [of cutoff purge_metrics s tm_recorded_at "task_metrics s" "\<lambda>t s. s\<lparr>task_metrics := t\<rparr>" "logs_ok"] assms(1) by simp
qed

lemma sweep_some_logs:
  assumes "logs_ok s" and "length (filter (\<lambda>x. past cutoff (tl_logged_at x)) (task_logs s)) \<le> 100000"
  shows "\<exists>s'. sweep_some purge_task_logs cutoff s = (s', length (filter (\<lambda>x. past cutoff (tl_logged_at x)) (task_logs s)))
    \<and> history s' = history (s\<lparr>task_logs := filter (\<lambda>x. \<not> past cutoff (tl_logged_at x)) (task_logs s)\<rparr>)"
proof -
  have "\<exists>s'. purge_task_logs t s = (s', Inr (length (filter (\<lambda>x. tl_logged_at x < t) (task_logs s))))
      \<and> history s' = history (s\<lparr>task_logs := filter (\<lambda>x. \<not> tl_logged_at x < t) (task_logs s)\<rparr>)"
    if "cutoff = Some t" for t
    using logs_sweep [OF assms(1), of t] assms(2) that by (simp add: past_def)
  then show ?thesis
    using sweep_some_past [of cutoff purge_task_logs s tl_logged_at "task_logs s" "\<lambda>t s. s\<lparr>task_logs := t\<rparr>" "\<lambda>_. True"] assms(1) by simp
qed

text \<open>The rows of the five history tables that are not past their cutoffs.\<close>

definition unexpired :: "retention_cutoffs \<Rightarrow> millis \<Rightarrow> db
    \<Rightarrow> archived_job_row list \<times> dead_letter_row list \<times> task_log_row list \<times> task_metric_row list \<times> job_error_row list" where
  "unexpired c now s =
     (filter (\<lambda>a. \<not> archived_expired (rc_archived_jobs c) now a) (archived_jobs s),
      filter (\<lambda>d. \<not> dead_expired (rc_dead_letter c) now d) (dead_letter s),
      filter (\<lambda>x. \<not> past (rc_task_logs c) (tl_logged_at x)) (task_logs s),
      filter (\<lambda>x. \<not> past (rc_task_metrics c) (tm_recorded_at x)) (task_metrics s),
      filter (\<lambda>x. \<not> past (rc_job_errors c) (je_failed_at x)) (job_errors s))"

text \<open>
  A sweep whose counts fit leaves exactly the unexpired rows, and its counts are those of the dry
  run of the same windows.
\<close>

lemma sweep_matches_counts:
  assumes "db_ok s" and "logs_ok s" and "now_millis e = now" and "now_millis e' = now" and "sanitized w = w"
    and c: "c = count_expired_rows (cutoffs w now) now s"
    and fits: "rn_archived_jobs c \<le> 100000" "rn_dead_letter c \<le> 100000" "rn_task_logs c \<le> 100000"
      "rn_task_metrics c \<le> 100000" "rn_job_errors c \<le> 100000"
  shows "\<exists>s'. sweep_tables e e' w now s = (s', c) \<and> history s' = unexpired (cutoffs w now) now s"
proof -
  note cut = cutoffs_def Let_def assms(5) retention_cutoffs.simps
  note cnt = c [unfolded count_expired_eq cut]
  let ?a = "cutoff_at now (archived_jobs_ttl_ms w)" and ?d = "cutoff_at now (dead_letter_ttl_ms w)"
  let ?j = "cutoff_at now (job_errors_ttl_ms w)" and ?m = "cutoff_at now (task_metrics_ttl_ms w)"
  let ?l = "cutoff_at now (task_logs_ttl_ms w)"
  obtain s1 where s1: "sweep (purge_completed_with_ttl e ?a) s = (s1, rn_archived_jobs c)"
    "archived_jobs s1 = filter (\<lambda>a. \<not> archived_expired ?a now a) (archived_jobs s)"
    "dead_letter s1 = dead_letter s" "side_tables s1 = side_tables s" "db_ok s1"
    using archived_sweep [OF assms(1), of e ?a] assms(3) fits(1) unfolding cnt
    by (auto simp: sweep_def split: option.splits)
  obtain s2 where s2: "sweep (purge_dead_with_ttl e' ?d) s1 = (s2, rn_dead_letter c)"
    "dead_letter s2 = filter (\<lambda>d. \<not> dead_expired ?d now d) (dead_letter s)"
    "archived_jobs s2 = archived_jobs s1" "side_tables s2 = side_tables s"
    using dead_sweep [OF s1(5), of e' ?d] s1(3,4) assms(4) fits(2) unfolding cnt
    by (auto simp: sweep_def split: option.splits)
  have lo: "logs_ok s2" using assms(2) s2(4) by simp
  have same: "job_errors s2 = job_errors s" "task_logs s2 = task_logs s" "task_metrics s2 = task_metrics s"
    using s2(4) by simp_all
  obtain s3 where s3: "sweep_some purge_job_errors ?j s2 = (s3, rn_job_errors c)"
    "history s3 = history (s2\<lparr>job_errors := filter (\<lambda>x. \<not> past ?j (je_failed_at x)) (job_errors s)\<rparr>)" "logs_ok s3"
    using sweep_some_job_errors [OF lo, of ?j] fits(5) unfolding cnt retention_counts.simps same by blast
  have same3: "task_metrics s3 = task_metrics s" "task_logs s3 = task_logs s" using s3(2) same by simp_all
  obtain s4 where s4: "sweep_some purge_metrics ?m s3 = (s4, rn_task_metrics c)"
    "history s4 = history (s3\<lparr>task_metrics := filter (\<lambda>x. \<not> past ?m (tm_recorded_at x)) (task_metrics s)\<rparr>)" "logs_ok s4"
    using sweep_some_metrics [OF s3(3), of ?m] fits(4) unfolding cnt retention_counts.simps same3 by blast
  have same4: "task_logs s4 = task_logs s" using s4(2) same3 by simp
  obtain s5 where s5: "sweep_some purge_task_logs ?l s4 = (s5, rn_task_logs c)"
    "history s5 = history (s4\<lparr>task_logs := filter (\<lambda>x. \<not> past ?l (tl_logged_at x)) (task_logs s)\<rparr>)"
    using sweep_some_logs [OF s4(3), of ?l] fits(3) unfolding cnt retention_counts.simps same4 by blast
  have "sweep_tables e e' w now s = (s5, c)" by (simp add: sweep_tables_def s1(1) s2(1) s3(1) s4(1) s5(1))
  moreover have "history s5 = unexpired (cutoffs w now) now s"
    using s5(2) s4(2) s3(2) s2(2,3) s1(2) same unfolding unexpired_def cut by simp
  ultimately show ?thesis by blast
qed

lemma resolve_explicit [simp]: "resolve_effective_retention (Some c) ttl = sanitized c"
  by (simp add: resolve_effective_retention_def)

lemma sanitized_idem [simp]: "sanitized (sanitized w) = sanitized w"
  by (auto simp: sanitized_def keep_window_def split: option.splits)

text \<open>The election and the publication touch the locks and the settings only.\<close>

lemma try_lead_frame:
  "history (fst (try_lead e e' n owner ttl s)) = history s"
  "dashboard_settings (fst (try_lead e e' n owner ttl s)) = dashboard_settings s"
  by (auto simp: try_lead_def extend_lock_def acquire_lock_def write_transaction_def Let_def
      split: sum.splits bool.splits option.splits if_splits)

lemma publish_frame: "history (fst (publish_retention k e c w src code now s)) = history s"
  by (simp add: publish_retention_def publish_effective_retention_def set_setting_def split: sum.splits)

lemma count_expired_history: "history s = history s' \<Longrightarrow> count_expired_rows c now s = count_expired_rows c now s'"
  by (simp add: count_expired_rows_def cong: option.case_cong)

lemma override_frame:
  "dashboard_settings s = dashboard_settings s' \<Longrightarrow> read_retention_override dec ns s = read_retention_override dec ns s'"
  by (simp add: read_retention_override_def get_setting_def)

section \<open>What the quotas remove\<close>

text \<open>
  From \<open>s\<close> to \<open>s'\<close> exactly \<open>n\<close> archived jobs and dead letters are gone, and nothing else of the
  history.
\<close>

definition removes :: "db \<Rightarrow> db \<Rightarrow> nat \<Rightarrow> bool" where
  "removes s s' n \<longleftrightarrow> subseq (archived_jobs s') (archived_jobs s) \<and> subseq (dead_letter s') (dead_letter s)
     \<and> length (archived_jobs s') + length (dead_letter s') + n = length (archived_jobs s) + length (dead_letter s)
     \<and> side_tables s' = side_tables s"

lemma removes_refl [simp]: "removes s s 0"
  by (simp add: removes_def)

lemma removes_trans: "removes s s1 n \<Longrightarrow> removes s1 s2 m \<Longrightarrow> removes s s2 (n + m)"
  unfolding removes_def by (auto intro: subseq_order.trans)

lemma length_delete_where: "length (delete_where p xs) + length (filter p xs) = length xs"
  using sum_length_filter_compl [of p xs] by (simp add: delete_where_def)

lemma drain_loop_removes:
  assumes "\<And>x. \<exists>x' n. f x = (x', Inr n) \<and> removes (get x) (get x') n"
  shows "\<exists>x' n. drain_loop k f acc x = (x', Inr (acc + n)) \<and> removes (get x) (get x') n"
proof (induction k arbitrary: acc x)
  case (Suc k)
  obtain x1 n where x1: "f x = (x1, Inr n)" "removes (get x) (get x1) n" using assms by blast
  obtain x2 m where "drain_loop k f (acc + n) x1 = (x2, Inr (acc + n + m))" "removes (get x1) (get x2) m"
    using Suc.IH by blast
  then show ?case using x1 removes_trans [OF x1(2)] by (cases "n < PURGE_BATCH") (auto simp: add.assoc)
next
  case (0 acc x)
  then show ?case by (intro exI [of _ x] exI [of _ 0]) simp
qed

lemma trim_oldest_removes:
  assumes "\<And>lim s. \<exists>s' n. del lim s = (s', Inr n) \<and> removes s s' n"
  shows "\<exists>s' n. trim_oldest excess del s = (s', Inr n) \<and> removes s s' n"
proof -
  have "\<exists>x' n. trim_step del x = (x', Inr n) \<and> removes (fst x) (fst x') n" for x
  proof (cases x)
    case (Pair s rem)
    obtain s' n where "del (min rem (int PURGE_BATCH)) s = (s', Inr n)" "removes s s' n" using assms by blast
    then show ?thesis by (cases "rem = 0") (simp_all add: trim_step_def Pair)
  qed
  from drain_loop_removes [of "trim_step del" fst, OF this]
  obtain x' n where "drain_batches (trim_step del) (s, max excess 0) = (x', Inr n)" "removes s (fst x') n"
    unfolding drain_batches_def by fastforce
  then show ?thesis by (cases x') (simp add: trim_oldest_def)
qed

lemma trim_archived_removes: "\<exists>s' n. trim_archived_over ns keep s = (s', Inr n) \<and> removes s s' n"
  unfolding trim_archived_over_def
proof (rule trim_oldest_removes)
  fix lim and s :: db
  define ids where "ids = map jid (sql_limit lim (sort_key (\<lambda>a. (completed_at a, jid a))
    (filter (\<lambda>a. namespace a = ns) (archived_jobs s))))"
  have "trim_archived_batch ns lim s = (fst (purge_archived_id_batch ids False s), Inr (snd (purge_archived_id_batch ids False s)))"
    by (simp add: trim_archived_batch_def write_transaction_def ids_def split: prod.splits)
  moreover have "removes s (fst (purge_archived_id_batch ids False s)) (snd (purge_archived_id_batch ids False s))"
    using length_delete_where [of "\<lambda>a. jid a \<in> set ids" "archived_jobs s"]
    by (simp add: removes_def purge_archived_id_batch_sel archived_id_batch_side delete_where_def)
  ultimately show "\<exists>s' n. trim_archived_batch ns lim s = (s', Inr n) \<and> removes s s' n" by blast
qed

lemma trim_dead_removes: "\<exists>s' n. trim_dead_over ns keep s = (s', Inr n) \<and> removes s s' n"
  unfolding trim_dead_over_def
proof (rule trim_oldest_removes)
  fix lim and s :: db
  let ?p = "\<lambda>d. dl_namespace d = ns" and ?o = "\<lambda>d. (dl_failed_at d, dl_id d)"
  define ids where "ids = map dl_id (sql_limit lim (sort_key ?o (filter ?p (dead_letter s))))"
  have "trim_rows_batch dead_letter put_dead dl_id ?o ?p lim s
      = (put_dead (delete_where (\<lambda>d. dl_id d \<in> set ids) (dead_letter s)) s,
         Inr (length (filter (\<lambda>d. dl_id d \<in> set ids) (dead_letter s))))"
    by (simp add: trim_rows_batch_def write_transaction_def delete_by_ids_def ids_def)
  moreover have "removes s (put_dead (delete_where (\<lambda>d. dl_id d \<in> set ids) (dead_letter s)) s)
      (length (filter (\<lambda>d. dl_id d \<in> set ids) (dead_letter s)))"
    using length_delete_where [of "\<lambda>d. dl_id d \<in> set ids" "dead_letter s"] by (simp add: removes_def delete_where_def)
  ultimately show "\<exists>s' n. trim_rows_batch dead_letter put_dead dl_id ?o ?p lim s = (s', Inr n) \<and> removes s s' n"
    by blast
qed

lemma sweep_ceiling_removes:
  assumes "\<And>keep. \<exists>s' n. trim keep s = (s', Inr n) \<and> removes s s' n"
  shows "\<exists>s' n. (case lim of Some keep \<Rightarrow> sweep (trim keep) s | None \<Rightarrow> (s, 0)) = (s', n) \<and> removes s s' n"
proof (cases lim)
  case None
  then show ?thesis by (intro exI [of _ s] exI [of _ 0]) simp
next
  case (Some keep)
  obtain s' n where "trim keep s = (s', Inr n)" "removes s s' n" using assms by blast
  then show ?thesis using Some by (simp add: sweep_def)
qed

lemma trim_one_removes: "\<exists>m. trim_one from_json kv (s, n) = (fst (trim_one from_json kv (s, n)), n + m)
    \<and> removes s (fst (trim_one from_json kv (s, n))) m"
proof -
  obtain key raw where kv: "kv = (key, raw)" by (cases kv)
  show ?thesis
  proof (cases "namespace_of_quota_key key")
    case (Some ns)
    show ?thesis
    proof (cases "from_json raw")
      case (Inr quota)
      obtain s1 m1 where s1: "(case nq_max_archived_rows quota of
          Some keep \<Rightarrow> sweep (trim_archived_over ns keep) s | None \<Rightarrow> (s, 0)) = (s1, m1)" "removes s s1 m1"
        using sweep_ceiling_removes [of "trim_archived_over ns" s, OF trim_archived_removes] by blast
      obtain s2 m2 where s2: "(case nq_max_dead_rows quota of
          Some keep \<Rightarrow> sweep (trim_dead_over ns keep) s1 | None \<Rightarrow> (s1, 0)) = (s2, m2)" "removes s1 s2 m2"
        using sweep_ceiling_removes [of "trim_dead_over ns" s1, OF trim_dead_removes] by blast
      have "trim_one from_json kv (s, n) = (s2, n + (m1 + m2))"
        unfolding trim_one_def kv using Some Inr s1(1) s2(1) by simp
      then show ?thesis using removes_trans [OF s1(2) s2(2)] by auto
    qed (simp add: trim_one_def kv Some exI [of _ 0])
  qed (simp add: trim_one_def kv exI [of _ 0])
qed

lemma trim_to_quotas_removes:
  "trim_to_quotas from_json ord s = (s', n) \<Longrightarrow> removes s s' n"
proof -
  have fold: "fold (trim_one from_json) kvs (s, n) = (s', m) \<Longrightarrow> \<exists>k. m = n + k \<and> removes s s' k" for kvs s n s' m
  proof (induction kvs arbitrary: s n)
    case (Cons kv kvs)
    obtain s1 k where s1: "trim_one from_json kv (s, n) = (s1, n + k)" "removes s s1 k"
      using trim_one_removes [of from_json kv s n] by metis
    with Cons.prems Cons.IH [of s1 "n + k"] obtain l where "m = n + k + l" "removes s1 s' l" by auto
    then show ?case using removes_trans [OF s1(2)] by (metis add.assoc)
  qed (auto intro: exI [of _ 0])
  assume "trim_to_quotas from_json ord s = (s', n)"
  then show ?thesis unfolding trim_to_quotas_def by (auto dest!: fold)
qed

lemma topic_sweep_frame: "history (fst (sweep (purge_topic_messages ord ord' now limit) s)) = history s"
  by (simp add: purge_topic_messages_def Let_def)

text \<open>The counts of the dry run say how many rows the unexpired ones are short of all.\<close>

lemma count_two:
  assumes "\<And>t x. \<not> (g t x \<and> q x)"
  shows "(case cutoff of Some t \<Rightarrow> length (filter (g t) xs) | None \<Rightarrow> 0) + length (filter q xs)
    = length (filter (\<lambda>x. q x \<or> (\<exists>c. cutoff = Some c \<and> g c x)) xs)"
  using assms by (induction xs) (auto split: option.splits)

lemma count_expired_length:
  assumes "count_expired_rows c now s = n" and "unexpired c now s = (ka, kd, kl, km, ke)"
  shows "length (archived_jobs s) = rn_archived_jobs n + length ka" "length (dead_letter s) = rn_dead_letter n + length kd"
    "length (task_logs s) = rn_task_logs n + length kl" "length (task_metrics s) = rn_task_metrics n + length km"
    "length (job_errors s) = rn_job_errors n + length ke"
proof -
  have arch: "(case cutoff of Some t \<Rightarrow> length (filter (past_global_cutoff t) xs) | None \<Rightarrow> 0)
      + length (filter (past_own_ttl now) xs) = length (filter (archived_expired cutoff now) xs)"
    for cutoff and xs :: "archived_job_row list"
    unfolding archived_expired_iff [abs_def]
    by (rule count_two) (auto simp: past_global_cutoff_def past_own_ttl_def)
  have dead: "(case cutoff of Some t \<Rightarrow> length (filter (dead_past_cutoff t) xs) | None \<Rightarrow> 0)
      + length (filter (dead_past_ttl now) xs) = length (filter (dead_expired cutoff now) xs)"
    for cutoff and xs :: "dead_letter_row list"
    unfolding dead_expired_iff [abs_def]
    by (rule count_two) (auto simp: dead_past_cutoff_def dead_past_ttl_def)
  show "length (archived_jobs s) = rn_archived_jobs n + length ka" "length (dead_letter s) = rn_dead_letter n + length kd"
    "length (task_logs s) = rn_task_logs n + length kl" "length (task_metrics s) = rn_task_metrics n + length km"
    "length (job_errors s) = rn_job_errors n + length ke"
    using assms unfolding unexpired_def count_expired_eq arch dead by (auto simp: sum_length_filter_compl)
qed

section \<open>Properties\<close>

text \<open>
  C7. The retention preview predicts the cleanup. When the elected cleaner honours overrides,
  its clocks show the time of the preview and what the preview counts fits one sweep per table,
  a tick deletes exactly the rows past the windows of the preview, for an explicit, legacy or
  defaulted configuration and with a stored dashboard override, switched on or off. The logs,
  metrics and errors afterwards are the unexpired ones, and the preview counted the others. Of
  the archived jobs and the dead letters only unexpired ones are left, the preview counted the
  expired ones, and what is missing beyond those is what the row quotas trimmed and reported.
\<close>

theorem preview_predicts_cleanup:
  assumes "db_ok s" and "logs_ok s"
    and "dry_run_applied (dec_override k) (cn_retention c) (cn_result_ttl_ms c) (cn_namespace c) now s = Inr p"
    and "snd (try_lead (es 0) (es 1) RETENTION_LOCK (cn_claim_owner c) RETENTION_LOCK_TTL_MS s) = Inr True"
    and "cn_honor_retention_override c"
    and "now_millis (es 2) = now" and "now_millis (es 4) = now" and "now_millis (es 5) = now"
    and "rn_archived_jobs (rp_counts p) \<le> 100000" and "rn_dead_letter (rp_counts p) \<le> 100000"
    and "rn_task_logs (rp_counts p) \<le> 100000" and "rn_task_metrics (rp_counts p) \<le> 100000"
    and "rn_job_errors (rp_counts p) \<le> 100000"
  shows "\<exists>s' topic_msgs trimmed ka kd.
    auto_cleanup k es ord ord1 ord2 c s = (s', Some (rp_counts p, topic_msgs, trimmed))
    \<and> unexpired (cutoffs (rp_windows p) now) now s = (ka, kd, task_logs s', task_metrics s', job_errors s')
    \<and> length (task_logs s) = rn_task_logs (rp_counts p) + length (task_logs s')
    \<and> length (task_metrics s) = rn_task_metrics (rp_counts p) + length (task_metrics s')
    \<and> length (job_errors s) = rn_job_errors (rp_counts p) + length (job_errors s')
    \<and> length (archived_jobs s) = rn_archived_jobs (rp_counts p) + length ka \<and> subseq (archived_jobs s') ka
    \<and> length (dead_letter s) = rn_dead_letter (rp_counts p) + length kd \<and> subseq (dead_letter s') kd
    \<and> length (archived_jobs s') + length (dead_letter s') + trimmed = length ka + length kd"
proof -
  let ?code = "resolve_effective_retention (cn_retention c) (cn_result_ttl_ms c)"
  obtain s1 where lead: "try_lead (es 0) (es 1) RETENTION_LOCK (cn_claim_owner c) RETENTION_LOCK_TTL_MS s = (s1, Inr True)"
    using assms(4) by (cases "try_lead (es 0) (es 1) RETENTION_LOCK (cn_claim_owner c) RETENTION_LOCK_TTL_MS s") auto
  have s1: "history s1 = history s" "dashboard_settings s1 = dashboard_settings s" "db_ok s1"
    using try_lead_frame [of "es 0" "es 1" RETENTION_LOCK "cn_claim_owner c" RETENTION_LOCK_TTL_MS s]
      try_lead_keeps [OF assms(1), of "es 0" "es 1" RETENTION_LOCK "cn_claim_owner c" RETENTION_LOCK_TTL_MS]
    unfolding lead by simp_all
  obtain w src where w: "sweep_windows k c ?code s1 = (w, src)" by fastforce
  have wp: "sanitized w = w" "rp_windows p = w" "rp_counts p = count_expired_rows (cutoffs w now) now s"
    using w assms(3,5) unfolding sweep_windows_def override_frame [OF s1(2)]
    by (auto simp: dry_run_applied_def dry_run_def Let_def active_windows_def
        split: sum.splits option.splits bind_splits if_splits)
  let ?s2 = "fst (publish_retention k (es 3) c w src ?code now s1)"
  have h2: "history ?s2 = history s" using publish_frame [of k "es 3" c w src ?code now s1] s1(1) by simp
  obtain s3 where s3: "sweep_tables (es 4) (es 5) w now ?s2 = (s3, rp_counts p)"
    "history s3 = unexpired (cutoffs w now) now ?s2"
    using sweep_matches_counts [OF publish_retention_keeps [OF s1(3)] _ assms(7,8) wp(1), of k "es 3" c w src ?code now]
      wp(3) assms(2,9-) h2 count_expired_history [OF h2, of "cutoffs w now" now] by auto
  obtain s4 topic_msgs where s4: "sweep (purge_topic_messages ord1 ord2 now TOPIC_MESSAGE_PURGE_LIMIT) s3 = (s4, topic_msgs)"
    by fastforce
  have h4: "history s4 = unexpired (cutoffs w now) now s"
    using topic_sweep_frame [of ord1 ord2 now TOPIC_MESSAGE_PURGE_LIMIT s3] s3(2) h2 unfolding s4 by (simp add: unexpired_def)
  obtain s5 trimmed where s5: "trim_to_quotas (dec_quota k) ord s4 = (s5, trimmed)" by fastforce
  have "auto_cleanup k es ord ord1 ord2 c s = (s5, Some (rp_counts p, topic_msgs, trimmed))"
    unfolding auto_cleanup_def lead using s3(1) s4 s5
    by (simp add: Let_def w assms(6) case_prod_unfold del: sweep_fst)
  moreover note trim_to_quotas_removes [OF s5] count_expired_length [OF wp(3) [symmetric] h4 [symmetric]]
  ultimately show ?thesis using h4 unfolding wp(2) removes_def by (metis prod.inject)
qed

definition demo_cleaner :: cleaner where
  "demo_cleaner = \<lparr>cn_namespace = None, cn_claim_owner = ''me'', cn_retention = None,
     cn_result_ttl_ms = Some 50, cn_honor_retention_override = True\<rparr>"

definition no_codecs :: codecs where
  "no_codecs = \<lparr>dec_override = (\<lambda>_. Inl (Json [])), enc_effective = (\<lambda>_. Inr []), dec_quota = (\<lambda>_. Inl (Json []))\<rparr>"

theorem preview_predicts_cleanup_witness:
  "\<exists>s' topic_msgs trimmed. auto_cleanup no_codecs (\<lambda>_. plain_env 200) id id id demo_cleaner (waiting_db Complete)
     = (s', Some (\<lparr>rn_archived_jobs = 1, rn_dead_letter = 0, rn_task_logs = 0, rn_task_metrics = 0, rn_job_errors = 0\<rparr>,
         topic_msgs, trimmed))
     \<and> archived_jobs s' = []"
proof -
  let ?s = "waiting_db Complete"
  let ?p = "dry_run None (Some 50) None 200 ?s"
  have c: "rp_counts ?p = \<lparr>rn_archived_jobs = 1, rn_dead_letter = 0, rn_task_logs = 0, rn_task_metrics = 0, rn_job_errors = 0\<rparr>"
    by (simp add: dry_run_def Let_def count_expired_rows_def cutoffs_def sanitized_def keep_window_def cutoff_at_def
        resolve_effective_retention_def uniform_retention_def waiting_db_def live_db_def empty_db_def
        saturating_sub_def i64_defs)
  have p: "dry_run_applied (dec_override no_codecs) (cn_retention demo_cleaner) (cn_result_ttl_ms demo_cleaner)
      (cn_namespace demo_cleaner) 200 ?s = Inr ?p"
    by (simp add: dry_run_applied_def read_retention_override_def get_setting_def demo_cleaner_def
        waiting_db_def live_db_def empty_db_def)
  have lead: "snd (try_lead (plain_env 200) (plain_env 200) RETENTION_LOCK (cn_claim_owner demo_cleaner)
      RETENTION_LOCK_TTL_MS ?s) = Inr True"
    by (simp add: try_lead_def extend_lock_def acquire_lock_def write_transaction_def Let_def count_where_def
        update_where_def waiting_db_def live_db_def empty_db_def)
  have ok: "db_ok ?s" "logs_ok ?s" by (simp_all add: waiting_db_ok) (simp_all add: waiting_db_def live_db_def empty_db_def)
  have rows: "length (archived_jobs ?s) = 1" by (simp add: waiting_db_def)
  obtain s' topic_msgs trimmed ka where run: "auto_cleanup no_codecs (\<lambda>_. plain_env 200) id id id demo_cleaner ?s
      = (s', Some (rp_counts ?p, topic_msgs, trimmed))"
    and "length (archived_jobs ?s) = rn_archived_jobs (rp_counts ?p) + length ka" "subseq (archived_jobs s') ka"
    using preview_predicts_cleanup [OF ok p, of "\<lambda>_. plain_env 200" id id id] lead
    unfolding c by (auto simp: demo_cleaner_def)
  then have "archived_jobs s' = []" using rows c by simp
  then show ?thesis using run c by auto
qed

text \<open>
  Quota keys are read back: the length in front makes a colon inside a namespace harmless, and
  a namespace called \<open>default\<close> has another key than the default namespace.
\<close>

lemma parse_usize_show: "n < 2 ^ 64 \<Longrightarrow> parse_usize (show_nat n) = Some n"
proof -
  assume n: "n < 2 ^ 64"
  obtain c cs where s: "show_nat n = c # cs" by (cases "show_nat n") auto
  then have "c \<noteq> CHR ''+''" using show_nat_digits [of c n] by (auto simp: is_digit_def)
  then show ?thesis using n parse_show_nat [of n] unfolding s by (simp add: parse_usize_def)
qed

lemma quota_key_roundtrip:
  assumes "\<And>n. ns = Some n \<Longrightarrow> length n < 2 ^ 64"
  shows "namespace_of_quota_key (quota_key ns) = Some ns"
proof (cases ns)
  case (Some n)
  have "CHR '':'' \<notin> set (show_nat k)" for k using show_nat_digits colon_not_digit by blast
  then have "split_once (CHR '':'') (show_nat (length n) @ CHR '':'' # n) = Some (show_nat (length n), n)"
    by (rule split_once_append)
  moreover have "quota_key ns \<noteq> ''quota:default''" by (simp add: quota_key_def Some)
  moreover have "strip_prefix ''quota:ns:'' (quota_key ns) = Some (show_nat (length n) @ CHR '':'' # n)"
    by (simp add: quota_key_def Some strip_prefix_def)
  ultimately show ?thesis using assms Some
    by (simp add: namespace_of_quota_key_def parse_usize_show)
qed (simp add: namespace_of_quota_key_def quota_key_def)

lemma quota_key_inj:
  assumes "\<And>n. Some n \<in> {a, b} \<Longrightarrow> length n < 2 ^ 64" and "quota_key a = quota_key b"
  shows "a = b"
proof -
  have "Some a = namespace_of_quota_key (quota_key a)"
    by (rule quota_key_roundtrip [symmetric], rule assms(1)) simp
  also have "\<dots> = Some b"
    unfolding assms(2) by (rule quota_key_roundtrip, rule assms(1)) simp
  finally show ?thesis by simp
qed

text \<open>The retention keys have no such prefix: the namespace \<open>default\<close> shares its documents with the default namespace.\<close>

lemma retention_keys_shared:
  "retention_override_key (Some ''default'') = retention_override_key None"
  "retention_setting_key (Some ''default'') = retention_setting_key None"
  by (simp_all add: retention_override_key_def retention_setting_key_def DEFAULT_NAMESPACE_def)

end
