(* ===== verification/Resilience.thy ===== *)
theory Resilience
  imports Registry
begin

text \<open>
  Resilience (\<open>resilience/retry.rs\<close>, \<open>resilience/circuit_breaker.rs\<close>): the retry schedule
  with full jitter, and the circuit breaker of a task over its row in the database. The
  success rate of the half-open state is an \<open>f64\<close> quotient of two \<open>i32\<close>; it is rounded here
  as IEEE 754 rounds it.
\<close>

section \<open>The retry schedule\<close>

text \<open>\<open>r\<close> is the random \<open>u64\<close> the call draws.\<close>

definition full_jitter :: "64 word \<Rightarrow> millis \<Rightarrow> millis" where
  "full_jitter r cap = (if cap \<le> 0 then 0 else uint r mod (cap + 1))"

text \<open>Rust's integer division truncates toward zero.\<close>

definition trunc_half :: "int \<Rightarrow> int" where
  "trunc_half x = (if 0 \<le> x then x div 2 else - ((- x) div 2))"

definition desync_delay :: "64 word \<Rightarrow> millis \<Rightarrow> millis" where
  "desync_delay r base = saturating_add base (full_jitter r (trunc_half base))"

record retry_policy =
  rt_max_retries :: int
  rt_base_delay_ms :: millis
  rt_max_delay_ms :: millis
  rt_custom_delays_ms :: "millis list option"

definition default_retry_policy :: retry_policy where
  "default_retry_policy = \<lparr>rt_max_retries = 3, rt_base_delay_ms = 1000, rt_max_delay_ms = 300000,
     rt_custom_delays_ms = None\<rparr>"

text \<open>
  \<open>delays.get(retry_count as usize)\<close>: a negative count becomes a huge index and finds nothing.
  The sums are plain \<open>i64\<close> additions, and the shift amount is masked to six bits.
\<close>

definition custom_delay :: "retry_policy \<Rightarrow> int \<Rightarrow> millis option" where
  "custom_delay p rc =
     (case rt_custom_delays_ms p of
        None \<Rightarrow> None
      | Some ds \<Rightarrow> if 0 \<le> rc \<and> nat rc < length ds then Some (ds ! nat rc) else None)"

definition backoff_cap :: "retry_policy \<Rightarrow> int \<Rightarrow> millis" where
  "backoff_cap p rc =
     min (sat_i64 (rt_base_delay_ms p * wrap_i64 (2 ^ nat (min rc 30 mod 64)))) (rt_max_delay_ms p)"

definition next_retry_at :: "env \<Rightarrow> retry_policy \<Rightarrow> int \<Rightarrow> millis" where
  "next_retry_at e p rc =
     (case custom_delay p rc of
        Some d \<Rightarrow> wrap_i64 (now_millis e + d)
      | None \<Rightarrow> wrap_i64 (now_millis e + full_jitter (rand_u64 e 0) (backoff_cap p rc)))"

definition should_retry :: "retry_policy \<Rightarrow> int \<Rightarrow> bool" where
  "should_retry p rc \<longleftrightarrow> rc < rt_max_retries p"

section \<open>Quotients of \<open>i32\<close> as \<open>f64\<close>\<close>

fun bit_length :: "nat \<Rightarrow> nat" where
  "bit_length n = (if n = 0 then 0 else Suc (bit_length (n div 2)))"

declare bit_length.simps [simp del]

text \<open>Round half to even of \<open>n / d\<close>.\<close>

definition round_half_even :: "nat \<Rightarrow> nat \<Rightarrow> nat" where
  "round_half_even n d =
     (let q = n div d; r = n mod d
      in if 2 * r < d \<or> 2 * r = d \<and> even q then q else Suc q)"

text \<open>
  The \<open>f64\<close> nearest to \<open>a / b\<close> for positive \<open>a\<close> and \<open>b\<close>: the quotient is scaled so that its
  integer part has 53 bits. Operands of 31 bits stay far from the subnormal range.
\<close>

definition f64_quotient :: "nat \<Rightarrow> nat \<Rightarrow> f64" where
  "f64_quotient a b =
     (let k = int (bit_length a) - int (bit_length b);
          scale = (\<lambda>e. if 0 \<le> e then (a, b * 2 ^ nat e) else (a * 2 ^ nat (- e), b));
          (n, d) = scale (k - 53);
          e = (if n div d < 2 ^ 53 then k - 53 else k - 52);
          (n', d') = scale e
      in F64 (int (round_half_even n' d')) e)"

definition f64_le :: "f64 \<Rightarrow> f64 \<Rightarrow> bool" where
  "f64_le x y \<longleftrightarrow>
     (if exponent y \<le> exponent x
      then significand x * 2 ^ nat (exponent x - exponent y) \<le> significand y
      else significand x \<le> significand y * 2 ^ nat (exponent y - exponent x))"

text \<open>\<open>a as f64 / b as f64 >= r\<close>; dividing by zero gives an infinity, or no number for \<open>0 / 0\<close>.\<close>

definition quotient_ge :: "int \<Rightarrow> int \<Rightarrow> f64 \<Rightarrow> bool" where
  "quotient_ge a b r =
     (if b = 0 then 0 < a
      else if a = 0 then f64_le r (F64 0 0)
      else if (0 < a) = (0 < b) then f64_le r (f64_quotient (nat \<bar>a\<bar>) (nat \<bar>b\<bar>))
      else (let q = f64_quotient (nat \<bar>a\<bar>) (nat \<bar>b\<bar>) in f64_le r (F64 (- significand q) (exponent q))))"

text \<open>The rounding is to a nearest integer; the default rate \<open>0.8\<close> is met by 4 of 5 probes and not by 3.\<close>

lemma round_half_even_nearest:
  assumes "0 < d"
  shows "2 * \<bar>int n - int (round_half_even n d) * int d\<bar> \<le> int d"
proof -
  have n: "int n = int (n div d) * int d + int (n mod d)"
    by (metis div_mult_mod_eq of_nat_add of_nat_mult)
  have r: "n mod d < d" using assms by simp
  show ?thesis unfolding round_half_even_def Let_def n using r by (auto simp: algebra_simps)
qed

lemma default_rate_reached:
  "quotient_ge 4 5 (F64 7205759403792794 (- 53))" "\<not> quotient_ge 3 5 (F64 7205759403792794 (- 53))"
  by (simp_all add: quotient_ge_def f64_quotient_def bit_length.simps Let_def round_half_even_def f64_le_def)

section \<open>The circuit breaker\<close>

datatype circuit_state = Closed | Open | HalfOpen

definition circuit_i32 :: "circuit_state \<Rightarrow> int" where
  "circuit_i32 c = (case c of Closed \<Rightarrow> 0 | Open \<Rightarrow> 1 | HalfOpen \<Rightarrow> 2)"

definition circuit_from_i32 :: "int \<Rightarrow> circuit_state" where
  "circuit_from_i32 v = (if v = 1 then Open else if v = 2 then HalfOpen else Closed)"

definition circuit_str :: "circuit_state \<Rightarrow> string" where
  "circuit_str c = (case c of Closed \<Rightarrow> ''closed'' | Open \<Rightarrow> ''open'' | HalfOpen \<Rightarrow> ''half_open'')"

record breaker_config =
  bc_threshold :: int
  bc_window_ms :: millis
  bc_cooldown_ms :: millis
  bc_half_open_max_probes :: int
  bc_half_open_success_rate :: f64

definition reset_probes :: "breaker_row \<Rightarrow> breaker_row" where
  "reset_probes r = r\<lparr>cb_half_open_probe_count := 0, cb_half_open_success_count := 0,
     cb_half_open_failure_count := 0\<rparr>"

definition reopened :: "millis \<Rightarrow> breaker_row \<Rightarrow> breaker_row" where
  "reopened now r = reset_probes (r\<lparr>cb_state := circuit_i32 Open, cb_opened_at := Some now, cb_half_open_at := None\<rparr>)"

definition closed_clean :: "breaker_row \<Rightarrow> breaker_row" where
  "closed_clean r = reset_probes (r\<lparr>cb_state := circuit_i32 Closed, cb_failure_count := 0,
     cb_opened_at := None, cb_half_open_at := None\<rparr>)"

definition put_breaker :: "breaker_row \<Rightarrow> 'a \<Rightarrow> 'a op" where
  "put_breaker r a s =
     (case upsert_circuit_breaker r s of (s', Inl err) \<Rightarrow> (s', Inl err) | (s', Inr _) \<Rightarrow> (s', Inr a))"

definition allow_open :: "millis \<Rightarrow> breaker_row \<Rightarrow> bool op" where
  "allow_open now row =
     (if cb_cooldown_ms row \<le> saturating_sub now (case cb_opened_at row of Some t \<Rightarrow> t | None \<Rightarrow> 0)
      then put_breaker (reset_probes (row\<lparr>cb_state := circuit_i32 HalfOpen, cb_half_open_at := Some now\<rparr>)) True
      else (\<lambda>s. (s, Inr False)))"

definition allow_half_open :: "millis \<Rightarrow> breaker_row \<Rightarrow> bool op" where
  "allow_half_open now row =
     (if cb_half_open_probe_count row < cb_half_open_max_probes row
      then put_breaker (row\<lparr>cb_half_open_probe_count := wrap_i32 (cb_half_open_probe_count row + 1)\<rparr>) True
      else if cb_cooldown_ms row \<le> saturating_sub now (case cb_half_open_at row of Some t \<Rightarrow> t | None \<Rightarrow> 0)
      then put_breaker (reopened now row) False
      else (\<lambda>s. (s, Inr False)))"

definition allow :: "env \<Rightarrow> string \<Rightarrow> bool op" where
  "allow e task s =
     (case get_circuit_breaker task s of
        None \<Rightarrow> (s, Inr True)
      | Some row \<Rightarrow>
          (case circuit_from_i32 (cb_state row) of
             Closed \<Rightarrow> (s, Inr True)
           | Open \<Rightarrow> allow_open (now_millis e) row s
           | HalfOpen \<Rightarrow> allow_half_open (now_millis e) row s))"

definition record_success_half_open :: "env \<Rightarrow> breaker_row \<Rightarrow> unit op" where
  "record_success_half_open e row =
     (let successes = wrap_i32 (cb_half_open_success_count row + 1);
          total = wrap_i32 (successes + cb_half_open_failure_count row)
      in if cb_half_open_max_probes row \<le> total
         then (if quotient_ge successes total (cb_half_open_success_rate row)
               then put_breaker (closed_clean row) ()
               else put_breaker (reopened (now_millis e) row) ())
         else put_breaker (row\<lparr>cb_half_open_success_count := successes\<rparr>) ())"

definition record_success :: "env \<Rightarrow> string \<Rightarrow> unit op" where
  "record_success e task s =
     (case get_circuit_breaker task s of
        None \<Rightarrow> (s, Inr ())
      | Some row \<Rightarrow>
          (case circuit_from_i32 (cb_state row) of
             HalfOpen \<Rightarrow> record_success_half_open e row s
           | st \<Rightarrow>
               if st = Closed \<and> cb_failure_count row = 0 then (s, Inr ())
               else put_breaker (closed_clean row) () s))"

definition record_failure_half_open :: "millis \<Rightarrow> breaker_row \<Rightarrow> unit op" where
  "record_failure_half_open now row =
     (let failures = wrap_i32 (cb_half_open_failure_count row + 1);
          total = wrap_i32 (cb_half_open_success_count row + failures);
          remaining = wrap_i32 (cb_half_open_max_probes row - total);
          reachable = (if 0 < cb_half_open_max_probes row
                       then quotient_ge (wrap_i32 (cb_half_open_success_count row + remaining))
                              (cb_half_open_max_probes row) (cb_half_open_success_rate row)
                       else f64_le (cb_half_open_success_rate row) (F64 0 0));
          failed = row\<lparr>cb_failure_count := saturating_add_i32 (cb_failure_count row) 1,
                       cb_last_failure_at := Some now\<rparr>
      in if cb_half_open_max_probes row \<le> total \<or> \<not> reachable
         then put_breaker (reopened now failed) ()
         else put_breaker (failed\<lparr>cb_half_open_failure_count := failures\<rparr>) ())"

definition record_failure_closed :: "millis \<Rightarrow> breaker_row \<Rightarrow> unit op" where
  "record_failure_closed now row =
     (let count = (case cb_last_failure_at row of
                     Some last_at \<Rightarrow>
                       if cb_window_ms row < saturating_sub now last_at then 1
                       else saturating_add_i32 (cb_failure_count row) 1
                   | None \<Rightarrow> 1)
      in if cb_threshold row \<le> count
         then put_breaker (row\<lparr>cb_state := circuit_i32 Open, cb_failure_count := count,
                cb_last_failure_at := Some now, cb_opened_at := Some now, cb_half_open_at := None\<rparr>) ()
         else put_breaker (row\<lparr>cb_failure_count := count, cb_last_failure_at := Some now\<rparr>) ())"

definition record_failure :: "env \<Rightarrow> string \<Rightarrow> unit op" where
  "record_failure e task s =
     (case get_circuit_breaker task s of
        None \<Rightarrow> (s, Inr ())
      | Some row \<Rightarrow>
          (case circuit_from_i32 (cb_state row) of
             HalfOpen \<Rightarrow> record_failure_half_open (now_millis e) row s
           | Closed \<Rightarrow> record_failure_closed (now_millis e) row s
           | Open \<Rightarrow> put_breaker (row\<lparr>cb_failure_count := saturating_add_i32 (cb_failure_count row) 1,
                       cb_last_failure_at := Some (now_millis e)\<rparr>) () s))"

definition register_breaker :: "string \<Rightarrow> breaker_config \<Rightarrow> unit op" where
  "register_breaker task c s =
     (if get_circuit_breaker task s \<noteq> None then (s, Inr ())
      else put_breaker \<lparr>cb_task_name = task, cb_state = circuit_i32 Closed, cb_failure_count = 0,
             cb_last_failure_at = None, cb_opened_at = None, cb_half_open_at = None,
             cb_threshold = bc_threshold c, cb_window_ms = bc_window_ms c,
             cb_cooldown_ms = bc_cooldown_ms c,
             cb_half_open_max_probes = bc_half_open_max_probes c,
             cb_half_open_success_rate = bc_half_open_success_rate c,
             cb_half_open_probe_count = 0, cb_half_open_success_count = 0,
             cb_half_open_failure_count = 0\<rparr> () s)"

section \<open>The invariant through the breaker\<close>

lemma put_breaker_eq: "put_breaker r a s = (fst (upsert_circuit_breaker r s), Inr a)"
  by (simp add: put_breaker_def upsert_circuit_breaker_def)

lemma put_breaker_keeps: "db_ok s \<Longrightarrow> db_ok (fst (put_breaker r a s))"
  by (simp add: put_breaker_eq registry_all_keep)

lemma breaker_all_keep:
  "db_ok s \<Longrightarrow> db_ok (fst (allow e task s))"
  "db_ok s \<Longrightarrow> db_ok (fst (record_success e task s))"
  "db_ok s \<Longrightarrow> db_ok (fst (record_failure e task s))"
  "db_ok s \<Longrightarrow> db_ok (fst (register_breaker task c s))"
  by (auto simp: allow_def allow_open_def allow_half_open_def record_success_def record_success_half_open_def
      record_failure_def record_failure_half_open_def record_failure_closed_def register_breaker_def
      Let_def put_breaker_keeps split: option.splits circuit_state.splits)

lemma find_replace_into:
  "find (\<lambda>x. key x = k) (replace_into key row t) = (if k = key row then Some row else find (\<lambda>x. key x = k) t)"
  by (induction t) (auto simp: replace_into_def delete_where_def)

lemma get_put_breaker [simp]:
  "get_circuit_breaker t (fst (put_breaker r a s)) =
     (if t = cb_task_name r then Some r else get_circuit_breaker t s)"
  by (simp add: put_breaker_eq upsert_circuit_breaker_def get_circuit_breaker_def find_replace_into)

lemma snd_put_breaker [simp]: "snd (put_breaker r a s) = Inr a"
  by (simp add: put_breaker_eq)

lemma breaker_name: "get_circuit_breaker t s = Some r \<Longrightarrow> cb_task_name r = t"
  by (auto simp: get_circuit_breaker_def dest: find_SomeD)

lemma circuit_codec [simp]: "circuit_from_i32 (circuit_i32 c) = c"
  by (cases c) (simp_all add: circuit_i32_def circuit_from_i32_def)

section \<open>Runs of calls\<close>

fun failures :: "env list \<Rightarrow> string \<Rightarrow> db \<Rightarrow> db" where
  "failures [] task s = s"
| "failures (e # es) task s = failures es task (fst (record_failure e task s))"

fun allow_all :: "env list \<Rightarrow> string \<Rightarrow> db \<Rightarrow> (queue_error + bool) list" where
  "allow_all [] task s = []"
| "allow_all (e # es) task s = snd (allow e task s) # allow_all es task (fst (allow e task s))"

lemma failures_snoc: "failures (es @ [e]) task s = fst (record_failure e task (failures es task s))"
  by (induction es arbitrary: s) simp_all

text \<open>Each failure lies within the window of the one before.\<close>

fun within_window :: "millis \<Rightarrow> env list \<Rightarrow> bool" where
  "within_window w (e # e' # es) \<longleftrightarrow> saturating_sub (now_millis e') (now_millis e) \<le> w \<and> within_window w (e' # es)"
| "within_window w es \<longleftrightarrow> True"

lemma within_window_snoc:
  "within_window w (es @ [e]) \<longleftrightarrow>
     within_window w es \<and> (es \<noteq> [] \<longrightarrow> saturating_sub (now_millis e) (now_millis (last es)) \<le> w)"
  by (induction w es rule: within_window.induct) auto

lemma failure_row:
  assumes "get_circuit_breaker task s = Some r" and "cb_state r = circuit_i32 Closed"
    and "es = [] \<longrightarrow> cb_last_failure_at r = None"
    and "es \<noteq> [] \<longrightarrow> cb_failure_count r = int (length es) \<and> cb_last_failure_at r = Some (now_millis (last es))"
    and "es \<noteq> [] \<longrightarrow> saturating_sub (now_millis e) (now_millis (last es)) \<le> cb_window_ms r"
    and "int (length es) < i32_max"
  shows "get_circuit_breaker task (fst (record_failure e task s)) = Some
    (if cb_threshold r \<le> int (Suc (length es))
     then r\<lparr>cb_state := circuit_i32 Open, cb_failure_count := int (Suc (length es)),
            cb_last_failure_at := Some (now_millis e), cb_opened_at := Some (now_millis e), cb_half_open_at := None\<rparr>
     else r\<lparr>cb_failure_count := int (Suc (length es)), cb_last_failure_at := Some (now_millis e)\<rparr>)"
proof -
  have "(case cb_last_failure_at r of
      Some last_at \<Rightarrow> if cb_window_ms r < saturating_sub (now_millis e) last_at then 1
        else saturating_add_i32 (cb_failure_count r) 1
    | None \<Rightarrow> 1) = int (Suc (length es))"
    using assms(3-6) by (cases "es = []") (auto simp: saturating_add_i32_def i32_max_def i32_min_def)
  then show ?thesis using assms(1,2) breaker_name [OF assms(1)]
    by (simp add: record_failure_def record_failure_closed_def)
qed

lemma failures_below_threshold:
  assumes "get_circuit_breaker task s = Some r" and "cb_state r = circuit_i32 Closed"
    and "cb_last_failure_at r = None" and "cb_threshold r \<le> i32_max"
  shows "es \<noteq> [] \<Longrightarrow> int (length es) < cb_threshold r \<Longrightarrow> within_window (cb_window_ms r) es \<Longrightarrow>
    get_circuit_breaker task (failures es task s)
      = Some (r\<lparr>cb_failure_count := int (length es), cb_last_failure_at := Some (now_millis (last es))\<rparr>)"
proof (induction es rule: rev_induct)
  case (snoc e es)
  show ?case
  proof (cases "es = []")
    case True
    then show ?thesis using failure_row [OF assms(1,2), of "[]" e] assms(3,4) snoc.prems
      by (simp add: i32_max_def)
  next
    case False
    let ?r = "r\<lparr>cb_failure_count := int (length es), cb_last_failure_at := Some (now_millis (last es))\<rparr>"
    have "get_circuit_breaker task (failures es task s) = Some ?r"
      using snoc False by (simp add: within_window_snoc)
    from failure_row [OF this, of es e] show ?thesis
      using assms(2,4) False snoc.prems by (simp add: failures_snoc within_window_snoc)
  qed
qed simp

lemma half_open_probes:
  assumes "get_circuit_breaker task s = Some r" and "cb_state r = circuit_i32 HalfOpen"
    and "cb_half_open_at r = Some t" and "0 \<le> cb_half_open_probe_count r"
    and "cb_half_open_max_probes r \<le> i32_max"
    and "cb_half_open_max_probes r = cb_half_open_probe_count r + int k" and "length es = Suc k"
    and "\<forall>e\<in>set es. saturating_sub (now_millis e) t < cb_cooldown_ms r"
  shows "allow_all es task s = replicate k (Inr True) @ [Inr False]"
  using assms
proof (induction k arbitrary: s r es)
  case 0
  then obtain e where "es = [e]" by (cases es) auto
  then show ?case using 0 by (simp add: allow_def allow_half_open_def)
next
  case (Suc k)
  then obtain e es' where es: "es = e # es'" by (cases es) auto
  let ?r = "r\<lparr>cb_half_open_probe_count := cb_half_open_probe_count r + 1\<rparr>"
  have w: "wrap_i32 (cb_half_open_probe_count r + 1) = cb_half_open_probe_count r + 1"
    using Suc.prems by (intro wrap_i32_id) (simp add: in_i32_def i32_min_def i32_max_def)
  have a: "allow e task s = put_breaker ?r True s"
    using Suc.prems(1,2,6) w by (simp add: allow_def allow_half_open_def)
  have "allow_all es' task (fst (put_breaker ?r True s)) = replicate k (Inr True) @ [Inr False]"
    by (rule Suc.IH [of _ ?r]) (use Suc.prems es breaker_name [OF Suc.prems(1)] in auto)
  then show ?case by (simp add: es a)
qed

section \<open>Properties\<close>

text \<open>
  C37. A breaker trips exactly at its threshold. From a freshly closed breaker, failures that
  each fall within the window of the previous one leave it closed, and the task allowed, as
  long as there are fewer of them than the threshold; the one that reaches the threshold opens
  it, and then no execution is allowed, and no row changed, until the cooldown has passed.
\<close>

theorem breaker_trips_at_threshold:
  assumes "get_circuit_breaker task s = Some r" and "cb_state r = circuit_i32 Closed"
    and "cb_last_failure_at r = None" and "cb_threshold r \<le> i32_max"
    and "within_window (cb_window_ms r) (es @ [e])"
    and "int (length es) < cb_threshold r"
    and "saturating_sub (now_millis e') (now_millis e) < cb_cooldown_ms r"
  shows "snd (allow e' task (failures es task s)) = Inr True
    \<and> (cb_threshold r = int (Suc (length es)) \<longrightarrow>
        allow e' task (failures (es @ [e]) task s) = (failures (es @ [e]) task s, Inr False))"
proof -
  obtain r' where r': "get_circuit_breaker task (failures es task s) = Some r'" "cb_state r' = circuit_i32 Closed"
    "cb_threshold r' = cb_threshold r" "cb_cooldown_ms r' = cb_cooldown_ms r" "cb_window_ms r' = cb_window_ms r"
    "es = [] \<longrightarrow> cb_last_failure_at r' = None"
    "es \<noteq> [] \<longrightarrow> cb_failure_count r' = int (length es) \<and> cb_last_failure_at r' = Some (now_millis (last es))"
  proof (cases "es = []")
    case True
    then show thesis using that [of r] assms(1-3) by simp
  next
    case False
    have "within_window (cb_window_ms r) es" using assms(5) by (simp add: within_window_snoc)
    from failures_below_threshold [OF assms(1-4) False assms(6) this] False show thesis
      using that assms(2) by simp
  qed
  have "es \<noteq> [] \<longrightarrow> saturating_sub (now_millis e) (now_millis (last es)) \<le> cb_window_ms r'"
    using assms(5) r'(5) by (simp add: within_window_snoc)
  from failure_row [OF r'(1,2,6,7) this]
  have "get_circuit_breaker task (failures (es @ [e]) task s) = Some (r'\<lparr>cb_state := circuit_i32 Open,
      cb_failure_count := int (Suc (length es)), cb_last_failure_at := Some (now_millis e),
      cb_opened_at := Some (now_millis e), cb_half_open_at := None\<rparr>)"
    if "cb_threshold r = int (Suc (length es))"
    using that assms(4) r'(3) by (simp add: failures_snoc)
  then show ?thesis using r'(1-4) assms(7) by (auto simp: allow_def allow_open_def)
qed

definition demo_breaker :: "circuit_state \<Rightarrow> breaker_row" where
  "demo_breaker c = \<lparr>cb_task_name = ''t'', cb_state = circuit_i32 c, cb_failure_count = 0,
     cb_last_failure_at = None, cb_opened_at = Some 0, cb_half_open_at = None, cb_threshold = 2,
     cb_window_ms = 60, cb_cooldown_ms = 100, cb_half_open_max_probes = 2,
     cb_half_open_success_rate = F64 7205759403792794 (- 53), cb_half_open_probe_count = 0,
     cb_half_open_success_count = 0, cb_half_open_failure_count = 0\<rparr>"

abbreviation demo_breaker_db :: "circuit_state \<Rightarrow> db" where
  "demo_breaker_db c \<equiv> empty_db\<lparr>circuit_breakers := [demo_breaker c]\<rparr>"

lemma demo_breaker_found: "get_circuit_breaker ''t'' (demo_breaker_db c) = Some (demo_breaker c)"
  by (simp add: get_circuit_breaker_def demo_breaker_def)

theorem breaker_trips_at_threshold_witness:
  "snd (allow (plain_env 90) ''t'' (failures [plain_env 10] ''t'' (demo_breaker_db Closed))) = Inr True
   \<and> snd (allow (plain_env 90) ''t'' (failures [plain_env 10, plain_env 50] ''t'' (demo_breaker_db Closed))) = Inr False"
  using breaker_trips_at_threshold [OF demo_breaker_found, of Closed "[plain_env 10]" "plain_env 50" "plain_env 90"]
  by (simp add: demo_breaker_def i32_max_def saturating_sub_def i64_defs)

text \<open>
  C38. The half-open state admits one execution more than its limit. When the cooldown of an
  open breaker has passed and no outcome is reported, the call that turns it half-open is
  admitted without being counted, so \<open>max_probes + 1\<close> calls are allowed before the first
  refusal, although the field is documented as the number of probes allowed in that state.
\<close>

theorem half_open_admits_extra_probe:
  assumes "get_circuit_breaker task s = Some r" and "cb_state r = circuit_i32 Open"
    and "cb_opened_at r = Some t" and "cb_cooldown_ms r \<le> saturating_sub (now_millis e) t"
    and "cb_half_open_max_probes r = int n" and "int n \<le> i32_max" and "length es = Suc n"
    and "\<forall>e'\<in>set es. saturating_sub (now_millis e') (now_millis e) < cb_cooldown_ms r"
  shows "allow_all (e # es) task s = replicate (Suc n) (Inr True) @ [Inr False]"
proof -
  let ?r = "reset_probes (r\<lparr>cb_state := circuit_i32 HalfOpen, cb_half_open_at := Some (now_millis e)\<rparr>)"
  have a: "allow e task s = put_breaker ?r True s"
    using assms(1-4) by (simp add: allow_def allow_open_def)
  have "allow_all es task (fst (put_breaker ?r True s)) = replicate n (Inr True) @ [Inr False]"
    by (rule half_open_probes [of _ _ ?r "now_millis e"])
      (use assms(5-8) breaker_name [OF assms(1)] in \<open>simp_all add: reset_probes_def\<close>)
  then show ?thesis by (simp add: a)
qed

theorem half_open_admits_extra_probe_witness:
  "allow_all [plain_env 100, plain_env 101, plain_env 102, plain_env 103] ''t'' (demo_breaker_db Open)
     = [Inr True, Inr True, Inr True, Inr False]"
  using half_open_admits_extra_probe [OF demo_breaker_found, of Open 0 "plain_env 100" 2
      "[plain_env 101, plain_env 102, plain_env 103]"]
  by (simp add: demo_breaker_def i32_max_def saturating_sub_def i64_defs numeral_2_eq_2)

text \<open>
  A retry is scheduled within its backoff cap: with no custom delays, for a base and a
  maximum delay that are not negative and any attempt, the next run lies between now and now
  plus the smaller of the maximum delay and \<open>base * 2 ^ min n 30\<close>; a custom delay is honoured
  exactly; whatever the random draw.
\<close>

theorem retry_within_cap:
  assumes "0 \<le> rt_base_delay_ms p" and "0 \<le> rt_max_delay_ms p" and "0 \<le> rc"
    and "in_i64 (now_millis e)" and "in_i64 (now_millis e + rt_max_delay_ms p)"
    and "\<forall>d. custom_delay p rc = Some d \<longrightarrow> in_i64 (now_millis e + d)"
  shows "(case custom_delay p rc of
      Some d \<Rightarrow> next_retry_at e p rc = now_millis e + d
    | None \<Rightarrow> now_millis e \<le> next_retry_at e p rc
        \<and> next_retry_at e p rc \<le> now_millis e + min (rt_max_delay_ms p) (rt_base_delay_ms p * 2 ^ nat (min rc 30)))"
proof (cases "custom_delay p rc")
  case None
  have m: "min rc 30 mod 64 = min rc 30" using assms(3) by auto
  have "(2::int) ^ nat (min rc 30) \<le> 2 ^ 30" by (intro power_increasing) auto
  then have "wrap_i64 (2 ^ nat (min rc 30)) = 2 ^ nat (min rc 30)"
    by (intro wrap_i64_id) (auto simp: i64_defs intro: order_trans [of _ 0])
  then have cap: "backoff_cap p rc = min (sat_i64 (rt_base_delay_ms p * 2 ^ nat (min rc 30))) (rt_max_delay_ms p)"
    by (simp add: backoff_cap_def m)
  have clamp: "min (sat_i64 x) y \<le> min y x \<and> 0 \<le> min (sat_i64 x) y" if "0 \<le> x" "0 \<le> y" for x y
    using that by (auto simp: sat_i64_def i64_max_def i64_min_def)
  have le: "backoff_cap p rc \<le> min (rt_max_delay_ms p) (rt_base_delay_ms p * 2 ^ nat (min rc 30))"
    "0 \<le> backoff_cap p rc"
    using clamp [of "rt_base_delay_ms p * 2 ^ nat (min rc 30)" "rt_max_delay_ms p"] assms(1,2) unfolding cap by simp_all
  let ?j = "full_jitter (rand_u64 e 0) (backoff_cap p rc)"
  have j: "0 \<le> ?j" "?j \<le> backoff_cap p rc"
    using le(2) pos_mod_bound [of "backoff_cap p rc + 1" "uint (rand_u64 e 0)"] by (auto simp: full_jitter_def)
  then have "in_i64 (now_millis e + ?j)" using assms(4,5) le(1) by (auto simp: in_i64_def)
  then show ?thesis using None j le(1) by (simp add: next_retry_at_def)
next
  case (Some d)
  then show ?thesis using assms(6) by (simp add: next_retry_at_def)
qed

theorem retry_within_cap_witness:
  "7 \<le> next_retry_at (plain_env 7) default_retry_policy 2 \<and> next_retry_at (plain_env 7) default_retry_policy 2 \<le> 4007"
  using retry_within_cap [of default_retry_policy 2 "plain_env 7"]
  by (simp add: default_retry_policy_def custom_delay_def i64_defs)

end
