(* ===== verification/Trace.thy ===== *)
theory Trace
  imports Json_Model
begin

text \<open>
  W3C trace context carried in a job's metadata (\<open>trace.rs\<close>): validating the two headers, and
  merging them into a metadata document by splicing bytes after its opening brace. Text is its
  UTF-8 encoding, so \<open>len\<close> and slicing by byte offset are \<open>length\<close>, \<open>take\<close> and \<open>drop\<close>;
  \<open>str::trim\<close> strips the encodings of the characters with the Unicode property
  \<open>White_Space\<close>.
\<close>

section \<open>Trimming\<close>

definition rust_whitespace :: "string list" where
  "rust_whitespace = map (map char_of)
     ([[9], [10], [11], [12], [13], [32], [194, 133], [194, 160], [225, 154, 128]]
      @ map (\<lambda>k. [226, 128, 128 + k]) [0..<11]
      @ [[226, 128, 168], [226, 128, 169], [226, 128, 175], [226, 129, 159], [227, 128, 128 :: nat]])"

text \<open>Strip the words of \<open>ws\<close> from the front of a text as long as one is there.\<close>

definition leading :: "string list \<Rightarrow> string \<Rightarrow> string option" where
  "leading ws t = find (\<lambda>w. w \<noteq> [] \<and> take (length w) t = w) ws"

lemma leading_shrinks: "leading ws t = Some w \<Longrightarrow> length (drop (length w) t) < length t"
  by (auto simp: leading_def dest!: find_SomeD) (metis diff_less length_greater_0_conv take_eq_Nil)

function strip_leading :: "string list \<Rightarrow> string \<Rightarrow> string" where
  "strip_leading ws t =
     (case leading ws t of None \<Rightarrow> t | Some w \<Rightarrow> strip_leading ws (drop (length w) t))"
  by pat_completeness auto

termination
  by (relation "measure (\<lambda>(ws, t). length t)") (auto dest: leading_shrinks)

declare strip_leading.simps [simp del]

definition trim_start :: "string \<Rightarrow> string" where
  "trim_start t = strip_leading rust_whitespace t"

definition trim_end :: "string \<Rightarrow> string" where
  "trim_end t = rev (strip_leading (map rev rust_whitespace) (rev t))"

definition str_trim :: "string \<Rightarrow> string" where
  "str_trim t = trim_end (trim_start t)"

section \<open>The trace context\<close>

definition TRACEPARENT :: string where "TRACEPARENT = ''traceparent''"
definition TRACESTATE :: string where "TRACESTATE = ''tracestate''"
definition MAX_TRACESTATE_BYTES :: nat where "MAX_TRACESTATE_BYTES = 512"

record trace_context =
  tc_traceparent :: string
  tc_tracestate :: "string option"

definition slice :: "nat \<Rightarrow> nat \<Rightarrow> string \<Rightarrow> string" where
  "slice a b t = take (b - a) (drop a t)"

definition is_ascii :: "string \<Rightarrow> bool" where
  "is_ascii t = list_all (\<lambda>c. of_char c < (128 :: nat)) t"

definition is_lower_hex :: "string \<Rightarrow> bool" where
  "is_lower_hex t =
     list_all (\<lambda>c. is_digit c \<or> (97 \<le> (of_char c :: nat) \<and> of_char c \<le> (102 :: nat))) t"

definition is_zero :: "string \<Rightarrow> bool" where
  "is_zero t = list_all (\<lambda>c. c = CHR ''0'') t"

definition is_valid_traceparent :: "string \<Rightarrow> bool" where
  "is_valid_traceparent v =
     (if \<not> is_ascii v \<or> length v < 55 \<or> (55 < length v \<and> v ! 55 \<noteq> CHR ''-'') then False
      else let version = slice 0 2 v
           in if version = ''00'' \<and> length v \<noteq> 55 then False
              else if (\<exists>at\<in>set [2, 35, 52]. v ! at \<noteq> CHR ''-'')
                   \<or> \<not> (\<forall>(a, b)\<in>set [(0, 2), (3, 35), (36, 52), (53, 55)]. is_lower_hex (slice a b v))
              then False
              else version \<noteq> ''ff'' \<and> \<not> is_zero (slice 3 35 v) \<and> \<not> is_zero (slice 36 52 v))"

definition from_headers :: "string option \<Rightarrow> string option \<Rightarrow> trace_context option" where
  "from_headers traceparent tracestate =
     (case traceparent of
        None \<Rightarrow> None
      | Some p \<Rightarrow>
          (let tp = str_trim p
           in if \<not> is_valid_traceparent tp then None
              else Some \<lparr>tc_traceparent = tp,
                tc_tracestate =
                  (case tracestate of
                     None \<Rightarrow> None
                   | Some raw \<Rightarrow>
                       (let st = str_trim raw
                        in if st \<noteq> [] \<and> length st \<le> MAX_TRACESTATE_BYTES then Some st else None))\<rparr>))"

definition json_string :: "env \<Rightarrow> string \<Rightarrow> string" where
  "json_string e v = print_json e (JStr v)"

definition quoted :: "string \<Rightarrow> string" where
  "quoted k = CHR 0x22 # k @ [CHR 0x22]"

definition entries :: "env \<Rightarrow> trace_context \<Rightarrow> string" where
  "entries e c =
     quoted TRACEPARENT @ '':'' @ json_string e (tc_traceparent c)
     @ (case tc_tracestate c of
          None \<Rightarrow> []
        | Some st \<Rightarrow> '','' @ quoted TRACESTATE @ '':'' @ json_string e st)"

definition merge_into :: "env \<Rightarrow> trace_context \<Rightarrow> string option \<Rightarrow> string option" where
  "merge_into e c md =
     (case md of
        None \<Rightarrow> Some (''{'' @ entries e c @ ''}'')
      | Some text \<Rightarrow>
          if str_trim text = [] then Some (''{'' @ entries e c @ ''}'')
          else (case Option.bind (parse_json e text) json_as_map of
                  None \<Rightarrow> Some text
                | Some object \<Rightarrow>
                    if map_of object TRACEPARENT \<noteq> None \<or> map_of object TRACESTATE \<noteq> None
                    then Some text
                    else let brace = length text - length (trim_start text);
                             hd' = take (brace + 1) text;
                             tl' = drop (brace + 1) text;
                             separator = (if object = [] then '''' else '','')
                         in Some (hd' @ entries e c @ separator @ tl')))"

section \<open>What validation and merging keep\<close>

lemma strip_leading_stuck: "leading ws (strip_leading ws t) = None"
  by (induction ws t rule: strip_leading.induct) (subst strip_leading.simps, auto split: option.splits)

lemma strip_leading_stop: "leading ws t = None \<Longrightarrow> strip_leading ws t = t"
  by (subst strip_leading.simps) simp

lemma strip_leading_suffix: "\<exists>p. t = p @ strip_leading ws t"
proof (induction ws t rule: strip_leading.induct)
  case (1 ws t)
  show ?case
  proof (cases "leading ws t")
    case None
    then show ?thesis by (simp add: strip_leading_stop)
  next
    case (Some w)
    then have eq: "strip_leading ws t = strip_leading ws (drop (length w) t)"
      by (subst strip_leading.simps) simp
    obtain p where "drop (length w) t = p @ strip_leading ws (drop (length w) t)"
      using 1 [OF Some] by blast
    then have "t = (take (length w) t @ p) @ strip_leading ws t"
      unfolding eq append_assoc by (metis append_take_drop_id)
    then show ?thesis by blast
  qed
qed

lemma leading_prefix: "leading ws (p @ q) = None \<Longrightarrow> leading ws p = None"
  unfolding leading_def find_None_iff
  by (auto simp: min_def dest: arg_cong [of _ _ length])

text \<open>Trimming a trimmed text changes nothing: a prefix of a text without leading space has none.\<close>

lemma str_trim_idem [simp]: "str_trim (str_trim t) = str_trim t"
proof -
  let ?ws = "map rev rust_whitespace"
  let ?u = "trim_start t" and ?v = "str_trim t"
  have "rev ?v = strip_leading ?ws (rev ?u)" by (simp add: str_trim_def trim_end_def)
  then obtain p where "rev ?u = p @ rev ?v" using strip_leading_suffix by metis
  then have "?u = ?v @ rev p" by (metis rev_append rev_rev_ident)
  moreover have "leading rust_whitespace ?u = None"
    by (simp add: trim_start_def strip_leading_stuck)
  ultimately have "leading rust_whitespace ?v = None" by (metis leading_prefix)
  then have "trim_start ?v = ?v" by (simp add: trim_start_def strip_leading_stop)
  moreover have "leading ?ws (rev ?v) = None"
    by (simp add: str_trim_def trim_end_def strip_leading_stuck)
  then have "trim_end ?v = ?v" by (simp add: trim_end_def strip_leading_stop)
  ultimately show ?thesis by (simp add: str_trim_def)
qed

text \<open>A context validates again to itself: what a run stores of a trace is what it reads back.\<close>

lemma from_headers_stable:
  "from_headers p st = Some c \<Longrightarrow> from_headers (Some (tc_traceparent c)) (tc_tracestate c) = Some c"
  by (auto simp: from_headers_def Let_def split: option.splits if_splits)

text \<open>Merging never alters what the document already holds: its bytes are a prefix and a suffix of the result.\<close>

lemma merge_into_splices:
  assumes "merge_into e c (Some text) = Some out" and "str_trim text \<noteq> []"
  shows "\<exists>h m t. text = h @ t \<and> out = h @ m @ t"
proof (cases "Option.bind (parse_json e text) json_as_map")
  case None
  then have "out = text" using assms by (simp add: merge_into_def)
  then show ?thesis by (metis append_Nil append_Nil2)
next
  case (Some object)
  let ?k = "length text - length (trim_start text) + 1"
  show ?thesis
  proof (cases "map_of object TRACEPARENT \<noteq> None \<or> map_of object TRACESTATE \<noteq> None")
    case True
    then have "out = text" using assms Some by (auto simp: merge_into_def)
    then show ?thesis by (metis append_Nil append_Nil2)
  next
    case False
    then have "out = take ?k text @ (entries e c @ (if object = [] then '''' else '','')) @ drop ?k text"
      using assms Some by (auto simp: merge_into_def Let_def)
    then show ?thesis by (metis append_take_drop_id)
  qed
qed

end
