(* ===== verification/Workflow_Model.thy ===== *)
theory Workflow_Model
  imports Trace
begin

text \<open>
  The data of \<open>flexiq-workflows\<close> and its pure parts: the state machines of runs and nodes
  (\<open>state.rs\<close>, \<open>node.rs\<close>), definitions, runs and errors (\<open>definition.rs\<close>, \<open>run.rs\<close>,
  \<open>error.rs\<close>), reading a stored graph back into an order (\<open>topology.rs\<close>) and the nodes that may
  run next (\<open>common.rs\<close>). The graph library \<open>dagron_core\<close> and \<open>serde_json\<close> are the fields of
  \<open>wf_libs\<close>.
\<close>

section \<open>Runs\<close>

datatype workflow_state =
    RunPending | RunRunning | RunPaused | RunCompleted | RunCompletedWithFailures | RunFailed
  | RunCancelled | RunCompensating | RunCompensated | RunCompensationFailed

fun run_state_str :: "workflow_state \<Rightarrow> string" where
  "run_state_str RunPending = ''pending''"
| "run_state_str RunRunning = ''running''"
| "run_state_str RunPaused = ''paused''"
| "run_state_str RunCompleted = ''completed''"
| "run_state_str RunCompletedWithFailures = ''completed_with_failures''"
| "run_state_str RunFailed = ''failed''"
| "run_state_str RunCancelled = ''cancelled''"
| "run_state_str RunCompensating = ''compensating''"
| "run_state_str RunCompensated = ''compensated''"
| "run_state_str RunCompensationFailed = ''compensation_failed''"

definition run_state_of_str :: "string \<Rightarrow> workflow_state option" where
  "run_state_of_str s =
     (if s = ''pending'' then Some RunPending
      else if s = ''running'' then Some RunRunning
      else if s = ''paused'' then Some RunPaused
      else if s = ''completed'' then Some RunCompleted
      else if s = ''completed_with_failures'' then Some RunCompletedWithFailures
      else if s = ''failed'' then Some RunFailed
      else if s = ''cancelled'' then Some RunCancelled
      else if s = ''compensating'' then Some RunCompensating
      else if s = ''compensated'' then Some RunCompensated
      else if s = ''compensation_failed'' then Some RunCompensationFailed
      else None)"

definition run_is_terminal :: "workflow_state \<Rightarrow> bool" where
  "run_is_terminal s \<longleftrightarrow> s \<in> set [RunCompleted, RunCompletedWithFailures, RunFailed, RunCancelled,
     RunCompensated, RunCompensationFailed]"

definition can_transition_to :: "workflow_state \<Rightarrow> workflow_state \<Rightarrow> bool" where
  "can_transition_to s target \<longleftrightarrow> (s, target) \<in> set
     [(RunPending, RunRunning),
      (RunRunning, RunCompleted),
      (RunRunning, RunCompletedWithFailures),
      (RunRunning, RunFailed),
      (RunRunning, RunCancelled),
      (RunRunning, RunPaused),
      (RunRunning, RunCompensating),
      (RunPaused, RunRunning),
      (RunPaused, RunCancelled),
      (RunCompletedWithFailures, RunCompensating),
      (RunCompleted, RunCompensating),
      (RunFailed, RunCompensating),
      (RunCompensating, RunCompensated),
      (RunCompensating, RunCompensationFailed)]"

text \<open>The columns a \<open>WorkflowRun\<close> shares with its row.\<close>

record run_cols =
  rn_id :: string
  rn_definition_id :: string
  rn_params :: "string option"
  rn_started_at :: "millis option"
  rn_completed_at :: "millis option"
  rn_error :: "string option"
  rn_parent_run_id :: "string option"
  rn_parent_node_name :: "string option"
  rn_created_at :: millis
  rn_traceparent :: "string option"
  rn_tracestate :: "string option"

record workflow_run = run_cols +
  rn_state :: workflow_state

definition run_trace :: "'a run_cols_scheme \<Rightarrow> trace_context option" where
  "run_trace r = from_headers (rn_traceparent r) (rn_tracestate r)"

definition with_trace_context :: "trace_context option \<Rightarrow> workflow_run \<Rightarrow> workflow_run" where
  "with_trace_context trace r =
     r\<lparr>rn_traceparent := map_option tc_traceparent trace,
       rn_tracestate := Option.bind trace tc_tracestate\<rparr>"

section \<open>Nodes\<close>

datatype workflow_node_status =
    NodePending | NodeRunning | NodeCompleted | NodeFailed | NodeSkipped | NodeWaitingApproval
  | NodeCacheHit | NodeCompensating | NodeCompensated | NodeCompensationFailed

fun node_status_str :: "workflow_node_status \<Rightarrow> string" where
  "node_status_str NodePending = ''pending''"
| "node_status_str NodeRunning = ''running''"
| "node_status_str NodeCompleted = ''completed''"
| "node_status_str NodeFailed = ''failed''"
| "node_status_str NodeSkipped = ''skipped''"
| "node_status_str NodeWaitingApproval = ''waiting_approval''"
| "node_status_str NodeCacheHit = ''cache_hit''"
| "node_status_str NodeCompensating = ''compensating''"
| "node_status_str NodeCompensated = ''compensated''"
| "node_status_str NodeCompensationFailed = ''compensation_failed''"

definition node_status_of_str :: "string \<Rightarrow> workflow_node_status option" where
  "node_status_of_str s =
     (if s = ''pending'' then Some NodePending
      else if s = ''running'' then Some NodeRunning
      else if s = ''completed'' then Some NodeCompleted
      else if s = ''failed'' then Some NodeFailed
      else if s = ''skipped'' then Some NodeSkipped
      else if s = ''waiting_approval'' then Some NodeWaitingApproval
      else if s = ''cache_hit'' then Some NodeCacheHit
      else if s = ''compensating'' then Some NodeCompensating
      else if s = ''compensated'' then Some NodeCompensated
      else if s = ''compensation_failed'' then Some NodeCompensationFailed
      else None)"

definition node_is_terminal :: "workflow_node_status \<Rightarrow> bool" where
  "node_is_terminal s \<longleftrightarrow> s \<in> set [NodeCompleted, NodeFailed, NodeSkipped, NodeCacheHit,
     NodeCompensated, NodeCompensationFailed]"

definition is_compensable :: "workflow_node_status \<Rightarrow> bool" where
  "is_compensable s \<longleftrightarrow> s \<in> set [NodeCompleted, NodeCacheHit]"

record node_cols =
  nd_id :: string
  nd_run_id :: string
  nd_node_name :: string
  nd_job_id :: "string option"
  nd_result_hash :: "string option"
  nd_fan_out_count :: "int option"
  nd_started_at :: "millis option"
  nd_completed_at :: "millis option"
  nd_error :: "string option"
  nd_compensation_job_id :: "string option"
  nd_compensation_started_at :: "millis option"
  nd_compensation_completed_at :: "millis option"
  nd_compensation_error :: "string option"

record workflow_node = node_cols +
  nd_status :: workflow_node_status

interpretation run_state_codec: enum_codec run_state_str run_state_of_str
proof
  show "run_state_of_str (run_state_str x) = Some x" for x
    by (cases x) (simp_all add: run_state_of_str_def)
qed (auto simp: run_state_of_str_def split: if_splits)

interpretation node_status_codec: enum_codec node_status_str node_status_of_str
proof
  show "node_status_of_str (node_status_str x) = Some x" for x
    by (cases x) (simp_all add: node_status_of_str_def)
qed (auto simp: node_status_of_str_def split: if_splits)

section \<open>Definitions and errors\<close>

record step_metadata =
  sm_task_name :: string
  sm_queue :: "string option"
  sm_args_template :: "string option"
  sm_kwargs_template :: "string option"
  sm_max_retries :: "int option"
  sm_timeout_ms :: "millis option"
  sm_priority :: "int option"
  sm_fan_out :: "string option"
  sm_fan_in :: "string option"
  sm_condition :: "string option"
  sm_gate :: "string option"
  sm_sub_workflow :: "string option"
  sm_compensate :: "string option"
  sm_cache :: "string option"

text \<open>A \<open>HashMap<String, StepMetadata>\<close>: the order of its entries carries no meaning.\<close>

type_synonym step_map = "(string \<times> step_metadata) list"

definition same_map :: "('k \<times> 'v) list \<Rightarrow> ('k \<times> 'v) list \<Rightarrow> bool" where
  "same_map a b \<longleftrightarrow> (\<forall>k\<in>set (map fst a) \<union> set (map fst b). map_of a k = map_of b k)"

record workflow_definition =
  wd_id :: string
  wd_name :: string
  wd_version :: int
  wd_dag_data :: bytes
  wd_step_metadata :: step_map
  wd_created_at :: millis

datatype workflow_error =
    DefinitionNotFound string
  | RunNotFound string
  | NodeNotFound string string
  | InvalidTransition workflow_state workflow_state
  | InvalidDag string
  | DuplicateDefinition string int
  | InvalidStepMetadata string

fun workflow_error_str :: "workflow_error \<Rightarrow> string" where
  "workflow_error_str (DefinitionNotFound n) = ''workflow definition not found: '' @ n"
| "workflow_error_str (RunNotFound i) = ''workflow run not found: '' @ i"
| "workflow_error_str (NodeNotFound i n) =
     ''node '' @ [CHR 0x27] @ n @ [CHR 0x27] @ '' not found in workflow run '' @ i"
| "workflow_error_str (InvalidTransition a b) =
     ''invalid workflow state transition: '' @ run_state_str a
       @ [CHR '' '', CHR 0xE2, CHR 0x86, CHR 0x92, CHR '' ''] @ run_state_str b"
| "workflow_error_str (InvalidDag m) = ''invalid workflow DAG: '' @ m"
| "workflow_error_str (DuplicateDefinition n v) =
     ''workflow definition already exists: '' @ n @ '' v'' @ show_int v"
| "workflow_error_str (InvalidStepMetadata m) = ''invalid step_metadata: '' @ m"

definition workflow_to_queue_error :: "workflow_error \<Rightarrow> queue_error" where
  "workflow_to_queue_error err = Other (workflow_error_str err)"

section \<open>The libraries\<close>

text \<open>
  What the crate calls of \<open>dagron_core\<close> and \<open>serde_json\<close>: \<open>'g\<close> is \<open>SerializableGraph\<close>, of which
  only the node names and the edges \<open>(from, to)\<close> are read here, and \<open>'d\<close> is \<open>DAG<()>\<close>. An
  error is the text it displays as.
\<close>

record ('g, 'd) wf_libs =
  parse_graph :: "string \<Rightarrow> string + 'g"
  graph_nodes :: "'g \<Rightarrow> string list"
  graph_edges :: "'g \<Rightarrow> (string \<times> string) list"
  from_serializable :: "'g \<Rightarrow> string + 'd"
  topological_sort :: "'d \<Rightarrow> string + string list"
  print_steps :: "step_map \<Rightarrow> string + string"
  parse_steps :: "string \<Rightarrow> string + step_map"

text \<open>\<open>a\<close> stands before the first \<open>b\<close>.\<close>

definition precedes :: "'a list \<Rightarrow> 'a \<Rightarrow> 'a \<Rightarrow> bool" where
  "precedes xs a b \<longleftrightarrow> b \<in> set xs \<and> a \<in> set (takeWhile (\<lambda>x. x \<noteq> b) xs)"

text \<open>
  The documented behaviour of a topological sort: every node of the graph once, the source of
  an edge before its target.
\<close>

definition sorts_topologically :: "('g, 'd, 'z) wf_libs_scheme \<Rightarrow> bool" where
  "sorts_topologically w \<longleftrightarrow> (\<forall>g d ord. from_serializable w g = Inr d \<longrightarrow> topological_sort w d = Inr ord \<longrightarrow>
     distinct ord \<and> set ord = set (graph_nodes w g)
     \<and> (\<forall>(a, b)\<in>set (graph_edges w g). precedes ord a b))"

text \<open>Printing the step metadata \<open>m\<close> and parsing it gives the same map back.\<close>

definition steps_roundtrip :: "('g, 'd, 'z) wf_libs_scheme \<Rightarrow> step_map \<Rightarrow> bool" where
  "steps_roundtrip w m \<longleftrightarrow>
     (\<exists>t m'. print_steps w m = Inr t \<and> parse_steps w t = Inr m' \<and> same_map m' m)"

text \<open>
  Libraries for concrete examples: the one document \<open>g\<close>, a sort that accepts a graph whose nodes
  are listed in topological order, and the one step map \<open>m\<close>.
\<close>

definition demo_libs ::
  "string list \<times> (string \<times> string) list \<Rightarrow> step_map
     \<Rightarrow> (string list \<times> (string \<times> string) list, string list \<times> (string \<times> string) list) wf_libs" where
  "demo_libs g m =
     \<lparr>parse_graph = (\<lambda>_. Inr g), graph_nodes = fst, graph_edges = snd, from_serializable = Inr,
      topological_sort = (\<lambda>(ns, es). if distinct ns \<and> (\<forall>(a, b)\<in>set es. precedes ns a b) then Inr ns
        else Inl ''cycle detected''),
      print_steps = (\<lambda>_. Inr ''{}''), parse_steps = (\<lambda>_. Inr m)\<rparr>"

lemma demo_libs_sel [simp]:
  "parse_graph (demo_libs g m) t = Inr g" "graph_nodes (demo_libs g m) x = fst x"
  "graph_edges (demo_libs g m) x = snd x" "from_serializable (demo_libs g m) x = Inr x"
  "print_steps (demo_libs g m) k = Inr ''{}''" "parse_steps (demo_libs g m) u = Inr m"
  by (simp_all add: demo_libs_def)

lemma demo_libs_sort: "sorts_topologically (demo_libs g m)"
  by (auto simp: sorts_topologically_def demo_libs_def split: if_splits)

section \<open>Text from bytes\<close>

text \<open>
  \<open>std::str::from_utf8\<close>: the first position where the bytes are not UTF-8, with the length of
  the offending sequence, or no length when the text ends too early.
\<close>

definition utf8_cont :: "nat \<Rightarrow> bool" where
  "utf8_cont b \<longleftrightarrow> 128 \<le> b \<and> b \<le> 191"

definition utf8_second :: "nat \<Rightarrow> nat \<Rightarrow> bool" where
  "utf8_second a b \<longleftrightarrow>
     (if a = 224 then 160 \<le> b \<and> b \<le> 191
      else if a = 237 then 128 \<le> b \<and> b \<le> 159
      else if a = 240 then 144 \<le> b \<and> b \<le> 191
      else if a = 244 then 128 \<le> b \<and> b \<le> 143
      else utf8_cont b)"

fun utf8_error :: "nat \<Rightarrow> nat list \<Rightarrow> (nat \<times> nat option) option" where
  "utf8_error i [] = None"
| "utf8_error i (a # bs) =
     (if a < 128 then utf8_error (i + 1) bs
      else if 194 \<le> a \<and> a \<le> 223 then
        (case bs of
           [] \<Rightarrow> Some (i, None)
         | b # cs \<Rightarrow> if utf8_cont b then utf8_error (i + 2) cs else Some (i, Some 1))
      else if 224 \<le> a \<and> a \<le> 239 then
        (case bs of
           [] \<Rightarrow> Some (i, None)
         | b # cs \<Rightarrow>
             if \<not> utf8_second a b then Some (i, Some 1)
             else (case cs of
                     [] \<Rightarrow> Some (i, None)
                   | c # ds \<Rightarrow> if utf8_cont c then utf8_error (i + 3) ds else Some (i, Some 2)))
      else if 240 \<le> a \<and> a \<le> 244 then
        (case bs of
           [] \<Rightarrow> Some (i, None)
         | b # cs \<Rightarrow>
             if \<not> utf8_second a b then Some (i, Some 1)
             else (case cs of
                     [] \<Rightarrow> Some (i, None)
                   | c # ds \<Rightarrow>
                       if \<not> utf8_cont c then Some (i, Some 2)
                       else (case ds of
                               [] \<Rightarrow> Some (i, None)
                             | d # es \<Rightarrow>
                                 if utf8_cont d then utf8_error (i + 4) es else Some (i, Some 3))))
      else Some (i, Some 1))"

fun utf8_error_str :: "nat \<times> nat option \<Rightarrow> string" where
  "utf8_error_str (i, Some n) =
     ''invalid utf-8 sequence of '' @ show_nat n @ '' bytes from index '' @ show_nat i"
| "utf8_error_str (i, None) = ''incomplete utf-8 byte sequence from index '' @ show_nat i"

definition from_utf8 :: "bytes \<Rightarrow> string + string" where
  "from_utf8 bs =
     (case utf8_error 0 (map unat bs) of
        None \<Rightarrow> Inr (map (\<lambda>b. char_of (unat b)) bs)
      | Some err \<Rightarrow> Inl (utf8_error_str err))"

section \<open>Topology\<close>

text \<open>\<open>map_err(|e| QueueError::Serialization(format!("...: {e}")))\<close>.\<close>

fun serialization :: "string \<Rightarrow> string + 'a \<Rightarrow> queue_error + 'a" where
  "serialization what (Inl err) = Inl (Serialization (what @ err))"
| "serialization what (Inr x) = Inr x"

lemma serialization_Inr [simp]: "serialization what r = Inr x \<longleftrightarrow> r = Inr x"
  by (cases r) auto

record topological_node =
  tn_name :: string
  tn_predecessors :: "string list"

text \<open>The map from a node to its predecessors, as both loops build it.\<close>

definition add_node :: "string \<Rightarrow> (string \<rightharpoonup> string list) \<Rightarrow> string \<rightharpoonup> string list" where
  "add_node n m = (case m n of None \<Rightarrow> m(n \<mapsto> []) | Some _ \<Rightarrow> m)"

definition add_edge :: "string \<times> string \<Rightarrow> (string \<rightharpoonup> string list) \<Rightarrow> string \<rightharpoonup> string list" where
  "add_edge ed m =
     m(snd ed \<mapsto> (case m (snd ed) of None \<Rightarrow> [] | Some ps \<Rightarrow> ps) @ [fst ed])"

definition predecessor_map :: "string list \<Rightarrow> (string \<times> string) list \<Rightarrow> string \<rightharpoonup> string list" where
  "predecessor_map ns es = fold add_edge es (fold add_node ns Map.empty)"

text \<open>Each node takes its predecessors out of the map.\<close>

fun take_predecessors :: "(string \<rightharpoonup> string list) \<Rightarrow> string list \<Rightarrow> topological_node list" where
  "take_predecessors m [] = []"
| "take_predecessors m (n # ns) =
     \<lparr>tn_name = n, tn_predecessors = (case m n of None \<Rightarrow> [] | Some ps \<Rightarrow> ps)\<rparr>
       # take_predecessors (m(n := None)) ns"

definition topological_order ::
  "('g, 'd, 'z) wf_libs_scheme \<Rightarrow> bytes \<Rightarrow> queue_error + topological_node list" where
  "topological_order w dag_bytes =
     and_then (serialization ''workflow DAG is not valid UTF-8: ''
       (from_utf8 dag_bytes)) (\<lambda>dag_json.
     and_then (serialization ''failed to deserialize workflow DAG: ''
       (parse_graph w dag_json)) (\<lambda>graph.
     let preds = predecessor_map (graph_nodes w graph) (graph_edges w graph)
     in and_then (serialization ''failed to build DAG: ''
       (from_serializable w graph)) (\<lambda>dag.
     and_then (serialization ''topological sort failed: ''
       (topological_sort w dag)) (\<lambda>sorted.
     Inr (take_predecessors preds sorted)))))"

text \<open>\<open>compute_ready_nodes\<close>: of two nodes with one name, the later decides the status.\<close>

definition compute_ready_nodes ::
  "('g, 'd, 'z) wf_libs_scheme \<Rightarrow> workflow_node list \<Rightarrow> string \<Rightarrow> queue_error + workflow_node list" where
  "compute_ready_nodes w all_nodes dag_json =
     and_then (serialization ''failed to deserialize workflow DAG: ''
       (parse_graph w dag_json)) (\<lambda>graph.
     let preds = predecessor_map (graph_nodes w graph) (graph_edges w graph);
         status_map = map_of (rev (map (\<lambda>n. (nd_node_name n, nd_status n)) all_nodes))
     in Inr (filter (\<lambda>n.
          if nd_status n \<noteq> NodePending then False
          else (case preds (nd_node_name n) of
                  None \<Rightarrow> True
                | Some ps \<Rightarrow> list_all (\<lambda>p. status_map p = Some NodeCompleted) ps)) all_nodes))"

section \<open>What the order says about the graph\<close>

lemma same_map_iff: "same_map a b \<longleftrightarrow> map_of a = map_of b"
  by (auto simp: same_map_def fun_eq_iff) (metis Un_iff map_of_eq_None_iff)

lemma fold_add_node: "fold add_node ns m k = (if m k = None \<and> k \<in> set ns then Some [] else m k)"
  by (induction ns arbitrary: m) (auto simp: add_node_def split: option.splits)

lemma fold_add_edge:
  "fold add_edge es m k =
     (let ps = map fst (filter (\<lambda>ed. snd ed = k) es)
      in if ps = [] then m k else Some ((case m k of None \<Rightarrow> [] | Some qs \<Rightarrow> qs) @ ps))"
  by (induction es arbitrary: m) (auto simp: add_edge_def Let_def split: option.splits)

text \<open>The sources of the edges into a node, in the order of the edges.\<close>

definition sources :: "(string \<times> string) list \<Rightarrow> string \<Rightarrow> string list" where
  "sources es n = map fst (filter (\<lambda>ed. snd ed = n) es)"

lemma predecessor_map_eq:
  "predecessor_map ns es n =
     (if n \<in> set ns \<or> sources es n \<noteq> [] then Some (sources es n) else None)"
  by (auto simp: predecessor_map_def fold_add_edge fold_add_node sources_def Let_def)

lemma take_predecessors_eq:
  "distinct ns \<Longrightarrow> take_predecessors m ns
     = map (\<lambda>n. \<lparr>tn_name = n, tn_predecessors = (case m n of None \<Rightarrow> [] | Some ps \<Rightarrow> ps)\<rparr>) ns"
  by (induction ns arbitrary: m) auto

lemma topological_order_Inr:
  assumes "topological_order w bs = Inr ordered" and "sorts_topologically w"
  obtains t g ns where "from_utf8 bs = Inr t" "parse_graph w t = Inr g"
    "ordered = map (\<lambda>n. \<lparr>tn_name = n, tn_predecessors = sources (graph_edges w g) n\<rparr>) ns"
    "distinct ns" "set ns = set (graph_nodes w g)"
    "\<And>a b. (a, b) \<in> set (graph_edges w g) \<Longrightarrow> precedes ns a b"
proof -
  obtain t g d ns where *: "from_utf8 bs = Inr t" "parse_graph w t = Inr g"
    "from_serializable w g = Inr d" "topological_sort w d = Inr ns"
    and ordered: "ordered = take_predecessors (predecessor_map (graph_nodes w g) (graph_edges w g)) ns"
    using assms(1) by (auto simp: topological_order_def Let_def res_simps)
  from assms(2) * have sorted: "distinct ns" "set ns = set (graph_nodes w g)"
    "\<forall>(a, b)\<in>set (graph_edges w g). precedes ns a b"
    by (auto simp: sorts_topologically_def)
  then have "ordered = map (\<lambda>n. \<lparr>tn_name = n, tn_predecessors = sources (graph_edges w g) n\<rparr>) ns"
    by (auto simp: ordered take_predecessors_eq predecessor_map_eq)
  with that * sorted show ?thesis by blast
qed

lemma compute_ready_nodes_eq:
  "parse_graph w t = Inr g \<Longrightarrow> compute_ready_nodes w ns t =
     Inr (filter (\<lambda>n. nd_status n = NodePending
        \<and> (\<forall>p\<in>set (sources (graph_edges w g) (nd_node_name n)).
             map_of (rev (map (\<lambda>n. (nd_node_name n, nd_status n)) ns)) p = Some NodeCompleted)) ns)"
  unfolding compute_ready_nodes_def Let_def
  by (simp add: predecessor_map_eq list_all_iff) (rule filter_cong, auto)

end
