(* ===== verification/Workflow_Store.thy ===== *)
theory Workflow_Store
  imports Workflow_Model
begin

text \<open>
  The workflow tables and the storage operations on them (\<open>diesel_common.rs\<close>, the SQLite
  instance of \<open>impl_workflow_diesel_ops\<close>, with the keys of
  \<open>migrations/m0001_workflow_initial.rs\<close>). A store is bound to a namespace, the first argument
  of every operation; \<open>None\<close> addresses all namespaces. Nodes carry no namespace: they are
  reachable through their run only.
\<close>

section \<open>Rows and tables\<close>

record definition_row =
  dr_id :: string
  dr_name :: string
  dr_version :: int
  dr_dag_data :: bytes
  dr_step_metadata :: string
  dr_created_at :: millis

record run_row = run_cols +
  rr_state :: string
  rr_namespace :: "string option"

record node_row = node_cols +
  nr_status :: string

record wf_db =
  workflow_definitions :: "definition_row list"
  workflow_runs :: "run_row list"
  workflow_nodes :: "node_row list"

definition empty_wf :: wf_db where
  "empty_wf = \<lparr>workflow_definitions = [], workflow_runs = [], workflow_nodes = []\<rparr>"

type_synonym 'a wf_op = "wf_db \<Rightarrow> wf_db \<times> (queue_error + 'a)"

definition definition_from_row ::
  "('g, 'd, 'z) wf_libs_scheme \<Rightarrow> definition_row \<Rightarrow> queue_error + workflow_definition" where
  "definition_from_row w r =
     and_then (serialization ''failed to deserialize step_metadata: '' (parse_steps w (dr_step_metadata r)))
       (\<lambda>steps. Inr \<lparr>wd_id = dr_id r, wd_name = dr_name r, wd_version = dr_version r,
          wd_dag_data = dr_dag_data r, wd_step_metadata = steps, wd_created_at = dr_created_at r\<rparr>)"

definition run_from_row :: "run_row \<Rightarrow> workflow_run" where
  "run_from_row r = run_cols.extend (run_cols.truncate r)
     (workflow_run.fields (case run_state_of_str (rr_state r) of Some st \<Rightarrow> st | None \<Rightarrow> RunPending))"

definition node_from_row :: "node_row \<Rightarrow> workflow_node" where
  "node_from_row r = node_cols.extend (node_cols.truncate r)
     (workflow_node.fields (case node_status_of_str (nr_status r) of Some st \<Rightarrow> st | None \<Rightarrow> NodePending))"

text \<open>The rows the inserts write.\<close>

definition run_to_row :: "string option \<Rightarrow> workflow_run \<Rightarrow> run_row" where
  "run_to_row ns r = run_cols.extend (run_cols.truncate r) (run_row.fields (run_state_str (rn_state r)) ns)"

definition node_to_row :: "workflow_node \<Rightarrow> node_row" where
  "node_to_row n = node_cols.extend (node_cols.truncate n) (node_row.fields (node_status_str (nd_status n)))"

section \<open>Scope\<close>

text \<open>\<open>RUN_IN_NAMESPACE\<close>: an unscoped store binds \<open>NULL\<close> and sees every run.\<close>

definition run_in_namespace :: "string option \<Rightarrow> run_row \<Rightarrow> bool" where
  "run_in_namespace ns r \<longleftrightarrow> ns = None \<or> rr_namespace r = ns"

definition run_out_of_scope :: "string option \<Rightarrow> string \<Rightarrow> wf_db \<Rightarrow> bool" where
  "run_out_of_scope ns i s =
     (case ns of
        None \<Rightarrow> False
      | Some n \<Rightarrow> count_where (\<lambda>r. rn_id r = i \<and> rr_namespace r = Some n) (workflow_runs s) = 0)"

definition require_touched :: "int \<Rightarrow> string \<Rightarrow> string \<Rightarrow> queue_error + unit" where
  "require_touched affected i n =
     (if affected = 0 then Inl (workflow_to_queue_error (NodeNotFound i n)) else Inr ())"

section \<open>Definitions\<close>

definition create_workflow_definition ::
  "('g, 'd, 'z) wf_libs_scheme \<Rightarrow> workflow_definition \<Rightarrow> unit wf_op" where
  "create_workflow_definition w def s =
     (case serialization ''failed to serialize step_metadata: '' (print_steps w (wd_step_metadata def)) of
        Inl err \<Rightarrow> (s, Inl err)
      | Inr meta_json \<Rightarrow>
          if \<exists>d\<in>set (workflow_definitions s). dr_id d = wd_id def
               \<or> dr_name d = wd_name def \<and> dr_version d = wd_version def
          then (s, Inl (Storage UniqueViolation))
          else (s\<lparr>workflow_definitions := workflow_definitions s
                   @ [\<lparr>dr_id = wd_id def, dr_name = wd_name def, dr_version = wd_version def,
                       dr_dag_data = wd_dag_data def, dr_step_metadata = meta_json,
                       dr_created_at = wd_created_at def\<rparr>]\<rparr>, Inr ()))"

definition first_definition ::
  "('g, 'd, 'z) wf_libs_scheme \<Rightarrow> definition_row list \<Rightarrow> queue_error + workflow_definition option" where
  "first_definition w rows =
     (case rows of [] \<Rightarrow> Inr None | r # _ \<Rightarrow> and_then (definition_from_row w r) (\<lambda>d. Inr (Some d)))"

definition get_workflow_definition ::
  "('g, 'd, 'z) wf_libs_scheme \<Rightarrow> string \<Rightarrow> int option \<Rightarrow> wf_db \<Rightarrow> queue_error + workflow_definition option" where
  "get_workflow_definition w name version s =
     first_definition w
       (case version of
          Some v \<Rightarrow> filter (\<lambda>d. dr_name d = name \<and> dr_version d = v) (workflow_definitions s)
        | None \<Rightarrow> sql_limit 1 (order_desc dr_version
                    (filter (\<lambda>d. dr_name d = name) (workflow_definitions s))))"

definition get_workflow_definition_by_id ::
  "('g, 'd, 'z) wf_libs_scheme \<Rightarrow> string \<Rightarrow> wf_db \<Rightarrow> queue_error + workflow_definition option" where
  "get_workflow_definition_by_id w i s =
     first_definition w (filter (\<lambda>d. dr_id d = i) (workflow_definitions s))"

section \<open>Runs\<close>

definition create_workflow_run :: "string option \<Rightarrow> workflow_run \<Rightarrow> unit wf_op" where
  "create_workflow_run ns run s =
     (case rn_parent_run_id run of
        Some parent \<Rightarrow>
          if run_out_of_scope ns parent s
          then (s, Inl (Other (''parent workflow run not found: '' @ parent)))
          else if \<exists>r\<in>set (workflow_runs s). rn_id r = rn_id run then (s, Inl (Storage UniqueViolation))
          else (s\<lparr>workflow_runs := workflow_runs s @ [run_to_row ns run]\<rparr>, Inr ())
      | None \<Rightarrow>
          if \<exists>r\<in>set (workflow_runs s). rn_id r = rn_id run then (s, Inl (Storage UniqueViolation))
          else (s\<lparr>workflow_runs := workflow_runs s @ [run_to_row ns run]\<rparr>, Inr ()))"

definition get_workflow_run :: "string option \<Rightarrow> string \<Rightarrow> wf_db \<Rightarrow> workflow_run option" where
  "get_workflow_run ns i s =
     map_option run_from_row (find (\<lambda>r. rn_id r = i \<and> run_in_namespace ns r) (workflow_runs s))"

text \<open>The \<open>UPDATE workflow_runs SET \<dots> WHERE id = ? AND\<close> in scope, which ignores how many rows it hit.\<close>

definition update_run :: "string option \<Rightarrow> string \<Rightarrow> (run_row \<Rightarrow> run_row) \<Rightarrow> unit wf_op" where
  "update_run ns i f s =
     (s\<lparr>workflow_runs := update_where (\<lambda>r. rn_id r = i \<and> run_in_namespace ns r) f (workflow_runs s)\<rparr>, Inr ())"

definition update_workflow_run_state ::
  "string option \<Rightarrow> string \<Rightarrow> workflow_state \<Rightarrow> string option \<Rightarrow> unit wf_op" where
  "update_workflow_run_state ns i st err =
     update_run ns i (\<lambda>r. r\<lparr>rr_state := run_state_str st, rn_error := err\<rparr>)"

definition set_workflow_run_started :: "string option \<Rightarrow> string \<Rightarrow> millis \<Rightarrow> unit wf_op" where
  "set_workflow_run_started ns i at =
     update_run ns i (\<lambda>r. r\<lparr>rr_state := ''running'', rn_started_at := Some at\<rparr>)"

definition set_workflow_run_completed :: "string option \<Rightarrow> string \<Rightarrow> millis \<Rightarrow> unit wf_op" where
  "set_workflow_run_completed ns i at = update_run ns i (\<lambda>r. r\<lparr>rn_completed_at := Some at\<rparr>)"

text \<open>The filters of both listings; the join is on the primary key of the definitions.\<close>

definition run_matches ::
  "string option \<Rightarrow> string option \<Rightarrow> workflow_state option \<Rightarrow> wf_db \<Rightarrow> run_row \<Rightarrow> bool" where
  "run_matches ns name st s r \<longleftrightarrow>
     (case name of
        None \<Rightarrow> True
      | Some n \<Rightarrow> (\<exists>d\<in>set (workflow_definitions s). dr_id d = rn_definition_id r \<and> dr_name d = n))
     \<and> (case st of None \<Rightarrow> True | Some x \<Rightarrow> rr_state r = run_state_str x)
     \<and> run_in_namespace ns r"

definition list_workflow_runs ::
  "string option \<Rightarrow> string option \<Rightarrow> workflow_state option \<Rightarrow> int \<Rightarrow> int \<Rightarrow> wf_db \<Rightarrow> workflow_run list" where
  "list_workflow_runs ns name st limit offset s =
     map run_from_row (sql_limit limit (sql_offset offset
       (order_desc rn_created_at (filter (run_matches ns name st s) (workflow_runs s)))))"

definition list_workflow_runs_after ::
  "string option \<Rightarrow> string option \<Rightarrow> workflow_state option \<Rightarrow> int \<Rightarrow> (millis \<times> string) option
     \<Rightarrow> wf_db \<Rightarrow> workflow_run list" where
  "list_workflow_runs_after ns name st limit after s =
     (let (cursor_created_at, cursor_id) = (case after of Some c \<Rightarrow> c | None \<Rightarrow> (i64_max, ''''))
      in map run_from_row (sql_limit limit (order_desc (\<lambda>r. (rn_created_at r, rn_id r))
           (filter (\<lambda>r. run_matches ns name st s r
              \<and> (rn_created_at r < cursor_created_at
                 \<or> rn_created_at r = cursor_created_at \<and> rn_id r < cursor_id)) (workflow_runs s)))))"

definition get_child_workflow_runs :: "string option \<Rightarrow> string \<Rightarrow> wf_db \<Rightarrow> workflow_run list" where
  "get_child_workflow_runs ns parent s =
     map run_from_row
       (filter (\<lambda>r. rn_parent_run_id r = Some parent \<and> run_in_namespace ns r) (workflow_runs s))"

section \<open>Nodes\<close>

definition insert_node :: "workflow_node \<Rightarrow> wf_db \<Rightarrow> queue_error + wf_db" where
  "insert_node n s =
     (if \<exists>x\<in>set (workflow_nodes s). nd_id x = nd_id n
           \<or> nd_run_id x = nd_run_id n \<and> nd_node_name x = nd_node_name n
      then Inl (Storage UniqueViolation)
      else Inr (s\<lparr>workflow_nodes := workflow_nodes s @ [node_to_row n]\<rparr>))"

definition create_workflow_node :: "string option \<Rightarrow> workflow_node \<Rightarrow> unit wf_op" where
  "create_workflow_node ns n s =
     (if run_out_of_scope ns (nd_run_id n) s
      then (s, Inl (workflow_to_queue_error (RunNotFound (nd_run_id n))))
      else case insert_node n s of Inl err \<Rightarrow> (s, Inl err) | Inr s' \<Rightarrow> (s', Inr ()))"

text \<open>The scope check of a batch, once per distinct run.\<close>

fun batch_scope_error :: "string option \<Rightarrow> wf_db \<Rightarrow> string list \<Rightarrow> workflow_node list \<Rightarrow> queue_error option" where
  "batch_scope_error ns s checked [] = None"
| "batch_scope_error ns s checked (n # rest) =
     (if nd_run_id n \<notin> set checked \<and> run_out_of_scope ns (nd_run_id n) s
      then Some (workflow_to_queue_error (RunNotFound (nd_run_id n)))
      else batch_scope_error ns s (nd_run_id n # checked) rest)"

fun insert_nodes :: "workflow_node list \<Rightarrow> wf_db \<Rightarrow> queue_error + wf_db" where
  "insert_nodes [] s = Inr s"
| "insert_nodes (n # rest) s = and_then (insert_node n s) (insert_nodes rest)"

definition create_workflow_nodes_batch :: "string option \<Rightarrow> workflow_node list \<Rightarrow> unit wf_op" where
  "create_workflow_nodes_batch ns nodes s =
     (case batch_scope_error ns s [] nodes of
        Some err \<Rightarrow> (s, Inl err)
      | None \<Rightarrow> (case insert_nodes nodes s of Inl err \<Rightarrow> (s, Inl err) | Inr s' \<Rightarrow> (s', Inr ())))"

definition get_workflow_node :: "string option \<Rightarrow> string \<Rightarrow> string \<Rightarrow> wf_db \<Rightarrow> workflow_node option" where
  "get_workflow_node ns i name s =
     (if run_out_of_scope ns i s then None
      else map_option node_from_row
        (find (\<lambda>n. nd_run_id n = i \<and> nd_node_name n = name) (workflow_nodes s)))"

definition get_workflow_nodes :: "string option \<Rightarrow> string \<Rightarrow> wf_db \<Rightarrow> workflow_node list" where
  "get_workflow_nodes ns i s =
     (if run_out_of_scope ns i s then []
      else map node_from_row (filter (\<lambda>n. nd_run_id n = i) (workflow_nodes s)))"

text \<open>The shape of every node setter: scope check, one update, and an error when it hit no row.\<close>

definition touch_node ::
  "string option \<Rightarrow> string \<Rightarrow> string \<Rightarrow> (node_row \<Rightarrow> node_row) \<Rightarrow> unit wf_op" where
  "touch_node ns i name f s =
     (if run_out_of_scope ns i s then (s, require_touched 0 i name)
      else let p = (\<lambda>n. nd_run_id n = i \<and> nd_node_name n = name)
           in (s\<lparr>workflow_nodes := update_where p f (workflow_nodes s)\<rparr>,
               require_touched (count_where p (workflow_nodes s)) i name))"

definition update_workflow_node_status ::
  "string option \<Rightarrow> string \<Rightarrow> string \<Rightarrow> workflow_node_status \<Rightarrow> unit wf_op" where
  "update_workflow_node_status ns i name st =
     touch_node ns i name (\<lambda>n. n\<lparr>nr_status := node_status_str st\<rparr>)"

definition set_workflow_node_job :: "string option \<Rightarrow> string \<Rightarrow> string \<Rightarrow> string \<Rightarrow> unit wf_op" where
  "set_workflow_node_job ns i name job = touch_node ns i name (\<lambda>n. n\<lparr>nd_job_id := Some job\<rparr>)"

definition set_workflow_node_started :: "string option \<Rightarrow> string \<Rightarrow> string \<Rightarrow> millis \<Rightarrow> unit wf_op" where
  "set_workflow_node_started ns i name at =
     touch_node ns i name (\<lambda>n. n\<lparr>nr_status := ''running'', nd_started_at := Some at\<rparr>)"

definition set_workflow_node_completed ::
  "string option \<Rightarrow> string \<Rightarrow> string \<Rightarrow> millis \<Rightarrow> string option \<Rightarrow> unit wf_op" where
  "set_workflow_node_completed ns i name at hash =
     touch_node ns i name
       (\<lambda>n. n\<lparr>nr_status := ''completed'', nd_completed_at := Some at, nd_result_hash := hash\<rparr>)"

definition set_workflow_node_error :: "string option \<Rightarrow> string \<Rightarrow> string \<Rightarrow> string \<Rightarrow> unit wf_op" where
  "set_workflow_node_error ns i name err =
     touch_node ns i name (\<lambda>n. n\<lparr>nr_status := ''failed'', nd_error := Some err\<rparr>)"

definition set_workflow_node_fan_out_count ::
  "string option \<Rightarrow> string \<Rightarrow> string \<Rightarrow> int \<Rightarrow> unit wf_op" where
  "set_workflow_node_fan_out_count ns i name k =
     touch_node ns i name (\<lambda>n. n\<lparr>nd_fan_out_count := Some k, nr_status := ''running''\<rparr>)"

definition set_workflow_node_running :: "string option \<Rightarrow> string \<Rightarrow> string \<Rightarrow> millis \<Rightarrow> unit wf_op" where
  "set_workflow_node_running ns i name at =
     touch_node ns i name (\<lambda>n. n\<lparr>nr_status := ''running'', nd_started_at := Some at\<rparr>)"

definition finalize_fan_out_parent ::
  "string option \<Rightarrow> string \<Rightarrow> string \<Rightarrow> bool \<Rightarrow> string option \<Rightarrow> millis \<Rightarrow> bool wf_op" where
  "finalize_fan_out_parent ns i name succeeded err at s =
     (if run_out_of_scope ns i s then (s, Inr False)
      else let p = (\<lambda>n. nd_run_id n = i \<and> nd_node_name n = name
                 \<and> nr_status n \<notin> set [''completed'', ''failed'', ''skipped'', ''cache_hit'']);
               f = (if succeeded
                    then (\<lambda>n. n\<lparr>nr_status := ''completed'', nd_completed_at := Some at\<rparr>)
                    else (\<lambda>n. n\<lparr>nr_status := ''failed'',
                            nd_error := Some (case err of Some m \<Rightarrow> m | None \<Rightarrow> ''fan-out child failed'')\<rparr>))
           in (s\<lparr>workflow_nodes := update_where p f (workflow_nodes s)\<rparr>,
               Inr (count_where p (workflow_nodes s) > 0)))"

text \<open>
  SQLite's \<open>LIKE\<close>: \<open>%\<close> stands for any text, \<open>_\<close> for any one character, and ASCII letters compare
  without case. A character is a UTF-8 lead byte with the continuation bytes after it.
\<close>

definition skip_utf8 :: "string \<Rightarrow> string" where
  "skip_utf8 t =
     (case t of
        [] \<Rightarrow> []
      | c # cs \<Rightarrow> if (of_char c :: nat) < 192 then cs else dropWhile (\<lambda>b. utf8_cont (of_char b)) cs)"

definition ascii_lower :: "char \<Rightarrow> nat" where
  "ascii_lower c = (let n = of_char c in if 65 \<le> n \<and> n \<le> 90 then n + 32 else n)"

lemma skip_utf8_shrinks: "t \<noteq> [] \<Longrightarrow> length (skip_utf8 t) < length t"
  by (cases t) (auto simp: skip_utf8_def le_imp_less_Suc length_dropWhile_le)

function sqlite_like :: "string \<Rightarrow> string \<Rightarrow> bool" where
  "sqlite_like [] t = (t = [])"
| "sqlite_like (c # p) t =
     (if c = CHR ''%'' then sqlite_like p t \<or> (if t = [] then False else sqlite_like (c # p) (skip_utf8 t))
      else if t = [] then False
      else if c = CHR ''_'' then sqlite_like p (skip_utf8 t)
      else if ascii_lower (hd t) = ascii_lower c then sqlite_like p (tl t)
      else False)"
  by pat_completeness auto

termination
  by (relation "measures [length \<circ> fst, length \<circ> snd]") (auto simp: skip_utf8_shrinks)

declare sqlite_like.simps(2) [simp del]

definition get_workflow_nodes_by_prefix ::
  "string option \<Rightarrow> string \<Rightarrow> string \<Rightarrow> wf_db \<Rightarrow> workflow_node list" where
  "get_workflow_nodes_by_prefix ns i prefix s =
     (if run_out_of_scope ns i s then []
      else map node_from_row (filter (\<lambda>n. nd_run_id n = i
             \<and> sqlite_like (prefix @ ''%'') (nd_node_name n)) (workflow_nodes s)))"

definition get_ready_workflow_nodes ::
  "('g, 'd, 'z) wf_libs_scheme \<Rightarrow> string option \<Rightarrow> string \<Rightarrow> string \<Rightarrow> wf_db
     \<Rightarrow> queue_error + workflow_node list" where
  "get_ready_workflow_nodes w ns i dag_json s = compute_ready_nodes w (get_workflow_nodes ns i s) dag_json"

section \<open>Compensation\<close>

definition set_workflow_node_compensation_job ::
  "string option \<Rightarrow> string \<Rightarrow> string \<Rightarrow> string \<Rightarrow> millis \<Rightarrow> unit wf_op" where
  "set_workflow_node_compensation_job ns i name job at =
     touch_node ns i name (\<lambda>n. n\<lparr>nr_status := ''compensating'', nd_compensation_job_id := Some job,
       nd_compensation_started_at := Some at\<rparr>)"

definition set_workflow_node_compensated :: "string option \<Rightarrow> string \<Rightarrow> string \<Rightarrow> millis \<Rightarrow> unit wf_op" where
  "set_workflow_node_compensated ns i name at =
     touch_node ns i name
       (\<lambda>n. n\<lparr>nr_status := ''compensated'', nd_compensation_completed_at := Some at\<rparr>)"

definition set_workflow_node_compensation_failed ::
  "string option \<Rightarrow> string \<Rightarrow> string \<Rightarrow> string \<Rightarrow> millis \<Rightarrow> unit wf_op" where
  "set_workflow_node_compensation_failed ns i name err at =
     touch_node ns i name (\<lambda>n. n\<lparr>nr_status := ''compensation_failed'',
       nd_compensation_completed_at := Some at, nd_compensation_error := Some err\<rparr>)"

section \<open>The invariant of the tables\<close>

lemma wf_row_sel [simp]:
  "rn_id (run_from_row r) = rn_id r" "rn_created_at (run_from_row r) = rn_created_at r"
  "rn_traceparent (run_from_row r) = rn_traceparent r" "rn_tracestate (run_from_row r) = rn_tracestate r"
  "rn_state (run_from_row r) = (case run_state_of_str (rr_state r) of Some st \<Rightarrow> st | None \<Rightarrow> RunPending)"
  "rn_error (run_from_row r) = rn_error r" "rn_completed_at (run_from_row r) = rn_completed_at r"
  "nd_node_name (node_from_row n) = nd_node_name n" "nd_job_id (node_from_row n) = nd_job_id n"
  "nd_run_id (node_from_row n) = nd_run_id n"
  "nd_status (node_from_row n) = (case node_status_of_str (nr_status n) of Some st \<Rightarrow> st | None \<Rightarrow> NodePending)"
  by (simp_all add: run_from_row_def node_from_row_def run_cols.defs workflow_run.defs node_cols.defs
      workflow_node.defs)

lemma wf_to_row_sel [simp]:
  "rn_id (run_to_row ns x) = rn_id x" "rn_created_at (run_to_row ns x) = rn_created_at x"
  "rn_definition_id (run_to_row ns x) = rn_definition_id x"
  "rr_state (run_to_row ns x) = run_state_str (rn_state x)" "rr_namespace (run_to_row ns x) = ns"
  "nd_id (node_to_row y) = nd_id y" "nd_run_id (node_to_row y) = nd_run_id y"
  "nd_node_name (node_to_row y) = nd_node_name y" "nr_status (node_to_row y) = node_status_str (nd_status y)"
  "nd_job_id (node_to_row y) = nd_job_id y"
  by (simp_all add: run_to_row_def node_to_row_def run_cols.defs run_row.defs node_cols.defs node_row.defs)

lemma run_of_to_row [simp]: "run_from_row (run_to_row ns x) = x"
  by (simp add: run_from_row_def run_to_row_def run_cols.defs workflow_run.defs run_row.defs
      run_state_codec.dec_enc)

lemma node_of_to_row [simp]: "node_from_row (node_to_row x) = x"
  by (simp add: node_from_row_def node_to_row_def node_cols.defs workflow_node.defs node_row.defs
      node_status_codec.dec_enc)

text \<open>The primary keys, the two unique indexes, and state columns this build can read back.\<close>

definition wf_ok :: "wf_db \<Rightarrow> bool" where
  "wf_ok s \<longleftrightarrow>
     distinct (map dr_id (workflow_definitions s))
     \<and> distinct (map (\<lambda>d. (dr_name d, dr_version d)) (workflow_definitions s))
     \<and> distinct (map rn_id (workflow_runs s))
     \<and> distinct (map nd_id (workflow_nodes s))
     \<and> distinct (map (\<lambda>n. (nd_run_id n, nd_node_name n)) (workflow_nodes s))
     \<and> (\<forall>r\<in>set (workflow_runs s). run_state_of_str (rr_state r) \<noteq> None)
     \<and> (\<forall>n\<in>set (workflow_nodes s). node_status_of_str (nr_status n) \<noteq> None)"

lemma wf_ok_empty [simp]: "wf_ok empty_wf"
  by (simp add: wf_ok_def empty_wf_def)

text \<open>An update of a node that keeps its keys and writes a known status.\<close>

definition node_update_ok :: "(node_row \<Rightarrow> node_row) \<Rightarrow> bool" where
  "node_update_ok f \<longleftrightarrow> (\<forall>n. nd_id (f n) = nd_id n \<and> nd_run_id (f n) = nd_run_id n
     \<and> nd_node_name (f n) = nd_node_name n
     \<and> (nr_status (f n) = nr_status n \<or> (\<exists>st. nr_status (f n) = node_status_str st)))"

lemma update_nodes_keeps:
  assumes "wf_ok s" and "node_update_ok f"
  shows "wf_ok (s\<lparr>workflow_nodes := update_where p f (workflow_nodes s)\<rparr>)"
proof -
  have "map nd_id (update_where p f t) = map nd_id t"
    and "map (\<lambda>n. (nd_run_id n, nd_node_name n)) (update_where p f t)
       = map (\<lambda>n. (nd_run_id n, nd_node_name n)) t" for t
    using assms(2) by (simp_all add: map_key_update_where node_update_ok_def)
  moreover have "node_status_of_str (nr_status n) \<noteq> None"
    if "n \<in> set (update_where p f (workflow_nodes s))" for n
  proof -
    from that obtain x where "x \<in> set (workflow_nodes s)" "n = x \<or> n = f x"
      by (auto simp: update_where_def)
    then show ?thesis using assms by (auto simp: wf_ok_def node_update_ok_def) (metis node_status_codec.dec_enc option.distinct(1))
  qed
  ultimately show ?thesis using assms(1) by (simp add: wf_ok_def)
qed

lemma touch_node_keeps: "wf_ok s \<Longrightarrow> node_update_ok f \<Longrightarrow> wf_ok (fst (touch_node ns i name f s))"
  by (simp add: touch_node_def Let_def update_nodes_keeps)

lemma status_names:
  "\<exists>st. ''running'' = node_status_str st" "\<exists>st. ''completed'' = node_status_str st"
  "\<exists>st. ''failed'' = node_status_str st" "\<exists>st. ''compensating'' = node_status_str st"
  "\<exists>st. ''compensated'' = node_status_str st" "\<exists>st. ''compensation_failed'' = node_status_str st"
  using node_status_str.simps by metis+

lemmas node_setter_defs = update_workflow_node_status_def set_workflow_node_job_def
  set_workflow_node_started_def set_workflow_node_completed_def set_workflow_node_error_def
  set_workflow_node_fan_out_count_def set_workflow_node_running_def
  set_workflow_node_compensation_job_def set_workflow_node_compensated_def
  set_workflow_node_compensation_failed_def

lemma node_setters_keep:
  assumes "wf_ok s"
  shows "wf_ok (fst (update_workflow_node_status ns i name st s))"
    and "wf_ok (fst (set_workflow_node_job ns i name job s))"
    and "wf_ok (fst (set_workflow_node_started ns i name at s))"
    and "wf_ok (fst (set_workflow_node_completed ns i name at hash s))"
    and "wf_ok (fst (set_workflow_node_error ns i name err s))"
    and "wf_ok (fst (set_workflow_node_fan_out_count ns i name k s))"
    and "wf_ok (fst (set_workflow_node_running ns i name at s))"
    and "wf_ok (fst (set_workflow_node_compensation_job ns i name job at s))"
    and "wf_ok (fst (set_workflow_node_compensated ns i name at s))"
    and "wf_ok (fst (set_workflow_node_compensation_failed ns i name err at s))"
  unfolding node_setter_defs
  by (rule touch_node_keeps [OF assms], simp add: node_update_ok_def status_names; blast?)+

lemma finalize_keeps: "wf_ok s \<Longrightarrow> wf_ok (fst (finalize_fan_out_parent ns i name b err at s))"
  by (cases b) (simp_all add: finalize_fan_out_parent_def Let_def update_nodes_keeps node_update_ok_def status_names)

lemma update_run_keeps:
  assumes "wf_ok s" and "\<And>r. rn_id (f r) = rn_id r"
    and "\<And>r. run_state_of_str (rr_state r) \<noteq> None \<Longrightarrow> run_state_of_str (rr_state (f r)) \<noteq> None"
  shows "wf_ok (fst (update_run ns i f s))"
proof -
  have "map rn_id (update_where p f t) = map rn_id t" for p t
    using assms(2) by (simp add: map_key_update_where)
  moreover have "run_state_of_str (rr_state r) \<noteq> None"
    if "r \<in> set (update_where p f (workflow_runs s))" for p r
    using that assms(1,3) by (auto simp: update_where_def wf_ok_def)
  ultimately show ?thesis using assms(1) by (simp add: wf_ok_def update_run_def)
qed

lemma running_state: "run_state_of_str ''running'' = Some RunRunning"
  using run_state_codec.dec_enc [of RunRunning] by simp

lemma run_setters_keep:
  assumes "wf_ok s"
  shows "wf_ok (fst (update_workflow_run_state ns i st err s))"
    and "wf_ok (fst (set_workflow_run_started ns i at s))"
    and "wf_ok (fst (set_workflow_run_completed ns i at s))"
  unfolding update_workflow_run_state_def set_workflow_run_started_def set_workflow_run_completed_def
  by (rule update_run_keeps [OF assms]; simp add: run_state_codec.dec_enc running_state)+

lemma create_run_keeps: "wf_ok s \<Longrightarrow> wf_ok (fst (create_workflow_run ns run s))"
  by (auto simp: create_workflow_run_def wf_ok_def run_state_codec.dec_enc split: option.splits)

lemma create_definition_keeps: "wf_ok s \<Longrightarrow> wf_ok (fst (create_workflow_definition w def s))"
  by (auto simp: create_workflow_definition_def wf_ok_def split: sum.splits)

lemma insert_node_keeps: "insert_node n s = Inr s' \<Longrightarrow> wf_ok s \<Longrightarrow> wf_ok s'"
  by (auto simp: insert_node_def wf_ok_def node_status_codec.dec_enc split: if_splits) blast+

lemma insert_nodes_keeps: "insert_nodes ns s = Inr s' \<Longrightarrow> wf_ok s \<Longrightarrow> wf_ok s'"
  by (induction ns arbitrary: s) (auto simp: res_simps dest: insert_node_keeps)

lemma create_nodes_keep:
  assumes "wf_ok s"
  shows "wf_ok (fst (create_workflow_node ns n s))" and "wf_ok (fst (create_workflow_nodes_batch ns nodes s))"
  using assms
  by (auto simp: create_workflow_node_def create_workflow_nodes_batch_def insert_node_keeps insert_nodes_keeps
      split: sum.splits option.splits)

section \<open>The operations as a transition system\<close>

inductive wf_step :: "('g, 'd) wf_libs \<Rightarrow> string option \<Rightarrow> wf_db \<Rightarrow> wf_db \<Rightarrow> bool" for w ns where
  definition_created: "wf_step w ns s (fst (create_workflow_definition w def s))"
| run_created: "wf_step w ns s (fst (create_workflow_run ns run s))"
| run_state: "wf_step w ns s (fst (update_workflow_run_state ns i st err s))"
| run_started: "wf_step w ns s (fst (set_workflow_run_started ns i at s))"
| run_completed: "wf_step w ns s (fst (set_workflow_run_completed ns i at s))"
| node_created: "wf_step w ns s (fst (create_workflow_node ns n s))"
| nodes_created: "wf_step w ns s (fst (create_workflow_nodes_batch ns nodes s))"
| node_status: "wf_step w ns s (fst (update_workflow_node_status ns i name nst s))"
| node_job: "wf_step w ns s (fst (set_workflow_node_job ns i name job s))"
| node_started: "wf_step w ns s (fst (set_workflow_node_started ns i name at s))"
| node_completed: "wf_step w ns s (fst (set_workflow_node_completed ns i name at hash s))"
| node_error: "wf_step w ns s (fst (set_workflow_node_error ns i name msg s))"
| node_fan_out: "wf_step w ns s (fst (set_workflow_node_fan_out_count ns i name k s))"
| node_running: "wf_step w ns s (fst (set_workflow_node_running ns i name at s))"
| fan_out_finalized: "wf_step w ns s (fst (finalize_fan_out_parent ns i name b err at s))"
| compensation_job: "wf_step w ns s (fst (set_workflow_node_compensation_job ns i name job at s))"
| compensated: "wf_step w ns s (fst (set_workflow_node_compensated ns i name at s))"
| compensation_failed: "wf_step w ns s (fst (set_workflow_node_compensation_failed ns i name msg at s))"

lemmas wf_all_keep = create_definition_keeps create_run_keeps run_setters_keep create_nodes_keep
  node_setters_keep finalize_keeps

interpretation workflow_store: invariant_system "\<lambda>s. s = empty_wf" "\<lambda>s t. \<exists>ns. wf_step w ns s t" wf_ok for w
proof
  show "wf_ok t" if "wf_ok s" "\<exists>ns. wf_step w ns s t" for s t
    using that by (auto elim!: wf_step.cases simp: wf_all_keep)
qed simp

section \<open>Tenants\<close>

text \<open>The runs outside the namespace \<open>n\<close>, and the nodes of those runs.\<close>

definition foreign :: "string \<Rightarrow> wf_db \<Rightarrow> run_row list \<times> node_row list" where
  "foreign n s = (filter (\<lambda>r. rr_namespace r \<noteq> Some n) (workflow_runs s),
     filter (\<lambda>x. \<exists>r\<in>set (workflow_runs s). rn_id r = nd_run_id x \<and> rr_namespace r \<noteq> Some n) (workflow_nodes s))"

lemma in_scope_run:
  "\<not> run_out_of_scope (Some n) i s \<longleftrightarrow> (\<exists>r\<in>set (workflow_runs s). rn_id r = i \<and> rr_namespace r = Some n)"
  by (auto simp: run_out_of_scope_def count_where_def filter_empty_conv)

text \<open>A node of a run in scope is not foreign, since run ids are unique.\<close>

lemma in_scope_not_foreign:
  assumes "wf_ok s" and "\<not> run_out_of_scope (Some n) i s"
    and "r \<in> set (workflow_runs s)" and "rn_id r = i"
  shows "rr_namespace r = Some n"
proof -
  from assms(2) obtain q where "q \<in> set (workflow_runs s)" "rn_id q = i" "rr_namespace q = Some n"
    unfolding in_scope_run by blast
  moreover have "distinct (map rn_id (workflow_runs s))" using assms(1) by (simp add: wf_ok_def)
  ultimately show ?thesis using assms(3,4) distinct_map_key by metis
qed

lemma foreign_update_nodes:
  assumes "wf_ok s" and "\<not> run_out_of_scope (Some n) i s" and "node_update_ok f"
    and "\<And>x. p x \<Longrightarrow> nd_run_id x = i"
  shows "foreign n (s\<lparr>workflow_nodes := update_where p f (workflow_nodes s)\<rparr>) = foreign n s"
proof -
  have "\<not> (\<exists>r\<in>set (workflow_runs s). rn_id r = i \<and> rr_namespace r \<noteq> Some n)"
    using in_scope_not_foreign [OF assms(1,2)] by blast
  then show ?thesis using assms(3,4) unfolding foreign_def
    by (auto simp: node_update_ok_def intro!: filter_update_where)
qed

lemma foreign_touch:
  "wf_ok s \<Longrightarrow> node_update_ok f \<Longrightarrow> foreign n (fst (touch_node (Some n) i name f s)) = foreign n s"
  by (auto simp: touch_node_def Let_def intro!: foreign_update_nodes)

lemma foreign_node_setters:
  assumes "wf_ok s"
  shows "foreign n (fst (update_workflow_node_status (Some n) i name st s)) = foreign n s"
    and "foreign n (fst (set_workflow_node_job (Some n) i name job s)) = foreign n s"
    and "foreign n (fst (set_workflow_node_started (Some n) i name at s)) = foreign n s"
    and "foreign n (fst (set_workflow_node_completed (Some n) i name at hash s)) = foreign n s"
    and "foreign n (fst (set_workflow_node_error (Some n) i name err s)) = foreign n s"
    and "foreign n (fst (set_workflow_node_fan_out_count (Some n) i name k s)) = foreign n s"
    and "foreign n (fst (set_workflow_node_running (Some n) i name at s)) = foreign n s"
    and "foreign n (fst (set_workflow_node_compensation_job (Some n) i name job at s)) = foreign n s"
    and "foreign n (fst (set_workflow_node_compensated (Some n) i name at s)) = foreign n s"
    and "foreign n (fst (set_workflow_node_compensation_failed (Some n) i name err at s)) = foreign n s"
  unfolding node_setter_defs
  by (rule foreign_touch [OF assms], simp add: node_update_ok_def status_names; blast?)+

lemma foreign_finalize:
  "wf_ok s \<Longrightarrow> foreign n (fst (finalize_fan_out_parent (Some n) i name b err at s)) = foreign n s"
  by (cases b) (auto simp: finalize_fan_out_parent_def Let_def node_update_ok_def status_names
      intro!: foreign_update_nodes)

lemma foreign_update_run:
  assumes "\<And>r. rn_id (f r) = rn_id r \<and> rr_namespace (f r) = rr_namespace r"
  shows "foreign n (fst (update_run (Some n) i f s)) = foreign n s"
proof -
  let ?p = "\<lambda>r. rn_id r = i \<and> run_in_namespace (Some n) r"
  have "(\<exists>r\<in>set (update_where ?p f t). rn_id r = j \<and> rr_namespace r \<noteq> Some n)
      \<longleftrightarrow> (\<exists>r\<in>set t. rn_id r = j \<and> rr_namespace r \<noteq> Some n)" for t j
    unfolding update_where_def set_map bex_simps using assms by (intro bex_cong) auto
  moreover have "filter (\<lambda>r. rr_namespace r \<noteq> Some n) (update_where ?p f t)
      = filter (\<lambda>r. rr_namespace r \<noteq> Some n) t" for t
    by (rule filter_update_where) (simp add: assms run_in_namespace_def)
  ultimately show ?thesis by (simp add: foreign_def update_run_def)
qed

lemma foreign_run_setters:
  "foreign n (fst (update_workflow_run_state (Some n) i st err s)) = foreign n s"
  "foreign n (fst (set_workflow_run_started (Some n) i at s)) = foreign n s"
  "foreign n (fst (set_workflow_run_completed (Some n) i at s)) = foreign n s"
  unfolding update_workflow_run_state_def set_workflow_run_started_def set_workflow_run_completed_def
  by (rule foreign_update_run; simp)+

lemma foreign_create:
  "foreign n (fst (create_workflow_definition w def s)) = foreign n s"
  "foreign n (fst (create_workflow_run (Some n) run s)) = foreign n s"
  by (auto simp: create_workflow_definition_def create_workflow_run_def foreign_def
      split: sum.splits option.splits)

lemma foreign_insert_node:
  assumes "insert_node x s = Inr s'" and "wf_ok s" and "\<not> run_out_of_scope (Some n) (nd_run_id x) s"
  shows "foreign n s' = foreign n s" and "workflow_runs s' = workflow_runs s"
  using assms(1) in_scope_not_foreign [OF assms(2,3)]
  by (auto simp: insert_node_def foreign_def split: if_splits)

lemma run_out_of_scope_cong: "workflow_runs t = workflow_runs s \<Longrightarrow> run_out_of_scope ns i t = run_out_of_scope ns i s"
  by (simp add: run_out_of_scope_def split: option.split)

lemma foreign_insert_nodes:
  "insert_nodes xs s = Inr s' \<Longrightarrow> wf_ok s \<Longrightarrow> \<forall>x\<in>set xs. \<not> run_out_of_scope (Some n) (nd_run_id x) s \<Longrightarrow>
     foreign n s' = foreign n s"
proof (induction xs arbitrary: s)
  case (Cons x xs)
  from Cons.prems(1) obtain s1 where s1: "insert_node x s = Inr s1" "insert_nodes xs s1 = Inr s'"
    by (auto simp: res_simps)
  have x: "\<not> run_out_of_scope (Some n) (nd_run_id x) s" using Cons.prems(3) by simp
  note foreign_insert_node [OF s1(1) Cons.prems(2) x]
  moreover have "foreign n s' = foreign n s1"
    using Cons.IH [OF s1(2) insert_node_keeps [OF s1(1) Cons.prems(2)]] Cons.prems(3)
    by (simp add: run_out_of_scope_cong [OF calculation(2)])
  ultimately show ?case by simp
qed simp

lemma batch_scope_ok:
  "batch_scope_error ns s checked xs = None \<Longrightarrow> \<forall>i\<in>set checked. \<not> run_out_of_scope ns i s \<Longrightarrow>
     \<forall>x\<in>set xs. \<not> run_out_of_scope ns (nd_run_id x) s"
  by (induction xs arbitrary: checked) (auto split: if_splits)

lemma foreign_create_nodes:
  assumes "wf_ok s"
  shows "foreign n (fst (create_workflow_node (Some n) x s)) = foreign n s"
    and "foreign n (fst (create_workflow_nodes_batch (Some n) xs s)) = foreign n s"
proof -
  show "foreign n (fst (create_workflow_node (Some n) x s)) = foreign n s"
    using foreign_insert_node(1) [OF _ assms] by (auto simp: create_workflow_node_def split: sum.splits)
  show "foreign n (fst (create_workflow_nodes_batch (Some n) xs s)) = foreign n s"
    using foreign_insert_nodes [OF _ assms] batch_scope_ok [of "Some n" s "[]" xs]
    by (auto simp: create_workflow_nodes_batch_def split: sum.splits option.splits)
qed

lemmas foreign_all = foreign_create foreign_run_setters foreign_create_nodes foreign_node_setters
  foreign_finalize

lemma wf_step_foreign: "wf_step w (Some n) s t \<Longrightarrow> wf_ok s \<Longrightarrow> wf_ok t \<and> foreign n t = foreign n s"
  by (auto elim!: wf_step.cases simp: wf_all_keep foreign_all)

text \<open>
  C12. A workflow store bound to one tenant cannot touch or read another: whatever sequence of
  operations it performs, the runs of other namespaces and the nodes of those runs stay exactly
  as they were, and it is told that such a run does not exist and has no nodes.
\<close>

theorem workflow_tenants_isolated:
  assumes "wf_ok s" and "(wf_step w (Some n))\<^sup>*\<^sup>* s t"
  shows "foreign n t = foreign n s
    \<and> (\<forall>r\<in>set (fst (foreign n t)). get_workflow_run (Some n) (rn_id r) t = None
          \<and> get_workflow_nodes (Some n) (rn_id r) t = [])"
proof -
  have *: "wf_ok t \<and> foreign n t = foreign n s"
    using assms(2,1) by (induction rule: rtranclp_induct) (auto dest: wf_step_foreign)
  have "get_workflow_run (Some n) (rn_id r) t = None \<and> get_workflow_nodes (Some n) (rn_id r) t = []"
    if r: "r \<in> set (workflow_runs t)" "rr_namespace r \<noteq> Some n" for r
  proof -
    have out: "run_out_of_scope (Some n) (rn_id r) t"
      using in_scope_not_foreign [OF _ _ r(1) refl] * r(2) by blast
    then have "\<not> (\<exists>q\<in>set (workflow_runs t). rn_id q = rn_id r \<and> rr_namespace q = Some n)"
      using in_scope_run by blast
    then have "find (\<lambda>q. rn_id q = rn_id r \<and> run_in_namespace (Some n) q) (workflow_runs t) = None"
      by (auto simp: find_None_iff run_in_namespace_def)
    with out show ?thesis by (simp add: get_workflow_run_def get_workflow_nodes_def)
  qed
  then have "\<forall>r\<in>set (fst (foreign n t)). get_workflow_run (Some n) (rn_id r) t = None
      \<and> get_workflow_nodes (Some n) (rn_id r) t = []"
    by (simp add: foreign_def)
  with * show ?thesis by blast
qed

definition demo_run :: "string \<Rightarrow> workflow_run" where
  "demo_run i = \<lparr>rn_id = i, rn_definition_id = ''d'', rn_params = None, rn_started_at = Some 1,
     rn_completed_at = None, rn_error = None, rn_parent_run_id = None, rn_parent_node_name = None,
     rn_created_at = 1, rn_traceparent = None, rn_tracestate = None, rn_state = RunRunning\<rparr>"

theorem workflow_tenants_isolated_witness:
  "let s = empty_wf\<lparr>workflow_runs := [run_to_row (Some ''b'') (demo_run ''r'')]\<rparr>;
       t = fst (set_workflow_run_completed (Some ''a'') ''r'' 9 s)
   in foreign ''a'' t = foreign ''a'' s \<and> fst (foreign ''a'' t) = [run_to_row (Some ''b'') (demo_run ''r'')]
     \<and> get_workflow_run (Some ''a'') ''r'' t = None"
proof -
  let ?s = "empty_wf\<lparr>workflow_runs := [run_to_row (Some ''b'') (demo_run ''r'')]\<rparr>"
  let ?t = "fst (set_workflow_run_completed (Some ''a'') ''r'' 9 ?s)"
  have "wf_ok ?s" by (simp add: wf_ok_def empty_wf_def run_state_codec.dec_enc)
  moreover have "(wf_step (demo_libs ([], []) []) (Some ''a''))\<^sup>*\<^sup>* ?s ?t"
    by (intro r_into_rtranclp wf_step.intros)
  ultimately have iso: "foreign ''a'' ?t = foreign ''a'' ?s"
    and hidden: "\<forall>r\<in>set (fst (foreign ''a'' ?t)). get_workflow_run (Some ''a'') (rn_id r) ?t = None"
    using workflow_tenants_isolated by blast+
  have rows: "fst (foreign ''a'' ?s) = [run_to_row (Some ''b'') (demo_run ''r'')]" by (simp add: foreign_def)
  have "get_workflow_run (Some ''a'') ''r'' ?t = None"
    using hidden unfolding iso rows by (simp add: demo_run_def)
  with iso rows show ?thesis unfolding Let_def by simp
qed

section \<open>Finalizing a fan-out\<close>
















text \<open>A node row as a submission writes it.\<close>

definition fresh_node ::
  "string \<Rightarrow> string \<Rightarrow> string \<Rightarrow> string option \<Rightarrow> workflow_node_status \<Rightarrow> string option \<Rightarrow> millis option
     \<Rightarrow> workflow_node" where
  "fresh_node i run name job st hash done =
     \<lparr>nd_id = i, nd_run_id = run, nd_node_name = name, nd_job_id = job, nd_result_hash = hash,
      nd_fan_out_count = None, nd_started_at = None, nd_completed_at = done, nd_error = None,
      nd_compensation_job_id = None, nd_compensation_started_at = None,
      nd_compensation_completed_at = None, nd_compensation_error = None, nd_status = st\<rparr>"

lemma fresh_node_sel [simp]:
  "nd_id (fresh_node i run name job st h d) = i" "nd_run_id (fresh_node i run name job st h d) = run"
  "nd_node_name (fresh_node i run name job st h d) = name" "nd_status (fresh_node i run name job st h d) = st"
  "nd_job_id (fresh_node i run name job st h d) = job" "nd_result_hash (fresh_node i run name job st h d) = h"
  "nd_completed_at (fresh_node i run name job st h d) = d"
  by (simp_all add: fresh_node_def)

definition one_node :: "string \<Rightarrow> workflow_node_status \<Rightarrow> wf_db" where
  "one_node name st = empty_wf\<lparr>workflow_nodes := [node_to_row (fresh_node ''n'' ''r'' name None st None None)]\<rparr>"


text \<open>
  C39. The guard of \<open>finalize_fan_out_parent\<close> is narrower than \<open>is_terminal\<close>: a node that the saga
  has already rolled back is terminal, and yet a late finalize answers true and turns it into a
  completed node again.
\<close>

theorem finalize_revives_compensated:
  assumes "\<not> run_out_of_scope ns i s" and "x \<in> set (workflow_nodes s)" and "nd_run_id x = i"
    and "nd_node_name x = name" and "nr_status x = node_status_str NodeCompensated"
  shows "node_is_terminal NodeCompensated
    \<and> (\<exists>s1. finalize_fan_out_parent ns i name True err at s = (s1, Inr True)
        \<and> x\<lparr>nr_status := node_status_str NodeCompleted, nd_completed_at := Some at\<rparr> \<in> set (workflow_nodes s1))"
proof -
  define p where "p = (\<lambda>n :: node_row. nd_run_id n = i \<and> nd_node_name n = name
     \<and> nr_status n \<notin> set [''completed'', ''failed'', ''skipped'', ''cache_hit''])"
  have "p x" using assms by (simp add: p_def)
  then have "0 < count_where p (workflow_nodes s)"
    and "f x \<in> set (update_where p f (workflow_nodes s))" for f
    using assms(2) by (auto simp: count_where_def filter_empty_conv update_where_def)
  then show ?thesis using assms(1)
    unfolding finalize_fan_out_parent_def Let_def p_def [symmetric] by (simp add: node_is_terminal_def)
qed

theorem finalize_revives_compensated_witness:
  "\<exists>s1. finalize_fan_out_parent None ''r'' ''a'' True None 9 (one_node ''a'' NodeCompensated) = (s1, Inr True)"
  using finalize_revives_compensated [of None "''r''" "one_node ''a'' NodeCompensated"
      "node_to_row (fresh_node ''n'' ''r'' ''a'' None NodeCompensated None None)" "''a''" None 9]
  by (auto simp: one_node_def run_out_of_scope_def)

section \<open>Lookups by prefix\<close>

lemma like_rest: "sqlite_like ''%'' t"
proof (induction t rule: measure_induct_rule [of length])
  case (less t)
  then show ?case using skip_utf8_shrinks [of t] by (cases "t = []") (simp_all add: sqlite_like.simps(2))
qed

lemma like_append: "sqlite_like q t \<Longrightarrow> sqlite_like (p @ q) (p @ t)"
proof (induction p)
  case (Cons c p)
  show ?case
  proof (cases "c = CHR ''%''")
    case True
    have "skip_utf8 ((c # p) @ t) = p @ t" by (simp add: skip_utf8_def True)
    moreover have "sqlite_like (c # p @ q) (p @ t)" using Cons True by (simp add: sqlite_like.simps(2))
    ultimately show ?thesis using True by (simp add: sqlite_like.simps(2) [of "CHR ''%''" "p @ q" "CHR ''%'' # p @ t"])
  next
    case False
    then show ?thesis using Cons by (simp add: sqlite_like.simps(2) skip_utf8_def)
  qed
qed simp

text \<open>
  C40. A lookup by prefix returns every node of the run whose name starts with the prefix, but not
  only those: an underscore in the prefix is a wildcard of \<open>LIKE\<close>. The children of \<open>load-a\<close> are
  returned, too, when the children of \<open>load_a\<close> are looked up.
\<close>

theorem prefix_lookup_overmatches:
  assumes "\<not> run_out_of_scope ns i s" and "x \<in> set (workflow_nodes s)" and "nd_run_id x = i"
    and "nd_node_name x = u @ c # v @ rest" and "of_char c < (192 :: nat)"
  shows "node_from_row x \<in> set (get_workflow_nodes_by_prefix ns i (u @ [c] @ v) s)
    \<and> node_from_row x \<in> set (get_workflow_nodes_by_prefix ns i (u @ ''_'' @ v) s)"
proof -
  have tail: "sqlite_like (v @ ''%'') (v @ rest)" by (rule like_append [OF like_rest])
  have "sqlite_like (u @ [c] @ v @ ''%'') (u @ c # v @ rest)"
    using like_append [OF tail, of "u @ [c]"] by simp
  moreover have "sqlite_like (u @ ''_'' @ v @ ''%'') (u @ c # v @ rest)"
    using tail assms(5) by (intro like_append) (simp add: sqlite_like.simps(2) skip_utf8_def)
  ultimately show ?thesis using assms(1-4) by (auto simp: get_workflow_nodes_by_prefix_def)
qed

theorem prefix_lookup_overmatches_witness:
  "node_from_row (node_to_row (fresh_node ''n'' ''r'' ''load-a[0]'' None NodePending None None))
     \<in> set (get_workflow_nodes_by_prefix None ''r'' ''load_a['' (one_node ''load-a[0]'' NodePending))"
  using prefix_lookup_overmatches [of None "''r''" "one_node ''load-a[0]'' NodePending"
      "node_to_row (fresh_node ''n'' ''r'' ''load-a[0]'' None NodePending None None)"
      "''load''" "CHR ''-''" "''a[''" "''0]''"]
  by (simp add: one_node_def run_out_of_scope_def)

section \<open>Pages of runs\<close>

definition runs_of ::
  "string option \<Rightarrow> string option \<Rightarrow> workflow_state option \<Rightarrow> wf_db \<Rightarrow> workflow_run list" where
  "runs_of ns name st s = map run_from_row (filter (run_matches ns name st s) (workflow_runs s))"

definition run_page_key :: "workflow_run \<Rightarrow> millis \<times> string" where
  "run_page_key r = (rn_created_at r, rn_id r)"

text \<open>The sentinel of the first page is past every run created before the end of \<open>i64\<close>.\<close>

definition pageable :: "wf_db \<Rightarrow> bool" where
  "pageable s \<longleftrightarrow> wf_ok s \<and> (\<forall>r\<in>set (workflow_runs s). rn_created_at r < i64_max)"

interpretation workflow_pages: keyset_listing pageable "runs_of ns name st" run_page_key
  "\<lambda>s n c. list_workflow_runs_after ns name st n c s" for ns name st
proof
  fix s :: wf_db and n :: int and c :: "(millis \<times> string) option"
  assume ok: "pageable s" and n: "0 < n"
  have cursor: "(rn_created_at r < fst k \<or> rn_created_at r = fst k \<and> rn_id r < snd k)
      \<longleftrightarrow> after_cursor c (run_page_key (run_from_row r))"
    if "r \<in> set (workflow_runs s)" "k = (case c of Some c \<Rightarrow> c | None \<Rightarrow> (i64_max, ''''))" for r k
    using that ok by (cases c) (auto simp: run_page_key_def pageable_def)
  have "filter (\<lambda>r. run_matches ns name st s r \<and> (rn_created_at r < fst k \<or> rn_created_at r = fst k \<and> rn_id r < snd k))
      (workflow_runs s)
    = filter (\<lambda>r. after_cursor c (run_page_key (run_from_row r))) (filter (run_matches ns name st s) (workflow_runs s))"
    if "k = (case c of Some c \<Rightarrow> c | None \<Rightarrow> (i64_max, ''''))" for k
    unfolding filter_filter using cursor [OF _ that] by (intro filter_cong) auto
  then show "list_workflow_runs_after ns name st n c s
    = take (nat n) (order_desc run_page_key (filter (\<lambda>r. after_cursor c (run_page_key r)) (runs_of ns name st s)))"
    using n by (simp add: list_workflow_runs_after_def runs_of_def sql_limit_def order_desc_map filter_map
        comp_def take_map case_prod_beta run_page_key_def [of "run_from_row _"] del: filter_filter)
next
  fix s :: wf_db
  assume "pageable s"
  then have "distinct (map rn_id (filter (run_matches ns name st s) (workflow_runs s)))"
    by (intro distinct_map_filter) (simp add: pageable_def wf_ok_def)
  then show "distinct (map run_page_key (runs_of ns name st s))"
    by (auto simp: runs_of_def run_page_key_def distinct_map inj_on_def)
qed

text \<open>Walking the pages of runs lists every run of the filter once, newest first.\<close>

lemma workflow_runs_paged:
  "pageable s \<Longrightarrow> 0 < n \<Longrightarrow> length (runs_of ns name st s) < fuel * nat n \<Longrightarrow>
     all_pages fuel (\<lambda>c. list_workflow_runs_after ns name st n c s) run_page_key (nat n) None
       = Some (order_desc run_page_key (runs_of ns name st s))"
  by (rule workflow_pages.all_pages_complete)

end
