(* ===== verification/Spec2Isabelle.thy ===== *)
theory Spec2Isabelle
  imports Step_Session Pubsub_Delivery Retention Resilience Workflow_Store
begin

text \<open>
  Verification of flexiq, a durable job queue: the storage layer and the pure parts of the crate
  \<open>src/crates/flexiq-core\<close>, and the workflow crate \<open>src/crates/flexiq-workflows\<close> on top of it. Paths
  below are relative to \<open>src/crates/flexiq-core/src\<close> unless they name the other crate.

  \<^bold>\<open>The program.\<close> Producers enqueue jobs into a SQL database, optionally with dependencies on
  other jobs, a unique key, a delay or an expiry. Schedulers hand out due jobs to workers in
  dispatch order and record who executes what in claims; a worker settles a job by completing,
  failing, retrying or cancelling it, and a job that exhausted its retries moves to the
  dead-letter queue, from which an operator can resurrect it. A running job may memoise steps
  and sleep between them, so that a later attempt replays what an earlier one committed. Topics
  fan one message out to subscriptions, as jobs or through a log. Around this there are
  registries (workers, paused queues, schedules, settings, audit trail, logs, metrics), a
  circuit breaker per task, and a cleanup that applies retention windows and row ceilings under
  an elected leader. A workflow is a graph of steps; a run of it has one row per node and its
  steps are ordinary jobs. Every component works on the same tables through short transactions, so the
  composition is an interleaving of storage calls.

  \<^bold>\<open>How the code is modelled.\<close> A table is a list of records, one record type per row struct of
  \<open>storage/models.rs\<close>; the record \<^typ>\<open>db\<close> holds all tables. A storage method is a function of
  its arguments and the state that returns the new state and a result
  (\<^typ>\<open>queue_error + 'a\<close>, the constructors of \<open>error.rs\<close>); \<open>write_transaction\<close> keeps the old
  state when its body fails. SQL statements are the list functions of \<open>Flexiq_Prelude\<close>
  (\<open>update_where\<close>, \<open>delete_where\<close>, \<open>count_where\<close>, \<open>sql_limit\<close>, \<open>order_desc\<close>, \<open>upsert\<close>), and a
  constraint of the schema that the code relies on is a check in the insert. The integers
  \<open>i32\<close> and \<open>i64\<close> are \<^typ>\<open>int\<close> with saturation and wrap-around written out where the code
  computes; bytes, claim epochs and random words are \<open>word\<close>s. The quotient of two \<open>i32\<close> in
  \<open>f64\<close> is rounded to nearest even on exact significands (\<open>Resilience\<close>).

  \<^bold>\<open>Parameters.\<close> The clock, the ids of \<open>Uuid::now_v7\<close>, random words and \<open>serde_json\<close>'s parser and
  printer for a call are the fields of \<^typ>\<open>env\<close>. The base64 codec of leases, the codecs of
  the retention and quota documents, the graph library \<open>dagron_core\<close> (\<open>wf_libs\<close>), the next run of a cron expression and the iteration order
  of a \<open>HashMap\<close> are arguments of the definitions that use them. What a theorem needs of them
  is a named hypothesis (\<open>fresh_ids\<close>: an id that is handed out is not in the archive;
  \<open>serde_roundtrip\<close>: parsing inverts printing), and its witness instantiates them.

  \<^bold>\<open>Theories.\<close>
  \<^item> \<open>Flexiq_Prelude\<close>: fixed-width arithmetic, results, SQL tables, decimal numerals.
  \<^item> \<open>Contracts\<close>: the interfaces, as locales: an invariant of a transition system, the codec of an
    enum, a keyset listing (walking its pages returns every row once), and a purge in bounded
    batches (it deletes exactly the rows it selects). Each is interpreted on the definitions of
    the component that provides it.
  \<^item> \<open>Job_Model\<close>, \<open>Json_Model\<close>: \<open>job.rs\<close>, \<open>error.rs\<close>, \<open>storage/models.rs\<close>, run keys.
  \<^item> \<open>Job_Table\<close>: inserting and archiving a row; the invariant \<open>db_ok\<close> of all tables (keys are
    unique, live and archived ids are disjoint, columns are well-typed, memos have no gaps).
  \<^item> \<open>Job_Enqueue\<close>, \<open>Job_Dequeue\<close>, \<open>Job_Lifecycle\<close>, \<open>Job_Query\<close>: \<open>storage/diesel_common/jobs.rs\<close>
    and \<open>storage/sqlite/jobs.rs\<close>. What a dequeue returns exactly and in which order, that no job is
    handed out twice, that a retry revokes the claim, that a cancel reaches every transitive
    dependent, that a batch of completions is all or nothing, that tenants are isolated, that
    statistics and pages agree with the tables.
  \<^item> \<open>Purge\<close>, \<open>Dead_Letter\<close>: \<open>purge.rs\<close>, \<open>dead_letter.rs\<close> of \<open>storage/diesel_common\<close>. Purges delete
    exactly what expired, trimming keeps the newest rows, a dead-letter round trip keeps the
    identity of the run.
  \<^item> \<open>Claims\<close>: \<open>locks.rs\<close>, \<open>lease.rs\<close> and the claim calls. A lock has one holder at a time, a
    settle succeeds once, a claim epoch fences off a requeued dispatch, leases round-trip.
  \<^item> \<open>Steps\<close>, \<open>Step_Session\<close>: \<open>diesel_common/steps.rs\<close> and \<open>step/\<close>. A step commits once, the memo
    stays under its ceilings, a sleep keeps its deadline, an attempt that is replayed sees the
    results of the attempt before it.
  \<^item> \<open>Pubsub\<close>, \<open>Pubsub_Delivery\<close>: \<open>pubsub.rs\<close> and its storage. A purge keeps unread messages, a log
    reader catches up in order, a lease excludes redelivery, a keyed publish delivers once.
  \<^item> \<open>Registry\<close>: queue pauses, workers, schedules, settings, audit, logs, metrics, archive listings,
    cursors. \<open>Retention\<close>: \<open>scheduler/retention.rs\<close>, \<open>scheduler/retention_override.rs\<close>,
    \<open>scheduler/maintenance.rs\<close> (the cleanup), \<open>quota/key.rs\<close>: the preview of a policy counts
    exactly the rows the next cleanup deletes. \<open>Resilience\<close>: \<open>resilience/retry.rs\<close>,
    \<open>resilience/circuit_breaker.rs\<close>.
  \<^item> \<open>Trace\<close>: \<open>trace.rs\<close>. What is stored of a trace context reads back as the same context, and merging
    one into a metadata document keeps the bytes of the document.
  \<^item> \<open>Workflow_Model\<close>, \<open>Workflow_Store\<close>: \<open>state.rs\<close>, \<open>node.rs\<close>, \<open>definition.rs\<close>, \<open>run.rs\<close>, \<open>error.rs\<close>,
    \<open>topology.rs\<close>, \<open>common.rs\<close> and \<open>diesel_common.rs\<close> of \<open>flexiq-workflows\<close>. The workflow tables are
    the record \<^typ>\<open>wf_db\<close>, a store is bound to a namespace. Every operation keeps the invariant
    \<open>wf_ok\<close>, a store cannot touch or see another tenant's runs, a fan-out is finalized once.
  \<^item> This theory: the storage calls as one step relation over all components, that every reachable
    state satisfies \<open>db_ok\<close>, and properties that span components.

  \<^bold>\<open>Bounds and fuel.\<close> A dequeue scans 100 candidates and a batch at most 400, and a purge runs at
  most 200 batches of 500 rows per call, all as the code does; the exactness lemmas of one purge
  therefore assume at most 100000 rows to delete. Loops that end are functions with a
  termination proof (the breadth-first search over dependents ends because every round visits a
  new edge). The client that walks the pages of a listing uses fuel, and the lemmas give the
  amount that is enough: more pages than rows over the page size.

  \<^bold>\<open>Not modelled.\<close> The dispatch loop of the scheduler (\<open>scheduler/mod.rs\<close>, \<open>poller.rs\<close>,
  \<open>result_handler.rs\<close>) and the parts of \<open>scheduler/maintenance.rs\<close> that go through it: tokio tasks,
  channels and in-memory permits around the storage calls above. The refill of the rate limiter
  and the control law of \<open>scheduler/codel.rs\<close>: general \<open>f64\<close> arithmetic. Event delivery, the audit
  recorder thread, remote workers, HTTP: I/O. CBOR, cron and base64: third-party crates. The SQL
  of the Postgres backend where it differs, and the Redis backend: another dialect and Lua
  scripts over another data model. The submission of a workflow over both
  stores and the forwarding backend enum. Servers, command line, dashboard, mesh and the language
  bindings: shells around the core.
\<close>

section \<open>The storage calls as a transition system\<close>

text \<open>
  One step is one call of the storage interface by any client: whatever threads, workers and
  schedulers do, the database sees a sequence of such calls, each atomic as its transaction
  makes it. The calls that create a job draw ids; an id already in the archive is excluded,
  which is what \<open>Uuid::now_v7\<close> promises.
\<close>

inductive job_step :: "db \<Rightarrow> db \<Rightarrow> bool" where
  enqueue: "fresh_ids e s \<Longrightarrow> job_step s (fst (enqueue e nj s))"
| enqueue_batch: "fresh_ids e s \<Longrightarrow> job_step s (fst (enqueue_batch e njs s))"
| enqueue_unique: "fresh_ids e s \<Longrightarrow> job_step s (fst (enqueue_unique_reporting e nj s))"
| enqueue_unique_batch: "fresh_ids e s \<Longrightarrow> job_step s (fst (enqueue_unique_batch_reporting e njs s))"
| enqueue_batch_dedup: "fresh_ids e s \<Longrightarrow> job_step s (fst (enqueue_batch_dedup e njs s))"
| enqueue_debounced: "fresh_ids e s \<Longrightarrow> job_step s (fst (enqueue_debounced e nj opts s))"
| dequeue: "job_step s (fst (dequeue_ordered_reporting q now ns order s))"
| dequeue_from: "job_step s (fst (dequeue_from_reporting qs now ns orders s))"
| dequeue_batch: "job_step s (fst (dequeue_batch_ordered_reporting q now ns mx order s))"
| dequeue_batch_from: "job_step s (fst (dequeue_batch_from_reporting qs now ns mx orders s))"
| complete: "job_step s (fst (complete e i res ns s))"
| complete_batch: "job_step s (fst (complete_batch e cs ns s))"
| fail: "job_step s (fst (fail e i err s))"
| retry: "job_step s (fst (retry i at ns s))"
| reschedule: "job_step s (fst (reschedule i at ns s))"
| requeue_stuck: "job_step s (fst (requeue_stuck i now s))"
| request_cancel: "job_step s (fst (request_cancel i ns s))"
| update_progress: "job_step s (fst (update_progress i pct ns s))"
| mark_cancelled: "job_step s (fst (mark_cancelled e i ns s))"
| cascade_cancel: "job_step s (fst (cascade_cancel_reporting e root reason ns s))"
| cancel_job: "job_step s (fst (cancel_job_reporting e i ns s))"
| mass_cancel: "job_step s (fst (archive_pending_in_batches now err p acc rep s))"
| record_error: "job_step s (fst (record_error e i attempt err ns s))"
| archive_old: "job_step s (fst (archive_old_jobs cutoff s))"

inductive dead_step :: "db \<Rightarrow> db \<Rightarrow> bool" where
  dead_letter_job: "dead_step s (fst (dead_letter_job e j err md sh s))"
| shed_new_jobs: "dead_step s (fst (shed_new_jobs e js md s))"
| retry_dead: "fresh_ids e s \<Longrightarrow> dead_step s (fst (retry_dead e i ns s))"
| purge_dead: "dead_step s (fst (purge_dead older ns s))"
| purge_dead_by_task: "dead_step s (fst (purge_dead_by_task t ns s))"
| delete_dead: "dead_step s (fst (delete_dead i ns s))"
| trim_dead: "dead_step s (fst (trim_dead_over ns keep s))"
| trim_archived: "dead_step s (fst (trim_archived_over ns keep s))"
| purge_completed: "dead_step s (fst (purge_completed older s))"
| cleanup: "dead_step s (fst (auto_cleanup k es ord ord1 ord2 c s))"

inductive claim_step :: "db \<Rightarrow> db \<Rightarrow> bool" where
  lock_call: "claim_step s (lock_step c s)"
| claim_execution: "claim_step s (fst (claim_execution e i w s))"
| claim_execution_batch: "claim_step s (fst (claim_execution_batch e is w s))"
| complete_execution: "claim_step s (fst (complete_execution i ns s))"
| reclaim_execution: "claim_step s (fst (reclaim_execution e i expected new s))"
| purge_execution_claims: "claim_step s (fst (purge_execution_claims e older s))"
| await_settle: "claim_step s (fst (await_settle e i owner attempt epoch deadline ns s))"
| claim_settle: "claim_step s (fst (claim_settle i who ns s))"
| record_step_result: "claim_step s (fst (record_step_result e st owner attempt epoch lims ns s))"
| sleep_job: "claim_step s (fst (sleep_job e st owner attempt epoch wake lims ns s))"
| delete_job_steps: "claim_step s (fst (delete_job_steps i ns s))"

inductive pubsub_step :: "db \<Rightarrow> db \<Rightarrow> bool" where
  declare_topic: "pubsub_step s (fst (declare_topic e topic mode ret s))"
| register_subscription: "pubsub_step s (fst (register_subscription sub s))"
| unsubscribe: "pubsub_step s (fst (unsubscribe topic name s))"
| set_subscription_active: "pubsub_step s (fst (set_subscription_active topic name active s))"
| reap_ephemeral: "pubsub_step s (fst (reap_ephemeral_subscriptions e live s))"
| publish_message: "pubsub_step s (fst (publish_message e topic body md notes expires s))"
| ack_cursor: "pubsub_step s (fst (ack_topic_cursor topic name c s))"
| lease: "pubsub_step s (fst (lease_topic_messages topic name limit vis now s))"
| ack: "pubsub_step s (fst (ack_message topic name i s))"
| nack: "pubsub_step s (fst (nack_message topic name i s))"
| purge_messages: "pubsub_step s (fst (purge_topic_messages ord ord' now limit s))"

inductive registry_step :: "db \<Rightarrow> db \<Rightarrow> bool" where
  pause: "registry_step s (fst (pause_queue e e' name ns s))"
| resume: "registry_step s (fst (resume_queue name ns s))"
| register_worker: "registry_step s (fst (register_worker e r s))"
| heartbeat: "registry_step s (fst (heartbeat e w h s))"
| drain: "registry_step s (fst (request_worker_drain w ns s))"
| worker_status: "registry_step s (fst (update_worker_status w st s))"
| reap_workers: "registry_step s (fst (reap_dead_workers_if_leader e e' e'' owner s))"
| unregister_worker: "registry_step s (fst (unregister_worker w s))"
| register_periodic: "registry_step s (fst (register_periodic t s))"
| declare_periodic: "registry_step s (fst (declare_periodic t s))"
| advance_periodic: "registry_step s (fst (update_periodic_schedule name last_run next_run ns s))"
| delete_periodic: "registry_step s (fst (delete_periodic name ns s))"
| enable_periodic: "registry_step s (fst (set_periodic_enabled name en ns s))"
| set_setting: "registry_step s (fst (set_setting e key v s))"
| set_setting_if: "registry_step s (fst (set_setting_if e key x v s))"
| delete_setting: "registry_step s (fst (delete_setting key s))"
| append_audit: "registry_step s (fst (append_audit rs s))"
| purge_audit: "registry_step s (fst (purge_audit auns auc s))"
| write_log: "registry_step s (fst (write_task_log e job task level msg extra ns s))"
| metric: "registry_step s (fst (record_metric e task job wall mem succ ns s))"
| replay: "registry_step s (fst (record_replay e orig repl ores rres oerr rerr s))"
| rate_limit: "registry_step s (fst (upsert_rate_limit l s))"
| breaker_allow: "registry_step s (fst (allow e task s))"
| breaker_success: "registry_step s (fst (record_success e task s))"
| breaker_failure: "registry_step s (fst (record_failure e task s))"
| breaker_register: "registry_step s (fst (register_breaker task cfg s))"

inductive db_step :: "db \<Rightarrow> db \<Rightarrow> bool" where
  on_jobs: "job_step s t \<Longrightarrow> db_step s t"
| on_dead_letters: "dead_step s t \<Longrightarrow> db_step s t"
| on_claims: "claim_step s t \<Longrightarrow> db_step s t"
| on_topics: "pubsub_step s t \<Longrightarrow> db_step s t"
| on_registries: "registry_step s t \<Longrightarrow> db_step s t"

inductive_simps db_step_iff: "db_step s t"

lemma record_error_keeps: "db_ok s \<Longrightarrow> db_ok (fst (record_error e i attempt err ns s))"
  by (simp add: record_error_def db_ok_def ok_defs steps_ok_def steps_of_def unique_ok_def)

lemma job_step_keeps: "job_step s t \<Longrightarrow> db_ok s \<Longrightarrow> db_ok t"
  by (induction rule: job_step.induct)
    (simp_all add: enqueue_all_keep dequeue_all_keep lifecycle_all_keep mass_cancel_keeps record_error_keeps
      archive_old_jobs_keeps)

lemma dead_step_keeps: "dead_step s t \<Longrightarrow> db_ok s \<Longrightarrow> db_ok t"
  by (induction rule: dead_step.induct)
    (simp_all add: dead_letter_all_keep trim_archived_keeps purge_completed_keeps auto_cleanup_keeps)

lemma claim_step_keeps: "claim_step s t \<Longrightarrow> db_ok s \<Longrightarrow> db_ok t"
  by (induction rule: claim_step.induct) (simp_all add: claims_all_keep steps_all_keep)

lemma pubsub_step_keeps: "pubsub_step s t \<Longrightarrow> db_ok s \<Longrightarrow> db_ok t"
  by (induction rule: pubsub_step.induct) (simp_all add: topic_calls_keep declare_topic_keeps)

lemma registry_step_keeps: "registry_step s t \<Longrightarrow> db_ok s \<Longrightarrow> db_ok t"
  by (induction rule: registry_step.induct)
    (simp_all add: registry_all_keep reap_if_leader_keeps breaker_all_keep)

lemma db_step_keeps: "db_step s t \<Longrightarrow> db_ok s \<Longrightarrow> db_ok t"
  by (auto simp: db_step_iff intro: job_step_keeps dead_step_keeps claim_step_keeps pubsub_step_keeps
      registry_step_keeps)

interpretation queue_system: invariant_system "\<lambda>s. s = empty_db" db_step db_ok
  by unfold_locales (auto intro: db_step_keeps)

section \<open>Rescuing the jobs of a dead worker\<close>

lemma orphan_listed:
  assumes ok: "db_ok s" and r: "r \<in> set (jobs s)" "row_status r = status_i32 Running" "in_scope ns r"
    and c: "c \<in> set (execution_claims s)" "cl_job_id c = jid r" "cl_worker_id c = w"
    and dead: "w \<notin> set live" and "live \<noteq> []"
  shows "(from_narrow r [] None, w) \<in> set (reap_orphaned_jobs live ns s)"
proof -
  let ?orphans = "filter (\<lambda>x. cl_worker_id x \<notin> set live) (execution_claims s)"
  let ?pairs = "rev (map (\<lambda>x. (cl_job_id x, cl_worker_id x)) ?orphans)"
  have orph: "c \<in> set ?orphans" using c dead by simp
  have "distinct (map cl_job_id ?orphans)" by (intro distinct_map_filter db_ok_distinct(4) [OF ok])
  then have "distinct (map fst ?pairs)" by (simp add: comp_def rev_map [symmetric])
  moreover have "(jid r, w) \<in> set ?pairs"
    unfolding set_rev set_map by (rule image_eqI [OF _ orph]) (simp add: c)
  ultimately have own: "map_of ?pairs (jid r) = Some w" by (rule map_of_is_SomeI)
  have "jid r \<in> cl_job_id ` set ?orphans" using orph c(2) by (metis image_eqI)
  then show ?thesis
    unfolding reap_orphaned_jobs_def Let_def using r own assms(9) by (auto intro!: image_eqI [of _ _ r])
qed

lemma reclaim_once:
  assumes ok: "db_ok s" and c: "c \<in> set (execution_claims s)" "cl_job_id c = i" "cl_worker_id c = w" and "me \<noteq> w"
    and epoch: "epoch = mint_claim_epoch (rand_u64 e 0)"
  shows "\<exists>s1. reclaim_execution e i w me s = (s1, Inr (Some epoch)) \<and> jobs s1 = jobs s \<and> db_ok s1
    \<and> find (\<lambda>x. cl_job_id x = i) (execution_claims s1)
        = Some (c\<lparr>cl_worker_id := me, cl_claimed_at := now_millis e, cl_epoch := Some epoch\<rparr>)
    \<and> (\<forall>e' other. reclaim_execution e' i w other s1 = (s1, Inr None))"
proof -
  let ?p = "\<lambda>x. cl_job_id x = i \<and> cl_worker_id x = w"
  let ?f = "\<lambda>x. x\<lparr>cl_worker_id := me, cl_claimed_at := now_millis e, cl_epoch := Some epoch\<rparr> :: claim_row"
  let ?C = "update_where ?p ?f (execution_claims s)"
  let ?s1 = "s\<lparr>execution_claims := ?C\<rparr>"
  have "count_where ?p (execution_claims s) \<noteq> 0" using c by (auto simp: count_where_0)
  then have "0 < count_where ?p (execution_claims s)"
    using count_where_nonneg [of ?p "execution_claims s"] by linarith
  then have run: "reclaim_execution e i w me s = (?s1, Inr (Some epoch))"
    by (simp add: reclaim_execution_def Let_def epoch)
  have keep: "db_ok ?s1" using claim_ops_keep(4) [OF ok, of e i w me] unfolding run by simp
  have none: "\<forall>x\<in>set ?C. \<not> ?p x" 
    unfolding update_where_def set_map ball_simps using assms(5) by simp
  then have "update_where ?p g ?C = ?C" for g by (rule update_where_none)
  moreover have "count_where ?p ?C = 0" unfolding count_where_0 by (rule none)
  ultimately have again: "reclaim_execution e' i w other ?s1 = (?s1, Inr None)" for e' other
    by (simp add: reclaim_execution_def Let_def)
  have "find (\<lambda>x. cl_job_id x = i) (update_where ?p ?f t) = Some (?f c)"
    if "distinct (map cl_job_id t)" "c \<in> set t" for t
    using that
  proof (induction t)
    case (Cons x t)
    show ?case
    proof (cases "x = c")
      case True
      then show ?thesis using c(2,3) by (simp add: update_where_def)
    next
      case False
      then have "c \<in> set t" using Cons.prems(2) by simp
      then have "cl_job_id c \<in> cl_job_id ` set t" by (rule imageI)
      then have "cl_job_id x \<noteq> i" using Cons.prems(1) c(2) by auto
      then show ?thesis using Cons.IH Cons.prems(1) \<open>c \<in> set t\<close> by (simp add: update_where_def)
    qed
  qed simp
  from this [OF db_ok_distinct(4) [OF ok] c(1)] show ?thesis
    using run again keep by (intro exI [of _ ?s1]) simp
qed

text \<open>The claim on a job decides which results of its running attempt are accepted.\<close>

lemma claimed_fence:
  assumes ok: "db_ok s" and r: "r \<in> set (jobs s)" "row_status r = status_i32 Running"
    and c: "find (\<lambda>x. cl_job_id x = jid r) (execution_claims s) = Some c" "cl_epoch c = Some epoch"
  shows "authorize_attempt e (jid r) (cl_worker_id c) (retry_count r) (Some epoch) None s = Inr Authorized"
    and "old \<noteq> epoch \<Longrightarrow> authorize_attempt e (jid r) owner attempt (Some old) ns s = Inr Superseded"
proof -
  have c': "c \<in> set (execution_claims s)" "cl_job_id c = jid r" using c(1) by (auto simp: find_claim [OF ok])
  have one: "x = c" if "x \<in> set (execution_claims s)" "cl_job_id x = jid r" for x
    using distinct_map_key [OF db_ok_distinct(4) [OF ok] that(1) c'(1)] that(2) c'(2) by simp
  have "fence_open (jid r) (cl_worker_id c) (retry_count r) (Some epoch) None s"
    using r c(2) one unfolding fence_open_def by (fastforce simp: job_in_namespace_def)
  then show "authorize_attempt e (jid r) (cl_worker_id c) (retry_count r) (Some epoch) None s = Inr Authorized"
    by (simp add: authorize_attempt_eq ok)
  assume "old \<noteq> epoch"
  then have "\<not> fence_open (jid r) owner attempt (Some old) ns s"
    using c' c(2) unfolding fence_open_def by fastforce
  then show "authorize_attempt e (jid r) owner attempt (Some old) ns s = Inr Superseded"
    by (simp add: authorize_attempt_eq ok)
qed

section \<open>Properties\<close>

text \<open>
  C3. The invariant of the database holds in every state the storage calls reach from an empty
  database, in any order and with any arguments: job ids are unique in and across the live and
  the archive table, live rows are pending and not started or running and started and carry no
  outcome, archived rows are terminal with a completion time, at most one live job holds a
  unique key of its namespace, a job has at most one execution claim, the memo of a job is
  gap-free with distinct step keys and belongs to a live job, and the dead letters, locks and
  all registries respect their keys.
\<close>

theorem reachable_invariant:
  assumes "db_step\<^sup>*\<^sup>* empty_db s"
  shows "db_ok s"
  using queue_system.inv_reachable [OF refl assms] .

theorem reachable_invariant_witness:
  "db_ok (fst (set_setting (plain_env 1) ''k'' ''v'' (fst (pause_queue (plain_env 0) (plain_env 0) ''q'' None empty_db))))"
proof -
  let ?s1 = "fst (pause_queue (plain_env 0) (plain_env 0) ''q'' None empty_db)"
  have "db_step empty_db ?s1" by (intro on_registries registry_step.intros)
  moreover have "db_step ?s1 (fst (set_setting (plain_env 1) ''k'' ''v'' ?s1))"
    by (intro on_registries registry_step.intros)
  ultimately show ?thesis by (intro reachable_invariant) (rule rtranclp.intros(2) [OF r_into_rtranclp])
qed

text \<open>
  C6. A job of a dead worker is rescued by exactly one survivor. For a running job whose claim
  belongs to a worker with no heartbeat since the cutoff, the orphan scan of a surviving
  scheduler finds the job together with that worker. The survivor's reclaim takes the claim under
  the epoch it has just minted: the survivor is authorized for the attempt under that epoch, and
  a result that presents any other epoch, whoever sends it, is superseded. A later reclaim that
  still expects the dead worker, by anyone, gets nothing and changes nothing.
\<close>

theorem orphan_rescued_once:
  assumes ok: "db_ok s" and r: "r \<in> set (jobs s)" "row_status r = status_i32 Running" "in_scope ns r"
    and c: "c \<in> set (execution_claims s)" "cl_job_id c = jid r" "cl_worker_id c = w"
    and stale: "\<forall>x\<in>set (workers s). wk_worker_id x = w \<longrightarrow> wk_last_heartbeat x < dead_worker_cutoff now"
    and "me \<noteq> w" and epoch: "epoch = mint_claim_epoch (rand_u64 e 0)"
  shows "(from_narrow r [] None, w)
        \<in> set (reap_orphaned_jobs (list_live_worker_ids (dead_worker_cutoff now) s @ [me]) ns s)
    \<and> (\<exists>s1. reclaim_execution e (jid r) w me s = (s1, Inr (Some epoch))
        \<and> find (\<lambda>x. cl_job_id x = jid r) (execution_claims s1)
            = Some (c\<lparr>cl_worker_id := me, cl_claimed_at := now_millis e, cl_epoch := Some epoch\<rparr>)
        \<and> authorize_attempt e1 (jid r) me (retry_count r) (Some epoch) None s1 = Inr Authorized
        \<and> (\<forall>old owner attempt ns'. old \<noteq> epoch \<longrightarrow>
             authorize_attempt e1 (jid r) owner attempt (Some old) ns' s1 = Inr Superseded)
        \<and> (\<forall>e' other. reclaim_execution e' (jid r) w other s1 = (s1, Inr None)))"
proof (rule conjI)
  have "w \<notin> set (list_live_worker_ids (dead_worker_cutoff now) s @ [me])"
    using stale assms(9) by (auto simp: list_live_worker_ids_def)
  then show "(from_narrow r [] None, w)
      \<in> set (reap_orphaned_jobs (list_live_worker_ids (dead_worker_cutoff now) s @ [me]) ns s)"
    by (rule orphan_listed [OF ok r c]) simp
  obtain s1 where s1: "reclaim_execution e (jid r) w me s = (s1, Inr (Some epoch))" "jobs s1 = jobs s" "db_ok s1"
    "find (\<lambda>x. cl_job_id x = jid r) (execution_claims s1)
       = Some (c\<lparr>cl_worker_id := me, cl_claimed_at := now_millis e, cl_epoch := Some epoch\<rparr>)"
    "\<forall>e' other. reclaim_execution e' (jid r) w other s1 = (s1, Inr None)"
    using reclaim_once [OF ok c assms(9) epoch] by blast
  have "r \<in> set (jobs s1)" using r(1) s1(2) by simp
  note fence = claimed_fence [OF s1(3) this r(2) s1(4)]
  show "\<exists>s1. reclaim_execution e (jid r) w me s = (s1, Inr (Some epoch))
      \<and> find (\<lambda>x. cl_job_id x = jid r) (execution_claims s1)
          = Some (c\<lparr>cl_worker_id := me, cl_claimed_at := now_millis e, cl_epoch := Some epoch\<rparr>)
      \<and> authorize_attempt e1 (jid r) me (retry_count r) (Some epoch) None s1 = Inr Authorized
      \<and> (\<forall>old owner attempt ns'. old \<noteq> epoch \<longrightarrow>
           authorize_attempt e1 (jid r) owner attempt (Some old) ns' s1 = Inr Superseded)
      \<and> (\<forall>e' other. reclaim_execution e' (jid r) w other s1 = (s1, Inr None))"
    using s1(1,4,5) fence by (intro exI [of _ s1]) simp
qed

theorem orphan_rescued_once_witness:
  "\<exists>s1. reclaim_execution (plain_env 60000) ''a'' ''w'' ''me'' stuck_db = (s1, Inr (Some 0))
     \<and> authorize_attempt (plain_env 60001) ''a'' ''me'' 0 (Some 0) None s1 = Inr Authorized
     \<and> authorize_attempt (plain_env 60001) ''a'' ''w'' 0 (Some 7) None s1 = Inr Superseded
     \<and> reclaim_execution (plain_env 60000) ''a'' ''w'' ''other'' s1 = (s1, Inr None)"
proof -
  let ?r = "start_row 5 (plain_row ''a'' ''q'' 0 5)"
  let ?c = "\<lparr>cl_job_id = ''a'', cl_worker_id = ''w'', cl_claimed_at = 5, cl_epoch = Some 7, cl_settle_deadline_ms = None\<rparr>"
  have r: "jid ?r = ''a''" "row_status ?r = status_i32 Running" "retry_count ?r = 0" by (simp_all add: start_row_def)
  have s: "?r \<in> set (jobs stuck_db)" "?c \<in> set (execution_claims stuck_db)" "workers stuck_db = []"
    by (simp_all add: stuck_db_def live_db_def empty_db_def)
  have "in_scope None ?r" by (simp add: in_scope_def job_in_namespace_def)
  moreover have "0 = mint_claim_epoch (rand_u64 (plain_env 60000) 0)" by (simp add: mint_claim_epoch_def)
  ultimately obtain s1 where "reclaim_execution (plain_env 60000) ''a'' ''w'' ''me'' stuck_db = (s1, Inr (Some 0))"
    "authorize_attempt (plain_env 60001) ''a'' ''me'' 0 (Some 0) None s1 = Inr Authorized"
    "\<forall>old owner attempt ns'. old \<noteq> 0 \<longrightarrow>
       authorize_attempt (plain_env 60001) ''a'' owner attempt (Some old) ns' s1 = Inr Superseded"
    "\<forall>e' other. reclaim_execution e' ''a'' ''w'' other s1 = (s1, Inr None)"
    using orphan_rescued_once [OF stuck_ok s(1) r(2) _ s(2), of None "''w''" 60000 "''me''" 0 "plain_env 60000" "plain_env 60001"]
    unfolding s(3) r by auto
  then show ?thesis by auto
qed

end
